(* ===== verification/Irc_Prelude.thy ===== *)
theory Irc_Prelude
  imports Main "HOL-Library.Monad_Syntax" "HOL-Library.Sublist"
begin

text \<open>
  What every component shares. Two named collections: \<open>irc_simps\<close>, the rewrites that
  evaluate an access through a pointer once the object is known to live, and
  \<open>irc_frames\<close>, one theorem per command on what it leaves alone. Two ways of speaking
  about a computation that may run into undefined behaviour; the loop over a list of
  receivers; the bytes and the substring search of \<open>std::string\<close>.

  A computation that dereferences a destroyed object has no result: its value is
  \<open>None\<close>. \<open>wp m Q\<close> says that \<open>m\<close> is free of undefined behaviour
  and that its result satisfies \<open>Q\<close>; \<open>pc m Q\<close> says only the second.
\<close>

named_theorems irc_simps
named_theorems irc_frames

section \<open>Computations that may run into undefined behaviour\<close>

definition wp :: "'a option \<Rightarrow> ('a \<Rightarrow> bool) \<Rightarrow> bool" where
  "wp m Q \<longleftrightarrow> (\<exists>x. m = Some x \<and> Q x)"

definition pc :: "'a option \<Rightarrow> ('a \<Rightarrow> bool) \<Rightarrow> bool" where
  "pc m Q \<longleftrightarrow> (\<forall>x. m = Some x \<longrightarrow> Q x)"

lemma wp_Some [simp]: "wp (Some x) Q \<longleftrightarrow> Q x"
  by (simp add: wp_def)

lemma wp_None [simp]: "\<not> wp None Q"
  by (simp add: wp_def)

lemma wp_bind [simp]: "wp (m \<bind> f) Q \<longleftrightarrow> wp m (\<lambda>x. wp (f x) Q)"
  by (cases m) auto

lemma wp_mono: "wp m P \<Longrightarrow> (\<And>x. P x \<Longrightarrow> Q x) \<Longrightarrow> wp m Q"
  by (auto simp: wp_def)

lemma wp_conj: "wp m P \<Longrightarrow> wp m Q \<Longrightarrow> wp m (\<lambda>x. P x \<and> Q x)"
  by (auto simp: wp_def)

lemma pc_Some [simp]: "pc (Some x) Q \<longleftrightarrow> Q x"
  by (simp add: pc_def)

lemma pc_None [simp]: "pc None Q"
  by (simp add: pc_def)

lemma pc_bind [simp]: "pc (m \<bind> f) Q \<longleftrightarrow> pc m (\<lambda>x. pc (f x) Q)"
  by (cases m) auto

lemma pc_mono: "pc m P \<Longrightarrow> (\<And>x. P x \<Longrightarrow> Q x) \<Longrightarrow> pc m Q"
  by (auto simp: pc_def)

lemma pcD: "pc m Q \<Longrightarrow> m = Some x \<Longrightarrow> Q x"
  by (simp add: pc_def)

lemma wp_pc: "wp m P \<Longrightarrow> pc m Q \<Longrightarrow> wp m (\<lambda>x. P x \<and> Q x)"
  by (auto simp: wp_def pc_def)

lemma wpE:
  assumes "wp m Q"
  obtains x where "m = Some x" and "Q x"
  using assms by (auto simp: wp_def)

section \<open>The loop over a vector of receivers\<close>

text \<open>\<open>for (i = 0; i < v.size(); ++i) f(v[i]);\<close> over a vector that the body does not change.\<close>

fun for_each :: "('a \<Rightarrow> 's \<Rightarrow> 's option) \<Rightarrow> 'a list \<Rightarrow> 's \<Rightarrow> 's option" where
  "for_each f [] s = Some s"
| "for_each f (x # xs) s = do { s' \<leftarrow> f x s; for_each f xs s' }"

lemma for_each_append [simp]:
  "for_each f (xs @ ys) s = do { s' \<leftarrow> for_each f xs s; for_each f ys s' }"
proof (induction xs arbitrary: s)
  case (Cons x xs)
  show ?case by (cases "f x s") (simp_all add: Cons.IH)
qed simp

lemma for_each_wp:
  assumes step: "\<And>x s. x \<in> set xs \<Longrightarrow> I s \<Longrightarrow> wp (f x s) I"
    and init: "I s"
  shows "wp (for_each f xs s) I"
  using init step
proof (induction xs arbitrary: s)
  case (Cons x xs)
  have "wp (f x s) I" using Cons.prems by simp
  then have "wp (f x s) (\<lambda>t. wp (for_each f xs t) I)"
    by (rule wp_mono) (rule Cons.IH, simp_all add: Cons.prems(2))
  then show ?case by simp
qed simp

lemma for_each_pc:
  assumes step: "\<And>x s. pc (f x s) (R s)"
    and refl: "\<And>s. R s s"
    and trans: "\<And>s t u. R s t \<Longrightarrow> R t u \<Longrightarrow> R s u"
  shows "pc (for_each f xs s) (R s)"
proof (induction xs arbitrary: s)
  case Nil
  show ?case by (simp add: refl)
next
  case (Cons x xs)
  have "pc (f x s) (\<lambda>t. pc (for_each f xs t) (R s))"
  proof (rule pc_mono [OF step])
    fix t
    assume "R s t"
    then show "pc (for_each f xs t) (R s)"
      by (rule pc_mono [OF Cons.IH trans])
  qed
  then show ?case by simp
qed

section \<open>Bytes and strings\<close>

text \<open>A C++ \<open>char\<close> is a byte; \<open>std::string\<close> is a list of bytes.\<close>

abbreviation NUL :: char where "NUL \<equiv> CHR 0x00"
abbreviation BEL :: char where "BEL \<equiv> CHR 0x07"
abbreviation TAB :: char where "TAB \<equiv> CHR 0x09"
abbreviation LF :: char where "LF \<equiv> CHR 0x0A"
abbreviation CR :: char where "CR \<equiv> CHR 0x0D"

text \<open>The line end that closes every IRC message.\<close>

abbreviation crlf :: string where "crlf \<equiv> [CR, LF]"

text \<open>\<open>std::string::find\<close>: the first position of a substring, \<open>None\<close> for \<open>npos\<close>.\<close>

fun str_find :: "string \<Rightarrow> string \<Rightarrow> nat option" where
  "str_find pat [] = (if pat = [] then Some 0 else None)"
| "str_find pat (c # cs) =
     (if take (length pat) (c # cs) = pat then Some 0
      else map_option Suc (str_find pat cs))"

lemma str_find_Some_take:
  "str_find pat s = Some n \<Longrightarrow> take (length pat) (drop n s) = pat"
  by (induction pat s arbitrary: n rule: str_find.induct) (auto split: if_splits)

lemma str_find_Some_le: "str_find pat s = Some n \<Longrightarrow> n + length pat \<le> length s"
proof (induction pat s arbitrary: n rule: str_find.induct)
  case (2 pat c cs)
  then show ?case
    by (auto split: if_splits) (metis length_take length_Cons min.absorb_iff2)
qed (auto split: if_splits)

lemma str_find_char_None [simp]: "str_find [c] s = None \<longleftrightarrow> c \<notin> set s"
  by (induction s) auto

lemma str_find_char_absent [simp]: "c \<notin> set s \<Longrightarrow> str_find [c] s = None"
  by simp

lemma str_find_char_Some:
  "str_find [c] s = Some n \<longleftrightarrow> n < length s \<and> s ! n = c \<and> c \<notin> set (take n s)"
proof (induction s arbitrary: n)
  case (Cons x xs)
  then show ?case by (cases n) auto
qed simp

lemma str_find_char_append:
  "c \<notin> set xs \<Longrightarrow> str_find [c] (xs @ c # ys) = Some (length xs)"
  by (induction xs) auto

lemma str_find_here: "str_find pat (pat @ v) \<noteq> None"
proof (cases "pat @ v")
  case (Cons x xs)
  then have "take (length pat) (x # xs) = pat" by (metis append_eq_conv_conj)
  then show ?thesis by (simp add: Cons)
qed simp

lemma str_find_inside: "str_find pat (u @ pat @ v) \<noteq> None"
proof (induction u)
  case Nil
  show ?case using str_find_here [of pat v] unfolding append_Nil .
qed auto

text \<open>A string that can be carried inside one IRC line.\<close>

definition clean :: "string \<Rightarrow> bool" where
  "clean s \<longleftrightarrow> list_all (\<lambda>c. c \<noteq> NUL \<and> c \<noteq> CR \<and> c \<noteq> LF) s"

lemma clean_simps [simp]:
  "clean []"
  "clean (c # s) \<longleftrightarrow> c \<noteq> NUL \<and> c \<noteq> CR \<and> c \<noteq> LF \<and> clean s"
  "clean (s @ t) \<longleftrightarrow> clean s \<and> clean t"
  by (auto simp: clean_def)

lemma clean_iff: "clean s \<longleftrightarrow> NUL \<notin> set s \<and> CR \<notin> set s \<and> LF \<notin> set s"
  by (induction s) auto

lemma clean_take: "clean s \<Longrightarrow> clean (take n s)"
  and clean_drop: "clean s \<Longrightarrow> clean (drop n s)"
  by (auto simp: clean_iff dest: in_set_takeD in_set_dropD)

text \<open>
  A chain of \<open>operator+\<close> on strings. It is kept folded in proofs, where only its length
  and its bytes matter.
\<close>

definition cat :: "string list \<Rightarrow> string" where
  "cat parts = concat parts"

lemma clean_cat: "clean (cat parts) \<longleftrightarrow> list_all clean parts"
  unfolding cat_def by (induction parts) auto

lemma length_cat: "length (cat parts) = sum_list (map length parts)"
  by (simp add: cat_def length_concat)

lemma cat_append: "cat (xs @ ys) = cat xs @ cat ys"
  by (simp add: cat_def)

end
