(* ===== verification/Ordered_Map.thy ===== *)
theory Ordered_Map
  imports Irc_Prelude "HOL-Library.List_Lexorder" "HOL-Library.Char_ord"
begin

text \<open>
  \<open>std::map\<close>: an association list whose keys ascend strictly, which is also the
  order in which the code's iterators visit it. Keys are descriptors (\<open>int\<close>) or
  strings; \<open>std::string\<close> compares bytes as unsigned numbers, lexicographically, which
  is the order the library theories \<open>Char_ord\<close> and \<open>List_Lexorder\<close> define.

  The locale \<open>std_map\<close> is the contract the server relies on (what \<open>find\<close> returns
  after \<open>operator[]\<close> and after \<open>erase\<close>, and that iteration is ordered); the
  interpretation \<open>om\<close> discharges it for the model's maps.
\<close>

type_synonym ('k, 'v) omap = "('k \<times> 'v) list"

fun om_insert :: "'k::linorder \<Rightarrow> 'v \<Rightarrow> ('k, 'v) omap \<Rightarrow> ('k, 'v) omap" where
  "om_insert k v [] = [(k, v)]"
| "om_insert k v ((a, b) # m) =
     (if k < a then (k, v) # (a, b) # m
      else if k = a then (k, v) # m
      else (a, b) # om_insert k v m)"

fun om_find :: "'k \<Rightarrow> ('k, 'v) omap \<Rightarrow> 'v option" where
  "om_find k [] = None"
| "om_find k ((a, b) # m) = (if k = a then Some b else om_find k m)"

fun om_erase :: "'k \<Rightarrow> ('k, 'v) omap \<Rightarrow> ('k, 'v) omap" where
  "om_erase k [] = []"
| "om_erase k ((a, b) # m) = (if k = a then m else (a, b) # om_erase k m)"

abbreviation om_keys :: "('k, 'v) omap \<Rightarrow> 'k list" where
  "om_keys m \<equiv> map fst m"

abbreviation om_values :: "('k, 'v) omap \<Rightarrow> 'v list" where
  "om_values m \<equiv> map snd m"

definition om_sorted :: "('k::linorder, 'v) omap \<Rightarrow> bool" where
  "om_sorted m \<longleftrightarrow> sorted_wrt (<) (om_keys m)"

section \<open>The contract of an ordered map\<close>

locale std_map =
  fixes empty :: "'m"
    and find :: "'k::linorder \<Rightarrow> 'm \<Rightarrow> 'v option"
    and insert :: "'k \<Rightarrow> 'v \<Rightarrow> 'm \<Rightarrow> 'm"
    and erase :: "'k \<Rightarrow> 'm \<Rightarrow> 'm"
    and entries :: "'m \<Rightarrow> ('k \<times> 'v) list"
    and invar :: "'m \<Rightarrow> bool"
  assumes find_empty: "find k empty = None"
    and find_insert: "find k (insert l v m) = (if k = l then Some v else find k m)"
    and find_erase: "invar m \<Longrightarrow> find k (erase l m) = (if k = l then None else find k m)"
    and invar_empty: "invar empty"
    and invar_insert: "invar m \<Longrightarrow> invar (insert k v m)"
    and invar_erase: "invar m \<Longrightarrow> invar (erase k m)"
    and entries_find: "invar m \<Longrightarrow> (k, v) \<in> set (entries m) \<longleftrightarrow> find k m = Some v"
    and entries_ascend: "invar m \<Longrightarrow> sorted_wrt (<) (map fst (entries m))"
begin

lemma keys_distinct: "invar m \<Longrightarrow> distinct (map fst (entries m))"
  using entries_ascend strict_sorted_iff by blast

lemma set_entries_insert:
  assumes "invar m"
  shows "set (entries (insert k v m)) = {(k, v)} \<union> {e \<in> set (entries m). fst e \<noteq> k}"
  using assms by (auto simp: entries_find invar_insert find_insert split: if_splits)

lemma set_entries_erase:
  assumes "invar m"
  shows "set (entries (erase k m)) = {e \<in> set (entries m). fst e \<noteq> k}"
  using assms by (auto simp: entries_find invar_erase find_erase split: if_splits)

lemma keys_insert: "invar m \<Longrightarrow> fst ` set (entries (insert k v m)) = Set.insert k (fst ` set (entries m))"
  by (force simp: set_entries_insert)

lemma keys_erase: "invar m \<Longrightarrow> fst ` set (entries (erase k m)) = fst ` set (entries m) - {k}"
  by (force simp: set_entries_erase)

lemma find_None_keys: "invar m \<Longrightarrow> find k m = None \<longleftrightarrow> k \<notin> fst ` set (entries m)"
  using entries_find by (cases "find k m") force+

lemma length_entries: "invar m \<Longrightarrow> length (entries m) = card (fst ` set (entries m))"
  using keys_distinct distinct_card [of "map fst (entries m)"] by simp

lemma length_insert_fresh:
  assumes "invar m" and "find k m = None"
  shows "length (entries (insert k v m)) = Suc (length (entries m))"
  using assms by (simp add: length_entries invar_insert keys_insert find_None_keys)

end

section \<open>The model's maps keep the contract\<close>

lemma om_find_insert:
  "om_find k (om_insert l v m) = (if k = l then Some v else om_find k m)"
  by (induction l v m rule: om_insert.induct) auto

lemma om_find_mem: "om_find k m = Some v \<Longrightarrow> (k, v) \<in> set m"
  by (induction k m rule: om_find.induct) (auto split: if_splits)

lemma om_find_sorted: "om_sorted m \<Longrightarrow> (k, v) \<in> set m \<Longrightarrow> om_find k m = Some v"
  by (induction k m rule: om_find.induct) (force simp: om_sorted_def)+

lemma om_find_None: "om_find k m = None \<longleftrightarrow> k \<notin> fst ` set m"
  by (induction k m rule: om_find.induct) auto

lemma om_find_erase:
  "om_sorted m \<Longrightarrow> om_find k (om_erase l m) = (if k = l then None else om_find k m)"
proof (induction l m rule: om_erase.induct)
  case (2 l a b m)
  then have "a \<notin> fst ` set m" by (auto simp: om_sorted_def)
  then have "om_find a m = None" by (simp add: om_find_None)
  with 2 show ?case by (auto simp: om_sorted_def)
qed simp

lemma set_om_insert_subset: "fst ` set (om_insert k v m) = Set.insert k (fst ` set m)"
  by (induction k v m rule: om_insert.induct) auto

lemma om_sorted_insert: "om_sorted m \<Longrightarrow> om_sorted (om_insert k v m)"
proof (induction k v m rule: om_insert.induct)
  case (2 k v a b m)
  have "x \<in> set (om_insert k v m) \<Longrightarrow> fst x = k \<or> fst x \<in> fst ` set m" for x
    using set_om_insert_subset [of k v m] by force
  with 2 show ?case by (fastforce simp: om_sorted_def)
qed (simp add: om_sorted_def)

lemma set_om_erase_subset: "set (om_erase k m) \<subseteq> set m"
  by (induction k m rule: om_erase.induct) auto

lemma om_sorted_erase: "om_sorted m \<Longrightarrow> om_sorted (om_erase k m)"
proof (induction k m rule: om_erase.induct)
  case (2 k a b m)
  with set_om_erase_subset [of k m] show ?case by (auto simp: om_sorted_def)
qed simp

interpretation om: std_map "[]" om_find om_insert om_erase "\<lambda>m. m" om_sorted
  by unfold_locales
    (auto simp: om_find_insert om_find_erase om_sorted_insert om_sorted_erase
       dest: om_find_mem om_find_sorted, auto simp: om_sorted_def)

declare om_find_insert [simp] om_sorted_insert [simp, intro] om_sorted_erase [simp, intro]

lemma om_sorted_Nil [simp]: "om_sorted []"
  by (rule om.invar_empty)

lemma om_find_iff: "om_sorted m \<Longrightarrow> om_find k m = Some v \<longleftrightarrow> (k, v) \<in> set m"
  by (auto dest: om_find_mem om_find_sorted)

text \<open>Overwriting an entry twice, or the entries in a different order.\<close>

lemma om_insert_insert [simp]: "om_insert k v (om_insert k w m) = om_insert k v m"
  by (induction k w m rule: om_insert.induct) auto

lemma om_values_keys_distinct: "om_sorted m \<Longrightarrow> distinct (om_keys m)"
  by (rule om.keys_distinct)

end
