(* ===== verification/Cxx_Text.thy ===== *)
theory Cxx_Text
  imports Irc_Prelude "HOL-Library.Word"
begin

text \<open>
  The parts of the C++ standard library that the program reads text with: the character
  classes of \<open><cctype>\<close> in the "C" locale (the program never calls \<open>setlocale\<close>),
  \<open>std::getline\<close> with a delimiter and the \<open>splitString\<close> helper built on it (the same
  code in \<open>Join.cpp\<close>, \<open>Kick.cpp\<close> and \<open>PrivmsgCommand.cpp\<close>), \<open>operator>>\<close>
  into a string, decimal output, \<open>std::atoi\<close> as glibc implements it on an LP64 machine
  (\<open>(int) strtol\<close>), and the extraction of a \<open>long\<close>.
\<close>

section \<open>Character classes\<close>

abbreviation code :: "char \<Rightarrow> nat" where "code c \<equiv> of_char c"

definition is_digit :: "char \<Rightarrow> bool" where
  "is_digit c \<longleftrightarrow> 48 \<le> code c \<and> code c \<le> 57"

definition is_lower :: "char \<Rightarrow> bool" where
  "is_lower c \<longleftrightarrow> 97 \<le> code c \<and> code c \<le> 122"

definition is_upper :: "char \<Rightarrow> bool" where
  "is_upper c \<longleftrightarrow> 65 \<le> code c \<and> code c \<le> 90"

definition is_alpha :: "char \<Rightarrow> bool" where
  "is_alpha c \<longleftrightarrow> is_lower c \<or> is_upper c"

definition is_space :: "char \<Rightarrow> bool" where
  "is_space c \<longleftrightarrow> c = CHR '' '' \<or> (9 \<le> code c \<and> code c \<le> 13)"

definition to_upper :: "char \<Rightarrow> char" where
  "to_upper c = (if is_lower c then char_of (code c - 32) else c)"

definition toUpperCase :: "string \<Rightarrow> string" where
  "toUpperCase s = map to_upper s"

lemma length_toUpperCase [simp]: "length (toUpperCase s) = length s"
  by (simp add: toUpperCase_def)

lemma code_less_256: "code c < 256"
  by (metis of_char_mod_256 mod_less_divisor zero_less_numeral)

lemma code_to_upper: "code (to_upper c) = (if is_lower c then code c - 32 else code c)"
  using code_less_256 [of c] less_imp_diff_less [of "code c" 256 32]
  by (simp add: to_upper_def mod_less)

lemma to_upper_not_lower: "\<not> is_lower (to_upper c)"
  unfolding is_lower_def code_to_upper by auto

lemma to_upper_idem [simp]: "to_upper (to_upper c) = to_upper c"
  using to_upper_not_lower [of c] by (simp add: to_upper_def [of "to_upper c"])

lemma is_space_to_upper [simp]: "is_space (to_upper c) = is_space c"
proof (cases "is_lower c")
  case True
  then have "code (to_upper c) = code c - 32" and "97 \<le> code c" and "code c \<le> 122"
    by (simp_all add: code_to_upper is_lower_def)
  then have "code (to_upper c) > 32" and "code c > 32" by auto
  then show ?thesis by (auto simp: is_space_def)
qed (simp add: to_upper_def)

section \<open>Splitting at a delimiter: \<open>std::getline\<close> and \<open>splitString\<close>\<close>

text \<open>
  One \<open>getline(ss, token, d)\<close>: it fails on an exhausted stream; otherwise the token
  runs up to the delimiter, which is taken off the stream and not stored.
\<close>

definition getline :: "char \<Rightarrow> string \<Rightarrow> (string \<times> string) option" where
  "getline d ss =
     (if ss = [] then None
      else Some (takeWhile (\<lambda>c. c \<noteq> d) ss, drop 1 (dropWhile (\<lambda>c. c \<noteq> d) ss)))"

lemma getline_shorter: "getline d ss = Some (token, rest) \<Longrightarrow> length rest < length ss"
  using length_dropWhile_le [of "\<lambda>c. c \<noteq> d" ss]
  by (cases ss) (auto simp: getline_def split: if_splits)

function split_loop :: "char \<Rightarrow> string \<Rightarrow> string list" where
  "split_loop d ss =
     (case getline d ss of
        None \<Rightarrow> []
      | Some (token, rest) \<Rightarrow>
          (if token \<noteq> [] then token # split_loop d rest else split_loop d rest))"
  by pat_completeness auto
termination
  by (relation "measure (\<lambda>(d, ss). length ss)") (auto dest: getline_shorter)

declare split_loop.simps [simp del]

definition splitString :: "string \<Rightarrow> char \<Rightarrow> string list" where
  "splitString str delimiter = split_loop delimiter str"

lemma getline_token:
  "d \<notin> set token \<Longrightarrow> getline d (token @ d # rest) = Some (token, rest)"
  "d \<notin> set token \<Longrightarrow> token \<noteq> [] \<Longrightarrow> getline d token = Some (token, [])"
proof -
  assume "d \<notin> set token"
  then have "takeWhile (\<lambda>c. c \<noteq> d) (token @ d # rest) = token"
    "dropWhile (\<lambda>c. c \<noteq> d) (token @ d # rest) = d # rest"
    "takeWhile (\<lambda>c. c \<noteq> d) token = token" "dropWhile (\<lambda>c. c \<noteq> d) token = []"
    by (auto simp: takeWhile_append dropWhile_append takeWhile_eq_all_conv dropWhile_eq_Nil_conv)
  then show "getline d (token @ d # rest) = Some (token, rest)"
    "token \<noteq> [] \<Longrightarrow> getline d token = Some (token, [])"
    unfolding getline_def
    by (simp_all del: dropWhile_eq_Nil_conv takeWhile_eq_all_conv)
qed

lemma getline_sets:
  "getline d ss = Some (token, rest) \<Longrightarrow> d \<notin> set token \<and> set token \<subseteq> set ss \<and> set rest \<subseteq> set ss"
  by (auto simp: getline_def split: if_splits dest: set_takeWhileD in_set_dropD set_dropWhileD)

lemma split_loop_Nil [simp]: "split_loop d [] = []"
  by (simp add: split_loop.simps getline_def)

lemma split_loop_step:
  "d \<notin> set token \<Longrightarrow> split_loop d (token @ d # rest) =
     (if token = [] then split_loop d rest else token # split_loop d rest)"
  by (subst split_loop.simps) (simp add: getline_token)

lemma split_loop_last:
  "d \<notin> set token \<Longrightarrow> split_loop d token = (if token = [] then [] else [token])"
  by (cases "token = []", simp) (subst split_loop.simps, simp add: getline_token)

lemma split_loop_tokens: "t \<in> set (split_loop d ss) \<Longrightarrow> t \<noteq> [] \<and> d \<notin> set t \<and> set t \<subseteq> set ss"
proof (induction d ss rule: split_loop.induct)
  case (1 d ss)
  show ?case
  proof (cases "getline d ss")
    case None
    then have "split_loop d ss = []" by (subst split_loop.simps) simp
    with "1.prems" show ?thesis by simp
  next
    case (Some tr)
    then obtain token rest where tr: "getline d ss = Some (token, rest)" by (cases tr) auto
    then have "t = token \<and> token \<noteq> [] \<or> t \<in> set (split_loop d rest)"
      using "1.prems" by (subst (asm) split_loop.simps) (auto split: if_splits)
    moreover have "t \<in> set (split_loop d rest) \<Longrightarrow> t \<noteq> [] \<and> d \<notin> set t \<and> set t \<subseteq> set rest"
      using "1.IH" tr by blast
    ultimately show ?thesis using getline_sets [OF tr] by blast
  qed
qed

text \<open>
  The tokens are what lies between the delimiters, empty pieces dropped. A list of
  non-empty names without commas is recovered from its comma-separated form.
\<close>

fun join_with :: "char \<Rightarrow> string list \<Rightarrow> string" where
  "join_with d [] = []"
| "join_with d [t] = t"
| "join_with d (t # ts) = t @ d # join_with d ts"

lemma splitString_join_with:
  "list_all (\<lambda>t. t \<noteq> [] \<and> d \<notin> set t) ts \<Longrightarrow> splitString (join_with d ts) d = ts"
  unfolding splitString_def
  by (induction d ts rule: join_with.induct) (simp_all add: split_loop_step split_loop_last)

section \<open>Extracting words: \<open>operator>>\<close> into a string\<close>

definition read_word :: "string \<Rightarrow> (string \<times> string) option" where
  "read_word ss =
     (let s = dropWhile is_space ss
      in if s = [] then None
         else Some (takeWhile (\<lambda>c. \<not> is_space c) s, dropWhile (\<lambda>c. \<not> is_space c) s))"

lemma read_word_shorter: "read_word ss = Some (w, rest) \<Longrightarrow> length rest < length ss"
proof -
  assume a: "read_word ss = Some (w, rest)"
  let ?s = "dropWhile is_space ss"
  from a have ne: "?s \<noteq> []" and rest: "rest = dropWhile (\<lambda>c. \<not> is_space c) ?s"
    by (auto simp: read_word_def Let_def split: if_splits)
  from ne have "\<not> is_space (hd ?s)" by (rule hd_dropWhile)
  then have "rest = dropWhile (\<lambda>c. \<not> is_space c) (tl ?s)"
    using ne rest by (cases ?s) auto
  then have "length rest \<le> length (tl ?s)" by (simp only: length_dropWhile_le)
  also have "\<dots> < length ?s" using ne by simp
  also have "\<dots> \<le> length ss" by (rule length_dropWhile_le)
  finally show ?thesis .
qed

text \<open>\<open>while (ss >> word) v.push_back(word);\<close>\<close>

function read_words :: "string \<Rightarrow> string list" where
  "read_words ss =
     (case read_word ss of None \<Rightarrow> [] | Some (w, rest) \<Rightarrow> w # read_words rest)"
  by pat_completeness auto
termination
  by (relation "measure length") (auto dest: read_word_shorter)

declare read_words.simps [simp del]

definition is_word :: "string \<Rightarrow> bool" where
  "is_word w \<longleftrightarrow> w \<noteq> [] \<and> list_all (\<lambda>c. \<not> is_space c) w"

lemma read_word_Some:
  "read_word ss = Some (w, rest) \<Longrightarrow> is_word w \<and> set w \<subseteq> set ss \<and> set rest \<subseteq> set ss"
  using hd_dropWhile [of is_space ss]
  by (auto simp: read_word_def Let_def is_word_def list_all_iff takeWhile_eq_Nil_iff
      simp del: set_dropWhileD split: if_splits dest: set_takeWhileD set_dropWhileD)

lemma read_words_are_words: "w \<in> set (read_words ss) \<Longrightarrow> is_word w \<and> set w \<subseteq> set ss"
proof (induction ss rule: read_words.induct)
  case (1 ss)
  show ?case
  proof (cases "read_word ss")
    case None
    then have "read_words ss = []" by (subst read_words.simps) simp
    with "1.prems" show ?thesis by simp
  next
    case (Some p)
    then obtain v rest where v: "read_word ss = Some (v, rest)" by (cases p) auto
    with "1.prems" have "w = v \<or> w \<in> set (read_words rest)"
      by (subst (asm) read_words.simps) simp
    moreover have "w \<in> set (read_words rest) \<Longrightarrow> is_word w \<and> set w \<subseteq> set rest"
      using "1.IH" v by blast
    ultimately show ?thesis using read_word_Some [OF v] by blast
  qed
qed

lemma is_word_simps:
  assumes "is_word w"
  shows "dropWhile is_space (w @ r) = w @ r"
    and "takeWhile (\<lambda>c. \<not> is_space c) (w @ CHR '' '' # r) = w"
    and "dropWhile (\<lambda>c. \<not> is_space c) (w @ CHR '' '' # r) = CHR '' '' # r"
    and "takeWhile (\<lambda>c. \<not> is_space c) w = w"
    and "dropWhile (\<lambda>c. \<not> is_space c) w = []"
proof -
  from assms have w: "\<forall>c \<in> set w. \<not> is_space c" "w \<noteq> []"
    by (simp_all add: is_word_def list_all_iff)
  then show "dropWhile is_space (w @ r) = w @ r" by (cases w) simp_all
  have sp: "is_space CHR '' ''" by (simp add: is_space_def)
  show "takeWhile (\<lambda>c. \<not> is_space c) (w @ CHR '' '' # r) = w"
    "dropWhile (\<lambda>c. \<not> is_space c) (w @ CHR '' '' # r) = CHR '' '' # r"
    using w(1) sp by (simp_all add: takeWhile_append dropWhile_append)
  show "takeWhile (\<lambda>c. \<not> is_space c) w = w" "dropWhile (\<lambda>c. \<not> is_space c) w = []"
    using w(1) by (simp_all add: takeWhile_eq_all_conv dropWhile_eq_Nil_conv)
qed

lemma read_word_space [simp]: "read_word (CHR '' '' # s) = read_word s"
  by (simp add: read_word_def is_space_def)

lemma read_word_Nil [simp]: "read_word [] = None"
  by (simp add: read_word_def)

lemma read_word_word:
  "is_word w \<Longrightarrow> read_word (w @ CHR '' '' # r) = Some (w, CHR '' '' # r)"
  "is_word w \<Longrightarrow> read_word w = Some (w, [])"
  using is_word_simps(1) [of w "[]"]
  by (auto simp: read_word_def Let_def is_word_simps) (auto simp: is_word_def)

text \<open>Words printed with a blank before each are read back.\<close>

definition spaced :: "string list \<Rightarrow> string" where
  "spaced ws = concat (map (\<lambda>w. CHR '' '' # w) ws)"

lemma read_words_spaced: "list_all is_word ws \<Longrightarrow> read_words (spaced ws) = ws"
proof (induction ws)
  case Nil
  show ?case by (simp add: spaced_def read_words.simps)
next
  case (Cons w ws)
  have "read_word (spaced (w # ws)) = Some (w, spaced ws)"
    using Cons.prems by (cases ws) (simp_all add: spaced_def read_word_word)
  with Cons show ?case by (subst read_words.simps) simp
qed

section \<open>Numbers\<close>

definition digit_value :: "char \<Rightarrow> nat" where
  "digit_value c = code c - 48"

definition decimal :: "string \<Rightarrow> nat" where
  "decimal s = foldl (\<lambda>n c. 10 * n + digit_value c) 0 s"

definition digit_char :: "nat \<Rightarrow> char" where
  "digit_char d = char_of (48 + d)"

text \<open>\<open>std::ostream::operator<<\<close> on a non-negative number.\<close>

fun show_nat :: "nat \<Rightarrow> string" where
  "show_nat n = (if n < 10 then [digit_char n] else show_nat (n div 10) @ [digit_char (n mod 10)])"

declare show_nat.simps [simp del]

lemma code_digit_char: "d < 10 \<Longrightarrow> code (digit_char d) = 48 + d"
  by (simp add: digit_char_def)

lemma digit_char_props:
  "d < 10 \<Longrightarrow> is_digit (digit_char d)" "d < 10 \<Longrightarrow> digit_value (digit_char d) = d"
  by (auto simp: is_digit_def digit_value_def code_digit_char)

lemma decimal_snoc [simp]: "decimal (s @ [c]) = 10 * decimal s + digit_value c"
  by (simp add: decimal_def)

lemma show_nat_digits: "list_all is_digit (show_nat n) \<and> show_nat n \<noteq> []"
proof (induction n rule: show_nat.induct)
  case (1 n)
  then show ?case by (subst (1 2) show_nat.simps) (auto simp: digit_char_props)
qed

lemma decimal_show_nat: "decimal (show_nat n) = n"
proof (induction n rule: show_nat.induct)
  case (1 n)
  show ?case
  proof (cases "n < 10")
    case True
    then show ?thesis
      using decimal_snoc [of "[]" "digit_char n"]
      by (subst show_nat.simps) (simp add: digit_char_props decimal_def)
  next
    case False
    with 1 show ?thesis by (subst show_nat.simps) (simp add: digit_char_props)
  qed
qed

lemma digit_clean: "is_digit c \<Longrightarrow> c \<noteq> NUL \<and> c \<noteq> CR \<and> c \<noteq> LF"
  by (auto simp: is_digit_def)

lemma clean_show_nat [simp]: "clean (show_nat n)"
  using show_nat_digits [of n] by (auto simp: clean_def list_all_iff dest: digit_clean)

text \<open>
  \<open>std::atoi\<close> on a string of digits: \<open>strtol\<close> stops at \<open>LONG_MAX\<close>, and the cast to
  \<open>int\<close> keeps the low 32 bits, read in two's complement.
\<close>

definition LONG_MAX :: nat where
  "LONG_MAX = 2 ^ 63 - 1"

definition atoi :: "string \<Rightarrow> int" where
  "atoi s = sint (of_nat (min (decimal s) LONG_MAX) :: 32 word)"

lemma atoi_range: "- (2 ^ 31) \<le> atoi s \<and> atoi s < 2 ^ 31"
  using sint_range_size [of "of_nat (min (decimal s) LONG_MAX) :: 32 word"]
  by (simp add: atoi_def word_size)

lemma atoi_small: "decimal s < 2 ^ 31 \<Longrightarrow> atoi s = int (decimal s)"
  by (simp add: atoi_def LONG_MAX_def sint_uint uint_nat unat_of_nat signed_take_bit_int_eq_self)

text \<open>
  \<open>portStream >> parsedValue\<close> on a string of digits: the value, or a failed stream
  when it does not fit a \<open>long\<close>.
\<close>

definition read_long :: "string \<Rightarrow> int option" where
  "read_long s = (if decimal s \<le> LONG_MAX then Some (int (decimal s)) else None)"

end
