(* ===== verification/Parser.thy ===== *)
theory Parser
  imports Cxx_Text
begin

text \<open>
  \<open>include/Parser.hpp\<close> and \<open>src/parser/Parser.cpp\<close>: the struct \<open>Message\<close> and
  \<open>Parser::parse\<close>, which splits one line into prefix, command and parameters. The
  lemmas say what a parsed message can contain (words without blanks, bytes of the line
  only, the command in upper case) and that a printed message parses back to itself.
\<close>

record message =
  msg_prefix :: string
  msg_command :: string
  msg_params :: "string list"

definition empty_message :: message where
  "empty_message = \<lparr>msg_prefix = [], msg_command = [], msg_params = []\<rparr>"

text \<open>The trailing carriage return that both \<open>Parser::parse\<close> and \<open>extractLine\<close> drop.\<close>

definition strip_cr :: "string \<Rightarrow> string" where
  "strip_cr line = (if line \<noteq> [] \<and> last line = CR then butlast line else line)"

text \<open>The line up to the first blank-colon pair, and the text after it if there is one.\<close>

definition split_trailing :: "string \<Rightarrow> string \<times> string option" where
  "split_trailing line =
     (case str_find '' :'' line of
        None \<Rightarrow> (line, None)
      | Some trailing_pos \<Rightarrow> (take trailing_pos line, Some (drop (trailing_pos + 2) line)))"

definition parse :: "string \<Rightarrow> message" where
  "parse raw_line =
     (let line = strip_cr raw_line in
      if line = [] then empty_message
      else let (base_part, trailing) = split_trailing line;
               trailing_params = (case trailing of None \<Rightarrow> [] | Some t \<Rightarrow> [t])
           in case read_word base_part of
                None \<Rightarrow> empty_message
              | Some (word, ss) \<Rightarrow>
                  if hd word = CHR '':'' then
                    (case read_word ss of
                       None \<Rightarrow> \<lparr>msg_prefix = tl word, msg_command = [], msg_params = trailing_params\<rparr>
                     | Some (word', ss') \<Rightarrow>
                         \<lparr>msg_prefix = tl word, msg_command = toUpperCase word',
                          msg_params = read_words ss' @ trailing_params\<rparr>)
                  else
                    \<lparr>msg_prefix = [], msg_command = toUpperCase word,
                     msg_params = read_words ss @ trailing_params\<rparr>)"

section \<open>What a parsed message contains\<close>

lemma set_strip_cr: "set (strip_cr line) \<subseteq> set line"
  by (auto simp: strip_cr_def dest: in_set_butlastD)

lemma strip_cr_absent: "CR \<notin> set line \<Longrightarrow> strip_cr line = line"
  by (metis last_in_set strip_cr_def)

lemma strip_cr_snoc: "strip_cr (line @ [CR]) = line"
  by (simp add: strip_cr_def)

lemma split_trailing_sets:
  assumes "split_trailing line = (b, t)"
  shows "set b \<subseteq> set line" and "t = Some u \<Longrightarrow> set u \<subseteq> set line"
  using assms set_take_subset set_drop_subset
  by (auto simp: split_trailing_def split: option.splits dest: in_set_takeD in_set_dropD)

lemma read_words_sets: "w \<in> set (read_words ss) \<Longrightarrow> set w \<subseteq> set ss"
  using read_words_are_words by blast

lemma parse_params_sets: "t \<in> set (msg_params (parse raw)) \<Longrightarrow> set t \<subseteq> set raw"
proof -
  assume t: "t \<in> set (msg_params (parse raw))"
  let ?l = "strip_cr raw"
  obtain b tr where st: "split_trailing ?l = (b, tr)" by (cases "split_trailing ?l")
  note sets = split_trailing_sets [OF st]
  have "set t \<subseteq> set ?l"
    using t st sets
    by (auto simp: parse_def Let_def empty_message_def split: option.splits if_splits prod.splits
        dest!: read_word_Some read_words_sets) blast+
  then show ?thesis using set_strip_cr by blast
qed

lemma clean_subset: "clean s \<Longrightarrow> set t \<subseteq> set s \<Longrightarrow> clean t"
  by (auto simp: clean_iff)

lemma clean_params: "clean raw \<Longrightarrow> list_all clean (msg_params (parse raw))"
  using parse_params_sets by (auto simp: list_all_iff intro: clean_subset)

lemma set_toUpperCase_space: "is_word w \<Longrightarrow> is_word (toUpperCase w)"
  by (simp add: is_word_def toUpperCase_def list_all_iff)

text \<open>The command of a parsed line is empty or one word in upper case.\<close>

lemma toUpperCase_idem [simp]: "toUpperCase (toUpperCase w) = toUpperCase w"
  by (simp add: toUpperCase_def)

lemma parse_command_word:
  "msg_command (parse raw) = [] \<or>
   is_word (msg_command (parse raw)) \<and> toUpperCase (msg_command (parse raw)) = msg_command (parse raw)"
  by (auto simp: parse_def Let_def empty_message_def split: option.splits prod.splits
      dest!: read_word_Some dest: set_toUpperCase_space)

section \<open>Printing and parsing back\<close>

text \<open>The wire form of a message with a last parameter that may contain blanks.\<close>

definition render :: "message \<Rightarrow> string" where
  "render m =
     (if msg_prefix m = [] then msg_command m
      else CHR '':'' # msg_prefix m @ CHR '' '' # msg_command m)
     @ spaced (butlast (msg_params m))
     @ (if msg_params m = [] then [] else '' :'' @ last (msg_params m))"

text \<open>
  The messages that have such a form: an upper-case command word, parameters that are
  words not starting with a colon, except for the last one, which is any text without
  CR; a prefix, if present, is a word.
\<close>

definition no_colon :: "string \<Rightarrow> bool" where
  "no_colon w \<longleftrightarrow> w = [] \<or> hd w \<noteq> CHR '':''"

definition printable :: "message \<Rightarrow> bool" where
  "printable m \<longleftrightarrow>
     (msg_prefix m = [] \<or> is_word (msg_prefix m)) \<and>
     is_word (msg_command m) \<and> no_colon (msg_command m) \<and>
     toUpperCase (msg_command m) = msg_command m \<and>
     list_all (\<lambda>w. is_word w \<and> no_colon w) (butlast (msg_params m)) \<and>
     (msg_params m \<noteq> [] \<longrightarrow> CR \<notin> set (last (msg_params m)))"

lemma str_find_spaced:
  assumes "list_all (\<lambda>w. is_word w \<and> no_colon w) ws"
    and "is_word w"
  shows "str_find '' :'' (w @ spaced ws @ '' :'' @ t) = Some (length w + length (spaced ws))"
    and "str_find '' :'' (w @ spaced ws) = None"
proof -
  have skip: "str_find '' :'' (v @ r) = map_option ((+) (length v)) (str_find '' :'' r)"
    if "\<forall>c \<in> set v. \<not> is_space c" for v r
    using that
  proof (induction v)
    case (Cons c v)
    have "c \<noteq> CHR '' ''" using Cons.prems by (auto simp: is_space_def)
    with Cons show ?case by (cases "str_find '' :'' r") auto
  next
    case Nil
    show ?case by (cases "str_find '' :'' r") simp_all
  qed
  have w: "\<forall>c \<in> set v. \<not> is_space c" if "is_word v" for v
    using that by (simp add: is_word_def list_all_iff)
  have blank: "str_find '' :'' (CHR '' '' # v @ r) = map_option Suc (str_find '' :'' (v @ r))"
    if "is_word v" "no_colon v" for v r
    using that by (cases v) (auto simp: is_word_def no_colon_def)
  have "str_find '' :'' (spaced ws @ '' :'' @ t) = Some (length (spaced ws)) \<and>
        str_find '' :'' (spaced ws) = None"
    using assms(1)
  proof (induction ws)
    case (Cons v vs)
    then have v: "is_word v" "no_colon v" by simp_all
    from Cons show ?case
      using blank [OF v, of "spaced vs @ '' :'' @ t"] blank [OF v, of "spaced vs"]
        skip [OF w [OF v(1)], of "spaced vs @ '' :'' @ t"] skip [OF w [OF v(1)], of "spaced vs"]
      by (simp add: spaced_def)
  qed (simp add: spaced_def)
  then show "str_find '' :'' (w @ spaced ws @ '' :'' @ t) = Some (length w + length (spaced ws))"
    "str_find '' :'' (w @ spaced ws) = None"
    using skip [OF w [OF assms(2)], of "spaced ws @ '' :'' @ t"]
      skip [OF w [OF assms(2)], of "spaced ws"] by simp_all
qed

lemma spaced_append [simp]: "spaced (xs @ ys) = spaced xs @ spaced ys"
  by (simp add: spaced_def)

lemma spaced_Cons: "spaced (w # ws) = CHR '' '' # w @ spaced ws"
  by (simp add: spaced_def)

lemma word_no_CR: "is_word w \<Longrightarrow> CR \<notin> set w"
proof -
  have "is_space CR" by (simp add: is_space_def)
  then show "is_word w \<Longrightarrow> CR \<notin> set w" by (auto simp: is_word_def list_all_iff)
qed

lemma spaced_no_CR: "list_all is_word ws \<Longrightarrow> CR \<notin> set (spaced ws)"
  by (induction ws) (auto simp: spaced_def dest: word_no_CR)

lemma read_word_spaced:
  assumes "is_word w"
  shows "read_word (w @ spaced ws) = Some (w, spaced ws)"
  using assms by (cases ws) (simp_all add: spaced_def read_word_word)

text \<open>The text of a message is one word, a list of words, and perhaps a trailing part.\<close>

lemma parse_words:
  assumes w: "is_word w" and ws: "list_all (\<lambda>v. is_word v \<and> no_colon v) ws"
    and tr: "\<And>u. t = Some u \<Longrightarrow> CR \<notin> set u"
  defines "line \<equiv> w @ spaced ws @ (case t of None \<Rightarrow> [] | Some u \<Rightarrow> '' :'' @ u)"
  shows "strip_cr line = line" and "line \<noteq> []"
    and "split_trailing line = (w @ spaced ws, t)"
    and "read_word (w @ spaced ws) = Some (w, spaced ws)"
proof -
  have words: "list_all is_word ws" using ws by (simp add: list_all_iff)
  have "CR \<notin> set line"
    using word_no_CR [OF w] spaced_no_CR [OF words] tr by (auto simp: line_def split: option.splits)
  then show "strip_cr line = line" by (rule strip_cr_absent)
  show "line \<noteq> []" using w by (auto simp: line_def is_word_def)
  show "split_trailing line = (w @ spaced ws, t)"
    using str_find_spaced [OF ws w]
    by (cases t) (simp_all add: line_def split_trailing_def)
  show "read_word (w @ spaced ws) = Some (w, spaced ws)"
    by (rule read_word_spaced) (rule w)
qed

lemma params_trailing:
  "butlast ps @ (case (if ps = [] then None else Some (last ps)) of None \<Rightarrow> [] | Some u \<Rightarrow> [u]) = ps"
  by simp

lemma parse_line:
  assumes "strip_cr l = l" and "l \<noteq> []" and "split_trailing l = (b, t)"
  shows "read_word b = Some (w, r) \<Longrightarrow> hd w \<noteq> CHR '':'' \<Longrightarrow>
      parse l = \<lparr>msg_prefix = [], msg_command = toUpperCase w,
        msg_params = read_words r @ (case t of None \<Rightarrow> [] | Some u \<Rightarrow> [u])\<rparr>"
    and "read_word b = Some (CHR '':'' # p, r) \<Longrightarrow> read_word r = Some (w, r') \<Longrightarrow>
      parse l = \<lparr>msg_prefix = p, msg_command = toUpperCase w,
        msg_params = read_words r' @ (case t of None \<Rightarrow> [] | Some u \<Rightarrow> [u])\<rparr>"
  using assms by (simp_all add: parse_def Let_def)

text \<open>
  C26. Round trip: a message whose words are words, written in the IRC syntax (prefix, command,
  parameters, the last one after a colon), is parsed back to the same prefix, command and
  parameters; the last parameter may hold spaces and colons or be empty.
\<close>

theorem parse_render:
  assumes "printable m"
  shows "parse (render m) = m"
proof -
  let ?ps = "msg_params m" and ?c = "msg_command m"
  let ?t = "if ?ps = [] then None else Some (last ?ps)"
  from assms have c: "is_word ?c" "no_colon ?c" "toUpperCase ?c = ?c"
    and ws: "list_all (\<lambda>v. is_word v \<and> no_colon v) (butlast ?ps)"
    and t: "\<And>u. ?t = Some u \<Longrightarrow> CR \<notin> set u"
    by (auto simp: printable_def split: if_splits)
  have words: "list_all is_word (butlast ?ps)" using ws by (simp add: list_all_iff)
  have hd_c: "hd ?c \<noteq> CHR '':''" using c by (auto simp: is_word_def no_colon_def)
  have tail: "(case ?t of None \<Rightarrow> [] | Some u \<Rightarrow> '' :'' @ u) =
      (if ?ps = [] then [] else '' :'' @ last ?ps)" by simp
  show ?thesis
  proof (cases "msg_prefix m = []")
    case True
    have "render m = ?c @ spaced (butlast ?ps) @ (case ?t of None \<Rightarrow> [] | Some u \<Rightarrow> '' :'' @ u)"
      using True by (simp add: render_def)
    moreover note pw = parse_words [of ?c "butlast ?ps" ?t, OF c(1) ws t]
    ultimately have "parse (render m) = \<lparr>msg_prefix = [], msg_command = toUpperCase ?c,
        msg_params = read_words (spaced (butlast ?ps)) @ (case ?t of None \<Rightarrow> [] | Some u \<Rightarrow> [u])\<rparr>"
      using parse_line(1) [OF pw(1-3) pw(4) hd_c] by simp
    then show ?thesis
      using True c(3) read_words_spaced [OF words] params_trailing [of ?ps] by simp
  next
    case False
    let ?w = "CHR '':'' # msg_prefix m"
    have w: "is_word ?w"
      using assms False by (auto simp: printable_def is_word_def is_space_def)
    have cws: "list_all (\<lambda>v. is_word v \<and> no_colon v) (?c # butlast ?ps)"
      using c ws by simp
    have "render m = ?w @ spaced (?c # butlast ?ps)
        @ (case ?t of None \<Rightarrow> [] | Some u \<Rightarrow> '' :'' @ u)"
      using False by (simp add: render_def spaced_Cons)
    moreover note pw = parse_words [of ?w "?c # butlast ?ps" ?t, OF w cws t]
    moreover have "read_word (spaced (?c # butlast ?ps)) = Some (?c, spaced (butlast ?ps))"
      by (simp add: spaced_Cons read_word_spaced [OF c(1)])
    ultimately have "parse (render m) = \<lparr>msg_prefix = msg_prefix m, msg_command = toUpperCase ?c,
        msg_params = read_words (spaced (butlast ?ps)) @ (case ?t of None \<Rightarrow> [] | Some u \<Rightarrow> [u])\<rparr>"
      using parse_line(2) [OF pw(1-3)] by simp
    then show ?thesis
      using c(3) read_words_spaced [OF words] params_trailing [of ?ps] by simp
  qed
qed

lemma parse_render_witness:
  "parse '':alice!a@host PRIVMSG #c :see: you there'' =
     \<lparr>msg_prefix = ''alice!a@host'', msg_command = ''PRIVMSG'', msg_params = [''#c'', ''see: you there'']\<rparr>"
proof -
  let ?m = "\<lparr>msg_prefix = ''alice!a@host'', msg_command = ''PRIVMSG'', msg_params = [''#c'', ''see: you there'']\<rparr>"
  have "printable ?m" by code_simp
  moreover have "render ?m = '':alice!a@host PRIVMSG #c :see: you there''" by code_simp
  ultimately show ?thesis using parse_render [of ?m] by simp
qed

end
