(* ===== verification/Line_Framing.thy ===== *)
theory Line_Framing
  imports Parser
begin

text \<open>
  Both ends of a connection cut lines out of a receive buffer: the server in
  \<open>Client::extractLine\<close>, the bot in \<open>Bot::extractLine\<close>. This theory is the
  contract they share. \<open>next_line\<close> returns the next line, if there is one, and the
  reader that is left; \<open>buffer\<close> reads the bytes not yet consumed. The lemmas about whole
  runs of the extraction loop are proved here once; \<open>Client\<close> and \<open>Bot\<close> interpret
  the locale on their own code.
\<close>

text \<open>IRC messages have at most 512 bytes, line end included.\<close>

definition MAX_IRC_MESSAGE_SIZE :: nat where
  "MAX_IRC_MESSAGE_SIZE = 512"

text \<open>A line that either end accepts, and its form on the wire.\<close>

definition wire_line :: "string \<Rightarrow> bool" where
  "wire_line l \<longleftrightarrow> clean l \<and> length l + 2 \<le> MAX_IRC_MESSAGE_SIZE"

definition to_wire :: "string \<Rightarrow> string" where
  "to_wire l = l @ crlf"

text \<open>\<open>extracts f b ls b'\<close>: calling \<open>f\<close> again and again yields \<open>ls\<close> and leads from \<open>b\<close> to \<open>b'\<close>.\<close>

inductive extracts :: "('b \<Rightarrow> string option \<times> 'b) \<Rightarrow> 'b \<Rightarrow> string list \<Rightarrow> 'b \<Rightarrow> bool"
  for f :: "'b \<Rightarrow> string option \<times> 'b" where
  extracts_done: "extracts f b [] b"
| extracts_line: "f b = (Some l, b') \<Longrightarrow> extracts f b' ls b'' \<Longrightarrow> extracts f b (l # ls) b''"

inductive_cases extracts_ConsE: "extracts f b (l # ls) b'"
inductive_simps extracts_Nil_iff [simp]: "extracts f b [] b'"
inductive_simps extracts_Cons_iff [simp]: "extracts f b (l # ls) b'"

lemma extracts_append:
  "extracts f b ls b' \<Longrightarrow> extracts f b' ks b'' \<Longrightarrow> extracts f b (ls @ ks) b''"
  by (induction rule: extracts.induct) (auto intro: extracts_line)

locale line_source =
  fixes next_line :: "'b \<Rightarrow> string option \<times> 'b"
    and buffer :: "'b \<Rightarrow> string"
  assumes extract_line:
      "buffer b = l @ LF # r \<Longrightarrow> LF \<notin> set l \<Longrightarrow> length l < MAX_IRC_MESSAGE_SIZE \<Longrightarrow>
       clean (strip_cr l) \<Longrightarrow> \<exists>b'. next_line b = (Some (strip_cr l), b') \<and> buffer b' = r"
    and extract_none: "LF \<notin> set (buffer b) \<Longrightarrow> fst (next_line b) = None"
    and extract_Some: "next_line b = (Some l, b') \<Longrightarrow>
       clean l \<and> length l < MAX_IRC_MESSAGE_SIZE \<and> (\<exists>w. buffer b = w @ LF # buffer b')"
begin

lemma extract_shorter: "next_line b = (Some l, b') \<Longrightarrow> length (buffer b') < length (buffer b)"
  using extract_Some by fastforce

text \<open>The extraction loop cannot run longer than the buffer.\<close>

lemma extracts_bounded: "extracts next_line b ls b' \<Longrightarrow> length ls + length (buffer b') \<le> length (buffer b)"
  by (induction rule: extracts.induct) (auto dest: extract_shorter)

lemma extracts_clean: "extracts next_line b ls b' \<Longrightarrow> l \<in> set ls \<Longrightarrow> clean l \<and> length l < MAX_IRC_MESSAGE_SIZE"
  by (induction rule: extracts.induct) (auto dest: extract_Some)

lemma extract_wire:
  assumes "wire_line l" and "buffer b = to_wire l @ r"
  shows "\<exists>b'. next_line b = (Some l, b') \<and> buffer b' = r"
proof -
  have "buffer b = (l @ [CR]) @ LF # r" using assms(2) by (simp add: to_wire_def)
  moreover have "LF \<notin> set (l @ [CR])" "length (l @ [CR]) < MAX_IRC_MESSAGE_SIZE"
    and "clean (strip_cr (l @ [CR]))"
    using assms(1) by (auto simp: wire_line_def strip_cr_snoc clean_iff)
  ultimately show ?thesis
    using extract_line [of b "l @ [CR]" r] unfolding strip_cr_snoc by blast
qed

text \<open>What was written as lines is read as the same lines, whatever follows them.\<close>

lemma extracts_wire:
  assumes "list_all wire_line ls" and "buffer b = concat (map to_wire ls) @ r"
  shows "\<exists>b'. extracts next_line b ls b' \<and> buffer b' = r"
  using assms
proof (induction ls arbitrary: b)
  case (Cons l ls)
  then obtain b1 where b1: "next_line b = (Some l, b1)" "buffer b1 = concat (map to_wire ls) @ r"
    using extract_wire [of l b "concat (map to_wire ls) @ r"] by auto
  with Cons.IH [of b1] Cons.prems(1) show ?case by (auto intro: extracts_line)
qed auto

text \<open>A complete run of the loop, one that stops for want of a line, reads exactly these lines.\<close>

lemma extracts_wire_unique:
  assumes ls: "list_all wire_line ls" and b: "buffer b = concat (map to_wire ls) @ r"
    and r: "LF \<notin> set r"
    and run: "extracts next_line b ks b'" and stop: "fst (next_line b') = None"
  shows "ks = ls \<and> buffer b' = r"
  using ls b run stop
proof (induction ls arbitrary: b ks)
  case Nil
  then have "fst (next_line b) = None" using r by (auto intro: extract_none)
  with Nil.prems show ?case by (cases ks) (auto elim: extracts_ConsE)
next
  case (Cons l ls)
  then obtain b1 where b1: "next_line b = (Some l, b1)" "buffer b1 = concat (map to_wire ls) @ r"
    using extract_wire [of l b "concat (map to_wire ls) @ r"] by auto
  show ?case
  proof (cases ks)
    case Nil
    with Cons.prems(3,4) b1 show ?thesis by auto
  next
    case (Cons k ks')
    with Cons.prems(3) b1 have "k = l" "extracts next_line b1 ks' b'" by auto
    with Cons.IH [OF _ b1(2), of ks'] Cons Cons.prems(1,4) show ?thesis by simp
  qed
qed

end

end
