(* ===== verification/Client.thy ===== *)
theory Client
  imports Line_Framing "HOL-Library.Word"
begin

text \<open>
  \<open>include/Client.hpp\<close> and \<open>src/client/Client.cpp\<close>: the state kept for one connection.
  The receive buffer turns bytes into lines, the send buffer holds framed messages until
  the socket takes them, the registration flags record PASS, NICK and USER, and the life
  cycle goes from open to closing (flush, then leave) or dead (leave now).
  The failed-password counter is the C++ \<open>unsigned int\<close>, a 32-bit word. The last field, \<open>cl_wire\<close>, is no
  member of the class but the kernel's: all bytes that \<open>send\<close> has taken for this connection. No code reads it.
\<close>

record client =
  cl_fd :: int
  cl_ip :: string
  cl_recvBuffer :: string
  cl_sendBuffer :: string
  cl_nickname :: string
  cl_username :: string
  cl_passOk :: bool
  cl_nickSet :: bool
  cl_userSet :: bool
  cl_failedPassAttempts :: "32 word"
  cl_dead :: bool
  cl_closing :: bool
  cl_deadReason :: string
  cl_wire :: string

text \<open>The accessors: outside of the class the code reads the members only through them.\<close>

abbreviation getFd :: "client \<Rightarrow> int" where "getFd \<equiv> cl_fd"
abbreviation getIp :: "client \<Rightarrow> string" where "getIp \<equiv> cl_ip"
abbreviation hasPassOk :: "client \<Rightarrow> bool" where "hasPassOk \<equiv> cl_passOk"
abbreviation getNickname :: "client \<Rightarrow> string" where "getNickname \<equiv> cl_nickname"
abbreviation hasNickSet :: "client \<Rightarrow> bool" where "hasNickSet \<equiv> cl_nickSet"
abbreviation getUsername :: "client \<Rightarrow> string" where "getUsername \<equiv> cl_username"
abbreviation hasUserSet :: "client \<Rightarrow> bool" where "hasUserSet \<equiv> cl_userSet"
abbreviation getFailedPassAttempts :: "client \<Rightarrow> 32 word" where "getFailedPassAttempts \<equiv> cl_failedPassAttempts"
abbreviation getSendBuffer :: "client \<Rightarrow> string" where "getSendBuffer \<equiv> cl_sendBuffer"
abbreviation isDead :: "client \<Rightarrow> bool" where "isDead \<equiv> cl_dead"
abbreviation isClosing :: "client \<Rightarrow> bool" where "isClosing \<equiv> cl_closing"
abbreviation getDeadReason :: "client \<Rightarrow> string" where "getDeadReason \<equiv> cl_deadReason"

definition MAX_SEND_BUFFER :: nat where
  "MAX_SEND_BUFFER = 65536"

definition MAX_RECV_BUFFER :: nat where
  "MAX_RECV_BUFFER = 8192"

text \<open>The constructor; \<open>Inl\<close> carries the text of the \<open>std::invalid_argument\<close>.\<close>

definition new_Client :: "int \<Rightarrow> string \<Rightarrow> string + client" where
  "new_Client fd ip =
     (if fd < 0 then Inl ''Client requires a valid socket descriptor''
      else if ip = [] then Inl ''Client requires a non-empty IP address''
      else Inr \<lparr>cl_fd = fd, cl_ip = ip, cl_recvBuffer = [], cl_sendBuffer = [],
                cl_nickname = [], cl_username = [], cl_passOk = False, cl_nickSet = False,
                cl_userSet = False, cl_failedPassAttempts = 0, cl_dead = False,
                cl_closing = False, cl_deadReason = [], cl_wire = []\<rparr>)"

text \<open>The object that the constructor makes of valid arguments.\<close>

definition fresh_client :: "int \<Rightarrow> string \<Rightarrow> client" where
  "fresh_client fd ip =
     \<lparr>cl_fd = fd, cl_ip = ip, cl_recvBuffer = [], cl_sendBuffer = [],
      cl_nickname = [], cl_username = [], cl_passOk = False, cl_nickSet = False,
      cl_userSet = False, cl_failedPassAttempts = 0, cl_dead = False,
      cl_closing = False, cl_deadReason = [], cl_wire = []\<rparr>"

definition isRegistered :: "client \<Rightarrow> bool" where
  "isRegistered c \<longleftrightarrow> cl_passOk c \<and> cl_nickSet c \<and> cl_userSet c"

definition hasPendingOutput :: "client \<Rightarrow> bool" where
  "hasPendingOutput c \<longleftrightarrow> cl_sendBuffer c \<noteq> []"

definition recordFailedPassAttempt :: "client \<Rightarrow> client" where
  "recordFailedPassAttempt c =
     (if cl_failedPassAttempts c < - 1
      then c\<lparr>cl_failedPassAttempts := cl_failedPassAttempts c + 1\<rparr> else c)"

text \<open>The setters, through which PASS, NICK and USER record what they accepted.\<close>

definition setPassOk :: "bool \<Rightarrow> client \<Rightarrow> client" where
  "setPassOk v c = c\<lparr>cl_passOk := v\<rparr>"

definition setNickname :: "string \<Rightarrow> client \<Rightarrow> client" where
  "setNickname nickname c = c\<lparr>cl_nickname := nickname\<rparr>"

definition setNickSet :: "bool \<Rightarrow> client \<Rightarrow> client" where
  "setNickSet v c = c\<lparr>cl_nickSet := v\<rparr>"

definition setUsername :: "string \<Rightarrow> client \<Rightarrow> client" where
  "setUsername username c = c\<lparr>cl_username := username\<rparr>"

definition setUserSet :: "bool \<Rightarrow> client \<Rightarrow> client" where
  "setUserSet v c = c\<lparr>cl_userSet := v\<rparr>"

lemmas client_setters [simp] =
  setPassOk_def setNickname_def setNickSet_def setUsername_def setUserSet_def

definition markDead :: "string \<Rightarrow> client \<Rightarrow> client" where
  "markDead reason c =
     (if cl_dead c then c
      else c\<lparr>cl_dead := True,
             cl_deadReason := (if cl_deadReason c = [] then reason else cl_deadReason c)\<rparr>)"

definition markClosing :: "string \<Rightarrow> client \<Rightarrow> client" where
  "markClosing reason c =
     (if cl_dead c \<or> cl_closing c then c
      else c\<lparr>cl_closing := True, cl_deadReason := reason\<rparr>)"

section \<open>Output\<close>

definition isValidOutboundMessage :: "string \<Rightarrow> bool" where
  "isValidOutboundMessage m \<longleftrightarrow>
     \<not> (m = [] \<or> length m > MAX_IRC_MESSAGE_SIZE) \<and>
     \<not> (length m < 2 \<or> m ! (length m - 2) \<noteq> CR \<or> m ! (length m - 1) \<noteq> LF) \<and>
     list_all (\<lambda>ch. ch \<noteq> NUL \<and> ch \<noteq> CR \<and> ch \<noteq> LF) (take (length m - 2) m)"

definition sendMessage :: "string \<Rightarrow> client \<Rightarrow> client" where
  "sendMessage m c =
     (if cl_dead c \<or> cl_closing c then c
      else if \<not> isValidOutboundMessage m then c
      else if length (cl_sendBuffer c) > MAX_SEND_BUFFER \<or>
              length m > MAX_SEND_BUFFER - length (cl_sendBuffer c)
      then markDead ''send buffer overflow (slow or stuck client)'' c
      else c\<lparr>cl_sendBuffer := cl_sendBuffer c @ m\<rparr>)"

definition consumeSendBuffer :: "nat \<Rightarrow> client \<Rightarrow> client" where
  "consumeSendBuffer bytesSent c =
     (if bytesSent > length (cl_sendBuffer c)
      then markDead ''invalid send-buffer accounting'' c
      else if bytesSent = length (cl_sendBuffer c) then c\<lparr>cl_sendBuffer := []\<rparr>
      else c\<lparr>cl_sendBuffer := drop bytesSent (cl_sendBuffer c)\<rparr>)"

text \<open>
  What the call of \<open>send\<close> itself does, before its result is used: the socket takes the bytes at the front of the buffer.
  (It never takes more than it is given; for an answer that says so nothing is on the wire.)
\<close>

definition on_wire :: "nat \<Rightarrow> client \<Rightarrow> client" where
  "on_wire bytesSent c =
     (if bytesSent \<le> length (cl_sendBuffer c)
      then c\<lparr>cl_wire := cl_wire c @ take bytesSent (cl_sendBuffer c)\<rparr> else c)"

section \<open>Input\<close>

text \<open>
  The boolean is the result of the C++ function; \<open>data\<close> is never \<open>NULL\<close> here, because
  the only caller passes its own buffer.
\<close>

definition appendToRecvBuffer :: "string \<Rightarrow> client \<Rightarrow> bool \<times> client" where
  "appendToRecvBuffer data c =
     (if length (cl_recvBuffer c) > MAX_RECV_BUFFER \<or>
         length data > MAX_RECV_BUFFER - length (cl_recvBuffer c)
      then (False, c)
      else let c' = c\<lparr>cl_recvBuffer := cl_recvBuffer c @ data\<rparr>
           in if str_find [LF] (cl_recvBuffer c') = None \<and>
                 length (cl_recvBuffer c') \<ge> MAX_IRC_MESSAGE_SIZE
              then (False, c') else (True, c'))"

text \<open>\<open>Some line\<close> for a result of \<open>true\<close> with that line, \<open>None\<close> for \<open>false\<close>.\<close>

definition extractLine :: "client \<Rightarrow> string option \<times> client" where
  "extractLine c =
     (case str_find [LF] (cl_recvBuffer c) of
        None \<Rightarrow> (None, c)
      | Some newlinePos \<Rightarrow>
          let wireSize = newlinePos + 1 in
          if wireSize > MAX_IRC_MESSAGE_SIZE
          then (None, markDead ''IRC message exceeds 512-byte limit''
                        (c\<lparr>cl_recvBuffer := drop wireSize (cl_recvBuffer c)\<rparr>))
          else let line = strip_cr (take newlinePos (cl_recvBuffer c));
                   c' = c\<lparr>cl_recvBuffer := drop wireSize (cl_recvBuffer c)\<rparr>
               in if list_ex (\<lambda>ch. ch = NUL \<or> ch = CR) line
                  then (None, markDead ''forbidden control byte in IRC message'' c')
                  else (Some line, c'))"

section \<open>Facts about the operations\<close>

subsection \<open>What a message may change\<close>

lemma sendMessage_fields [simp]:
  "cl_fd (sendMessage m c) = cl_fd c" "cl_ip (sendMessage m c) = cl_ip c"
  "cl_recvBuffer (sendMessage m c) = cl_recvBuffer c"
  "cl_nickname (sendMessage m c) = cl_nickname c" "cl_username (sendMessage m c) = cl_username c"
  "cl_passOk (sendMessage m c) = cl_passOk c" "cl_nickSet (sendMessage m c) = cl_nickSet c"
  "cl_userSet (sendMessage m c) = cl_userSet c"
  "cl_failedPassAttempts (sendMessage m c) = cl_failedPassAttempts c"
  "cl_closing (sendMessage m c) = cl_closing c" "cl_wire (sendMessage m c) = cl_wire c"
  by (auto simp: sendMessage_def markDead_def)

lemma isRegistered_sendMessage [simp]: "isRegistered (sendMessage m c) = isRegistered c"
  by (simp add: isRegistered_def)

lemma markDead_fields [simp]:
  "cl_fd (markDead r c) = cl_fd c" "cl_ip (markDead r c) = cl_ip c"
  "cl_recvBuffer (markDead r c) = cl_recvBuffer c" "cl_sendBuffer (markDead r c) = cl_sendBuffer c"
  "cl_nickname (markDead r c) = cl_nickname c" "cl_username (markDead r c) = cl_username c"
  "cl_passOk (markDead r c) = cl_passOk c" "cl_nickSet (markDead r c) = cl_nickSet c"
  "cl_userSet (markDead r c) = cl_userSet c"
  "cl_failedPassAttempts (markDead r c) = cl_failedPassAttempts c"
  "cl_closing (markDead r c) = cl_closing c" "cl_dead (markDead r c)" "cl_wire (markDead r c) = cl_wire c"
  by (auto simp: markDead_def)

lemma markClosing_fields [simp]:
  "cl_fd (markClosing r c) = cl_fd c" "cl_ip (markClosing r c) = cl_ip c"
  "cl_recvBuffer (markClosing r c) = cl_recvBuffer c"
  "cl_sendBuffer (markClosing r c) = cl_sendBuffer c"
  "cl_nickname (markClosing r c) = cl_nickname c" "cl_username (markClosing r c) = cl_username c"
  "cl_passOk (markClosing r c) = cl_passOk c" "cl_nickSet (markClosing r c) = cl_nickSet c"
  "cl_userSet (markClosing r c) = cl_userSet c"
  "cl_failedPassAttempts (markClosing r c) = cl_failedPassAttempts c"
  "cl_dead (markClosing r c) = cl_dead c"
  "cl_closing (markClosing r c) \<longleftrightarrow> cl_closing c \<or> \<not> cl_dead c" "cl_wire (markClosing r c) = cl_wire c"
  by (auto simp: markClosing_def)

lemma consumeSendBuffer_fields [simp]:
  "cl_fd (consumeSendBuffer n c) = cl_fd c" "cl_ip (consumeSendBuffer n c) = cl_ip c"
  "cl_recvBuffer (consumeSendBuffer n c) = cl_recvBuffer c"
  "cl_nickname (consumeSendBuffer n c) = cl_nickname c"
  "cl_username (consumeSendBuffer n c) = cl_username c"
  "cl_passOk (consumeSendBuffer n c) = cl_passOk c"
  "cl_nickSet (consumeSendBuffer n c) = cl_nickSet c"
  "cl_userSet (consumeSendBuffer n c) = cl_userSet c"
  "cl_failedPassAttempts (consumeSendBuffer n c) = cl_failedPassAttempts c"
  "cl_closing (consumeSendBuffer n c) = cl_closing c" "cl_wire (consumeSendBuffer n c) = cl_wire c"
  by (auto simp: consumeSendBuffer_def)

lemma on_wire_fields [simp]:
  "cl_fd (on_wire n c) = cl_fd c" "cl_ip (on_wire n c) = cl_ip c" "cl_recvBuffer (on_wire n c) = cl_recvBuffer c"
  "cl_sendBuffer (on_wire n c) = cl_sendBuffer c"
  "cl_nickname (on_wire n c) = cl_nickname c" "cl_username (on_wire n c) = cl_username c"
  "cl_passOk (on_wire n c) = cl_passOk c" "cl_nickSet (on_wire n c) = cl_nickSet c" "cl_userSet (on_wire n c) = cl_userSet c"
  "cl_failedPassAttempts (on_wire n c) = cl_failedPassAttempts c"
  "cl_closing (on_wire n c) = cl_closing c" "cl_dead (on_wire n c) = cl_dead c"
  by (auto simp: on_wire_def)

lemma extractLine_fields:
  assumes "extractLine c = (r, c')"
  shows "cl_fd c' = cl_fd c" "cl_ip c' = cl_ip c" "cl_sendBuffer c' = cl_sendBuffer c"
    "cl_nickname c' = cl_nickname c" "cl_username c' = cl_username c"
    "cl_passOk c' = cl_passOk c" "cl_nickSet c' = cl_nickSet c" "cl_userSet c' = cl_userSet c"
    "cl_failedPassAttempts c' = cl_failedPassAttempts c" "cl_closing c' = cl_closing c"
    "cl_dead c \<Longrightarrow> cl_dead c'" "cl_wire c' = cl_wire c"
  using assms by (auto simp: extractLine_def Let_def split: option.splits if_splits)

lemma appendToRecvBuffer_fields:
  assumes "appendToRecvBuffer d c = (ok, c')"
  shows "cl_fd c' = cl_fd c" "cl_ip c' = cl_ip c" "cl_sendBuffer c' = cl_sendBuffer c"
    "cl_nickname c' = cl_nickname c" "cl_username c' = cl_username c"
    "cl_passOk c' = cl_passOk c" "cl_nickSet c' = cl_nickSet c" "cl_userSet c' = cl_userSet c"
    "cl_failedPassAttempts c' = cl_failedPassAttempts c" "cl_closing c' = cl_closing c"
    "cl_dead c' = cl_dead c" "cl_wire c' = cl_wire c"
  using assms by (auto simp: appendToRecvBuffer_def Let_def split: if_splits)

lemma sendMessage_inactive: "cl_dead c \<or> cl_closing c \<Longrightarrow> sendMessage m c = c"
  by (simp add: sendMessage_def)

lemma sendMessage_dead_mono: "cl_dead c \<Longrightarrow> cl_dead (sendMessage m c)"
  by (simp add: sendMessage_def)

lemma sendMessage_accepts:
  assumes "\<not> cl_dead c" and "\<not> cl_closing c" and "isValidOutboundMessage m"
    and "length (cl_sendBuffer c) + length m \<le> MAX_SEND_BUFFER"
  shows "sendMessage m c = c\<lparr>cl_sendBuffer := cl_sendBuffer c @ m\<rparr>"
  using assms by (auto simp: sendMessage_def)

lemma sendMessage_invalid: "\<not> isValidOutboundMessage m \<Longrightarrow> sendMessage m c = c"
  by (simp add: sendMessage_def)

subsection \<open>The form of an outbound message\<close>

lemma valid_outbound_line: "isValidOutboundMessage (body @ crlf) \<longleftrightarrow> wire_line body"
  by (auto simp: isValidOutboundMessage_def wire_line_def clean_def nth_append
      numeral_2_eq_2 MAX_IRC_MESSAGE_SIZE_def)

lemma valid_outbound_iff: "isValidOutboundMessage m \<longleftrightarrow> (\<exists>body. m = to_wire body \<and> wire_line body)"
proof
  assume v: "isValidOutboundMessage m"
  then have len: "2 \<le> length m" by (auto simp: isValidOutboundMessage_def)
  let ?b = "take (length m - 2) m"
  obtain k where k: "length m = Suc (Suc k)"
    using len by (metis add_2_eq_Suc le_Suc_ex)
  have "drop (length m - 2) m = [m ! (length m - 2), m ! (length m - 1)]"
    using k Cons_nth_drop_Suc [of k m] Cons_nth_drop_Suc [of "Suc k" m] by simp
  then have "m = ?b @ crlf"
    using v append_take_drop_id [of "length m - 2" m] by (auto simp: isValidOutboundMessage_def)
  with v show "\<exists>body. m = to_wire body \<and> wire_line body"
    using valid_outbound_line [of ?b] by (metis to_wire_def)
qed (auto simp: to_wire_def valid_outbound_line)

text \<open>
  The send buffer is always the unsent end of a sequence of whole messages: the bytes
  already taken by the socket complete it to one.
\<close>

definition framed :: "string \<Rightarrow> bool" where
  "framed b \<longleftrightarrow> (\<exists>ls. list_all wire_line ls \<and> suffix b (concat (map to_wire ls)))"

lemma framed_Nil [simp]: "framed []"
  unfolding framed_def by (rule exI [of _ "[]"]) simp

lemma framed_drop: "framed b \<Longrightarrow> framed (drop n b)"
  unfolding framed_def by (meson suffix_drop suffix_order.trans)

lemma framed_append: "framed b \<Longrightarrow> isValidOutboundMessage m \<Longrightarrow> framed (b @ m)"
proof -
  assume "framed b" "isValidOutboundMessage m"
  then obtain ls l where "list_all wire_line ls" "suffix b (concat (map to_wire ls))"
    and "m = to_wire l" "wire_line l"
    by (auto simp: framed_def valid_outbound_iff)
  then show ?thesis
    unfolding framed_def by (intro exI [of _ "ls @ [l]"]) (auto simp: suffix_def)
qed

subsection \<open>What holds of every client object\<close>

definition client_wf :: "client \<Rightarrow> bool" where
  "client_wf c \<longleftrightarrow>
     0 \<le> cl_fd c \<and> cl_ip c \<noteq> [] \<and>
     length (cl_recvBuffer c) \<le> MAX_RECV_BUFFER \<and>
     length (cl_sendBuffer c) \<le> MAX_SEND_BUFFER \<and> framed (cl_sendBuffer c)"

lemma new_Client_wf: "new_Client fd ip = Inr c \<Longrightarrow> client_wf c"
  by (auto simp: new_Client_def client_wf_def MAX_SEND_BUFFER_def MAX_RECV_BUFFER_def split: if_splits)

lemma client_wf_sendMessage: "client_wf c \<Longrightarrow> client_wf (sendMessage m c)"
  by (auto simp: client_wf_def sendMessage_def framed_append)

lemma client_wf_markDead [simp]: "client_wf (markDead r c) = client_wf c"
  and client_wf_markClosing [simp]: "client_wf (markClosing r c) = client_wf c"
  by (simp_all add: client_wf_def)

lemma client_wf_consume: "client_wf c \<Longrightarrow> client_wf (consumeSendBuffer n c)"
  by (auto simp: client_wf_def consumeSendBuffer_def framed_drop)

lemma client_wf_on_wire [simp]: "client_wf (on_wire n c) = client_wf c"
  by (simp add: client_wf_def)

lemma client_wf_append: "client_wf c \<Longrightarrow> appendToRecvBuffer d c = (ok, c') \<Longrightarrow> client_wf c'"
  by (auto simp: client_wf_def appendToRecvBuffer_def Let_def split: if_splits)

lemma client_wf_extractLine: "client_wf c \<Longrightarrow> extractLine c = (r, c') \<Longrightarrow> client_wf c'"
  by (auto simp: client_wf_def extractLine_def Let_def split: option.splits if_splits)

section \<open>Input: the client is a line source\<close>

lemma list_ex_control: "\<not> list_ex (\<lambda>ch. ch = NUL \<or> ch = CR) l \<longleftrightarrow> NUL \<notin> set l \<and> CR \<notin> set l"
  by (auto simp: list_ex_iff)

lemma extractLine_at_newline:
  assumes buf: "cl_recvBuffer c = l @ LF # r" and l: "LF \<notin> set l"
  shows "extractLine c =
     (if length l \<ge> MAX_IRC_MESSAGE_SIZE
      then (None, markDead ''IRC message exceeds 512-byte limit'' (c\<lparr>cl_recvBuffer := r\<rparr>))
      else if clean (strip_cr l) then (Some (strip_cr l), c\<lparr>cl_recvBuffer := r\<rparr>)
      else (None, markDead ''forbidden control byte in IRC message'' (c\<lparr>cl_recvBuffer := r\<rparr>)))"
proof -
  have "clean (strip_cr l) \<longleftrightarrow> \<not> list_ex (\<lambda>ch. ch = NUL \<or> ch = CR) (strip_cr l)"
    using l set_strip_cr [of l] by (auto simp: list_ex_control clean_iff)
  then show ?thesis
    using str_find_char_append [OF l, of r] buf by (simp add: extractLine_def Let_def)
qed

lemma extractLine_no_newline: "LF \<notin> set (cl_recvBuffer c) \<Longrightarrow> extractLine c = (None, c)"
  by (simp add: extractLine_def)

lemma extractLine_cases:
  obtains "LF \<notin> set (cl_recvBuffer c)" | l r where "cl_recvBuffer c = l @ LF # r" "LF \<notin> set l"
  by (meson split_list_first)

interpretation client_lines: line_source extractLine cl_recvBuffer
proof
  fix b :: client and l b'
  assume e: "extractLine b = (Some l, b')"
  then show "clean l \<and> length l < MAX_IRC_MESSAGE_SIZE \<and> (\<exists>w. cl_recvBuffer b = w @ LF # cl_recvBuffer b')"
  proof (cases rule: extractLine_cases [of b])
    case (2 k r)
    have "length (strip_cr k) \<le> length k" by (simp add: strip_cr_def)
    with e show ?thesis
      by (auto simp: extractLine_at_newline [OF 2] 2 split: if_splits)
  qed (simp add: extractLine_no_newline)
qed (auto simp: extractLine_at_newline extractLine_no_newline)

text \<open>
  \<open>while (extractLine(line))\<close> with a body that only collects the lines: the loop of
  \<open>Server::handleClientRead\<close> seen from the client object.
\<close>

function drain :: "client \<Rightarrow> string list \<times> client" where
  "drain c =
     (case extractLine c of
        (None, c') \<Rightarrow> ([], c')
      | (Some l, c') \<Rightarrow> (case drain c' of (ls, c'') \<Rightarrow> (l # ls, c'')))"
  by pat_completeness auto
termination
  by (relation "measure (\<lambda>c. length (cl_recvBuffer c))") (auto dest: client_lines.extract_shorter [OF sym])

declare drain.simps [simp del]

lemma drain_runs:
  "\<exists>c1. extracts extractLine c (fst (drain c)) c1 \<and> fst (extractLine c1) = None \<and>
        snd (drain c) = snd (extractLine c1)"
proof (induction c rule: drain.induct)
  case (1 c)
  show ?case
  proof (cases "extractLine c")
    case (Pair r c')
    show ?thesis
    proof (cases r)
      case None
      then have "drain c = ([], c')" using Pair by (subst drain.simps) simp
      then show ?thesis using Pair None by (intro exI [of _ c]) simp
    next
      case (Some l)
      then have d: "drain c = (l # fst (drain c'), snd (drain c'))"
        using Pair by (subst drain.simps) (simp add: case_prod_beta)
      obtain c1 where "extracts extractLine c' (fst (drain c')) c1" "fst (extractLine c1) = None"
        "snd (drain c') = snd (extractLine c1)"
        using "1.IH" Pair Some by metis
      then show ?thesis using d Pair Some by (intro exI [of _ c1]) simp
    qed
  qed
qed

text \<open>The loop reads what was written, up to the unfinished line at the end.\<close>

lemma drain_wire:
  assumes "list_all wire_line ls" and "cl_recvBuffer c = concat (map to_wire ls) @ r"
    and "LF \<notin> set r"
  shows "fst (drain c) = ls \<and> cl_recvBuffer (snd (drain c)) = r"
proof -
  obtain c1 where run: "extracts extractLine c (fst (drain c)) c1" "fst (extractLine c1) = None"
    "snd (drain c) = snd (extractLine c1)"
    using drain_runs by blast
  have u: "fst (drain c) = ls \<and> cl_recvBuffer c1 = r"
    by (rule client_lines.extracts_wire_unique [OF assms run(1,2)])
  then have "extractLine c1 = (None, c1)" using assms(3) by (simp add: extractLine_no_newline)
  with u run(3) show ?thesis by simp
qed

section \<open>How the bytes are cut into reads does not matter\<close>

text \<open>Every prefix of a stream of lines is some whole lines and a short unfinished one.\<close>

lemma wire_prefix_split:
  assumes "list_all wire_line ls" and "concat (map to_wire ls) = x @ y"
  shows "\<exists>ls1 ls2 r. ls = ls1 @ ls2 \<and> x = concat (map to_wire ls1) @ r \<and> LF \<notin> set r \<and>
           length r < MAX_IRC_MESSAGE_SIZE \<and> concat (map to_wire ls2) = r @ y"
  using assms
proof (induction ls arbitrary: x)
  case Nil
  then show ?case by (simp add: MAX_IRC_MESSAGE_SIZE_def)
next
  case (Cons l ls)
  have eq: "to_wire l @ concat (map to_wire ls) = x @ y" using Cons.prems(2) by simp
  show ?case
  proof (cases "length (to_wire l) \<le> length x")
    case True
    then obtain x' where x: "x = to_wire l @ x'" "concat (map to_wire ls) = x' @ y"
      using eq by (auto simp: append_eq_append_conv2)
    with Cons.IH [of x'] Cons.prems(1) obtain ls1 ls2 r where
      "ls = ls1 @ ls2" "x' = concat (map to_wire ls1) @ r" "LF \<notin> set r"
      "length r < MAX_IRC_MESSAGE_SIZE" "concat (map to_wire ls2) = r @ y"
      by auto
    with x(1) show ?thesis by (intro exI [of _ "l # ls1"] exI [of _ ls2] exI [of _ r]) simp
  next
    case False
    then obtain z where z: "to_wire l = x @ z" "z \<noteq> []"
      using eq by (auto simp: append_eq_append_conv2)
    then have "(l @ [CR]) @ [LF] = (x @ butlast z) @ [last z]" by (simp add: to_wire_def)
    then have "l @ [CR] = x @ butlast z" by (simp only: append1_eq_conv)
    then have "set x \<subseteq> set (l @ [CR])" by (metis Un_upper1 set_append)
    then have "LF \<notin> set x"
      using Cons.prems(1) by (auto simp: wire_line_def clean_iff)
    moreover have "length x < MAX_IRC_MESSAGE_SIZE"
      using False Cons.prems(1) by (simp add: to_wire_def wire_line_def)
    ultimately show ?thesis
      using Cons.prems(2) by (intro exI [of _ "[]"] exI [of _ "l # ls"] exI [of _ x]) simp
  qed
qed

text \<open>
  The lines that a sequence of reads delivers: each read is appended and drained, as in
  \<open>Server::handleClientRead\<close>; \<open>None\<close> when a read is refused.
\<close>

fun receive :: "string list \<Rightarrow> client \<Rightarrow> (string list \<times> client) option" where
  "receive [] c = Some ([], c)"
| "receive (chunk # chunks) c =
     (case appendToRecvBuffer chunk c of
        (False, c') \<Rightarrow> None
      | (True, c') \<Rightarrow>
          do { (ls, c'') \<leftarrow> receive chunks (snd (drain c')); Some (fst (drain c') @ ls, c'') })"

text \<open>
  C25. However the network cuts a stream of well-formed lines into reads of at most 4096 bytes,
  the reads deliver exactly these lines, in order, and leave nothing behind; no read is refused.
\<close>

theorem receive_wire:
  assumes "list_all wire_line ls"
    and "concat (map to_wire ls) = cl_recvBuffer c @ concat chunks"
    and "LF \<notin> set (cl_recvBuffer c)" and "length (cl_recvBuffer c) < MAX_IRC_MESSAGE_SIZE"
    and "list_all (\<lambda>d. length d \<le> 4096) chunks"
  shows "\<exists>c'. receive chunks c = Some (ls, c') \<and> cl_recvBuffer c' = []"
  using assms
proof (induction chunks arbitrary: c ls)
  case Nil
  have "ls = []"
  proof (cases ls)
    case (Cons l ls')
    then have "LF \<in> set (concat (map to_wire ls))" by (simp add: to_wire_def)
    with Nil.prems(2,3) show ?thesis by simp
  qed
  with Nil.prems(2) show ?case by simp
next
  case (Cons d chunks)
  have "concat (map to_wire ls) = (cl_recvBuffer c @ d) @ concat chunks" using Cons.prems(2) by simp
  from wire_prefix_split [OF Cons.prems(1) this] obtain ls1 ls2 r where split:
    "ls = ls1 @ ls2" "cl_recvBuffer c @ d = concat (map to_wire ls1) @ r" "LF \<notin> set r"
    "length r < MAX_IRC_MESSAGE_SIZE" "concat (map to_wire ls2) = r @ concat chunks"
    by blast
  have ls12: "list_all wire_line ls1" "list_all wire_line ls2"
    using Cons.prems(1) split(1) by simp_all
  let ?c1 = "c\<lparr>cl_recvBuffer := cl_recvBuffer c @ d\<rparr>"
  have fits: "length (cl_recvBuffer c) + length d \<le> MAX_RECV_BUFFER"
    using Cons.prems(4,5) by (simp add: MAX_RECV_BUFFER_def MAX_IRC_MESSAGE_SIZE_def)
  have "LF \<notin> set (cl_recvBuffer c @ d) \<Longrightarrow> length (cl_recvBuffer c @ d) < MAX_IRC_MESSAGE_SIZE"
    using split(2,4) by (cases ls1) (auto simp: to_wire_def)
  then have app: "appendToRecvBuffer d c = (True, ?c1)"
    using fits by (auto simp: appendToRecvBuffer_def Let_def)
  have dr: "fst (drain ?c1) = ls1" "cl_recvBuffer (snd (drain ?c1)) = r"
    using drain_wire [OF ls12(1), of ?c1 r] split(2,3) by simp_all
  with Cons.IH [of ls2 "snd (drain ?c1)"] ls12(2) split(3-5) Cons.prems(5)
  obtain c' where "receive chunks (snd (drain ?c1)) = Some (ls2, c')" "cl_recvBuffer c' = []"
    by auto
  with app dr(1) split(1) show ?case by simp
qed

lemma receive_wire_witness:
  "\<exists>c c'. new_Client 4 ''10.0.0.1'' = Inr c \<and>
     receive [''PI'', ''NG x'' @ [CR], [LF] @ ''QUIT'' @ crlf] c = Some ([''PING x'', ''QUIT''], c') \<and> cl_recvBuffer c' = []"
proof -
  obtain c where c: "new_Client 4 ''10.0.0.1'' = Inr c" by (simp add: new_Client_def)
  then have "cl_recvBuffer c = []" by (auto simp: new_Client_def)
  then have "\<exists>c'. receive [''PI'', ''NG x'' @ [CR], [LF] @ ''QUIT'' @ crlf] c = Some ([''PING x'', ''QUIT''], c') \<and>
      cl_recvBuffer c' = []"
    by (intro receive_wire) (simp_all add: to_wire_def wire_line_def MAX_IRC_MESSAGE_SIZE_def)
  with c show ?thesis by blast
qed

text \<open>
  C38. The loop over the lines of a receive buffer ends: it yields no more lines than there are
  bytes, and each line has fewer than 512 bytes and none of NUL, CR and LF, whatever was
  received.
\<close>

theorem lines_per_read:
  "length (fst (drain c)) \<le> length (cl_recvBuffer c) \<and>
   list_all (\<lambda>l. clean l \<and> length l < MAX_IRC_MESSAGE_SIZE) (fst (drain c))"
proof -
  obtain c1 where run: "extracts extractLine c (fst (drain c)) c1"
    using drain_runs by blast
  show ?thesis
    using client_lines.extracts_bounded [OF run] client_lines.extracts_clean [OF run] by (auto simp: list_all_iff)
qed

end
