(* ===== verification/Handle_Vector.thy ===== *)
theory Handle_Vector
  imports Irc_Prelude
begin

text \<open>
  The \<open>std::vector<Client*>\<close>s of a channel (its members, operators and invited
  clients) are used as sets of pointers: \<open>std::find\<close> to test, \<open>push_back\<close> behind
  such a test to add, \<open>erase\<close> of the position found to remove. The locale
  \<open>handle_set\<close> is that contract, and its facts are what the channel proofs use.
\<close>

definition vec_mem :: "'p list \<Rightarrow> 'p \<Rightarrow> bool" where
  "vec_mem v p \<longleftrightarrow> p \<in> set v"

definition vec_add :: "'p \<Rightarrow> 'p list \<Rightarrow> 'p list" where
  "vec_add p v = (if vec_mem v p then v else v @ [p])"

fun vec_erase :: "'p \<Rightarrow> 'p list \<Rightarrow> 'p list" where
  "vec_erase p [] = []"
| "vec_erase p (q # v) = (if q = p then v else q # vec_erase p v)"

locale handle_set =
  fixes mem :: "'v \<Rightarrow> 'p \<Rightarrow> bool"
    and add :: "'p \<Rightarrow> 'v \<Rightarrow> 'v"
    and remove :: "'p \<Rightarrow> 'v \<Rightarrow> 'v"
    and elems :: "'v \<Rightarrow> 'p list"
  assumes mem_elems: "mem v p \<longleftrightarrow> p \<in> set (elems v)"
    and elems_add: "elems (add p v) = (if mem v p then elems v else elems v @ [p])"
    and distinct_remove: "distinct (elems v) \<Longrightarrow> distinct (elems (remove p v))"
    and set_remove: "distinct (elems v) \<Longrightarrow> set (elems (remove p v)) = set (elems v) - {p}"
begin

lemma set_add: "set (elems (add p v)) = insert p (set (elems v))"
  by (auto simp: elems_add mem_elems)

lemma distinct_add: "distinct (elems v) \<Longrightarrow> distinct (elems (add p v))"
  by (auto simp: elems_add mem_elems)

lemma mem_add: "mem (add p v) q \<longleftrightarrow> q = p \<or> mem v q"
  by (auto simp: mem_elems set_add)

lemma mem_remove: "distinct (elems v) \<Longrightarrow> mem (remove p v) q \<longleftrightarrow> q \<noteq> p \<and> mem v q"
  by (auto simp: mem_elems set_remove)

lemma add_idem: "elems (add p (add p v)) = elems (add p v)"
  by (simp add: elems_add mem_add)

lemma length_add: "length (elems (add p v)) = (if mem v p then 0 else 1) + length (elems v)"
  by (simp add: elems_add)

lemma remove_absent:
  assumes "distinct (elems v)" and "\<not> mem v p"
  shows "set (elems (remove p v)) = set (elems v)"
  using assms by (auto simp: set_remove mem_elems)

lemma length_remove:
  assumes d: "distinct (elems v)" and m: "mem v p"
  shows "Suc (length (elems (remove p v))) = length (elems v)"
proof -
  have "length (elems (remove p v)) = card (set (elems v) - {p})"
    using distinct_card [OF distinct_remove [OF d, of p]] set_remove [OF d] by simp
  moreover have "card (set (elems v)) = length (elems v)"
    using d by (rule distinct_card)
  ultimately show ?thesis
    using m card_Suc_Diff1 [of "set (elems v)" p] by (simp add: mem_elems)
qed

end

lemma vec_erase_eq_remove1: "vec_erase p v = remove1 p v"
  by (induction v) auto

interpretation hv: handle_set vec_mem vec_add vec_erase "\<lambda>v. v"
  by unfold_locales (auto simp: vec_mem_def vec_add_def vec_erase_eq_remove1 distinct_remove1)

lemmas vec_simps [simp] = hv.set_add hv.set_remove hv.mem_add hv.mem_remove

declare hv.distinct_add [simp, intro] hv.distinct_remove [simp, intro]

lemma set_vec_erase_subset: "set (vec_erase p v) \<subseteq> set v"
  by (induction v) auto

end
