(* ===== verification/Identifiers.thy ===== *)
theory Identifiers
  imports Cxx_Text
begin

text \<open>
  The syntax of the three kinds of names: \<open>isValidNickname\<close> of \<open>Nick.cpp\<close>,
  \<open>isValidUsername\<close> of \<open>User.cpp\<close>, \<open>isValidChannelName\<close> of \<open>Join.cpp\<close>, the
  target test \<open>isChannel\<close> of \<open>PrivmsgCommand.cpp\<close>, and the IRC casemapping
  \<open>toIrcLowerCase\<close> of \<open>Server.cpp\<close> under which nicknames are compared.
\<close>

section \<open>Nicknames\<close>

definition MAX_NICKNAME_LENGTH :: nat where
  "MAX_NICKNAME_LENGTH = 9"

definition validFirstCharacters :: string where
  "validFirstCharacters =
     ''ABCDEFGHIJKLMNOPQRSTUVWXYZabcdefghijklmnopqrstuvwxyz[]'' @ [CHR 0x5C] @ [CHR 0x60] @ ''_^{|}''"

definition validRemainingCharacters :: string where
  "validRemainingCharacters = validFirstCharacters @ ''0123456789-''"

definition isValidNickname :: "string \<Rightarrow> bool" where
  "isValidNickname nickname =
     (if nickname = [] \<or> length nickname > MAX_NICKNAME_LENGTH then False
      else if hd nickname \<notin> set validFirstCharacters then False
      else list_all (\<lambda>c. c \<in> set validRemainingCharacters) (tl nickname))"

definition irc_lower :: "char \<Rightarrow> char" where
  "irc_lower character =
     (if is_upper character then char_of (code character - 65 + 97)
      else if character = CHR ''['' then CHR ''{''
      else if character = CHR '']'' then CHR ''}''
      else if character = CHR 0x5C then CHR ''|''
      else if character = CHR 0x7E then CHR ''^''
      else character)"

definition toIrcLowerCase :: "string \<Rightarrow> string" where
  "toIrcLowerCase text = map irc_lower text"

lemma toIrcLowerCase_Nil_iff [simp]: "toIrcLowerCase s = [] \<longleftrightarrow> s = []"
  by (simp add: toIrcLowerCase_def)

lemma length_toIrcLowerCase [simp]: "length (toIrcLowerCase s) = length s"
  by (simp add: toIrcLowerCase_def)

lemma code_irc_lower_upper: "is_upper c \<Longrightarrow> code (irc_lower c) = code c + 32"
  by (simp add: irc_lower_def is_upper_def)

lemma irc_lower_idem [simp]: "irc_lower (irc_lower c) = irc_lower c"
proof (cases "is_upper c")
  case True
  then have "97 \<le> code (irc_lower c)" "code (irc_lower c) \<le> 122"
    by (simp_all add: code_irc_lower_upper) (simp_all add: is_upper_def)
  then show ?thesis
    unfolding irc_lower_def [of "irc_lower c"] by (auto simp: is_upper_def)
next
  case False
  then show ?thesis by (auto simp: irc_lower_def is_upper_def)
qed

lemma toIrcLowerCase_idem [simp]: "toIrcLowerCase (toIrcLowerCase s) = toIrcLowerCase s"
  by (simp add: toIrcLowerCase_def)

lemma valid_nickname_chars:
  assumes "isValidNickname n"
  shows "n \<noteq> []" and "length n \<le> 9" and "set n \<subseteq> set validRemainingCharacters"
proof -
  have sub: "set validFirstCharacters \<subseteq> set validRemainingCharacters"
    unfolding validRemainingCharacters_def set_append by blast
  show "n \<noteq> []" "length n \<le> 9"
    using assms by (auto simp: isValidNickname_def MAX_NICKNAME_LENGTH_def split: if_splits)
  with assms sub show "set n \<subseteq> set validRemainingCharacters"
    by (cases n) (auto simp: isValidNickname_def list_all_iff split: if_splits)
qed

text \<open>
  A nickname holds none of the bytes that delimit the fields of a message or of a prefix,
  so \<open>nick!user@host\<close> can be taken apart again.
\<close>

lemma nickname_alphabet:
  "c \<in> set validRemainingCharacters \<Longrightarrow>
   c \<notin> {NUL, CR, LF, BEL, CHR '' '', CHR '','', CHR '':'', CHR ''!'', CHR ''@'', CHR ''#'', CHR ''&'', CHR ''*''}
   \<and> \<not> is_space c"
  unfolding validRemainingCharacters_def validFirstCharacters_def by (auto simp: is_space_def)

lemma nickname_clean: "isValidNickname n \<Longrightarrow> clean n"
  using valid_nickname_chars(3) [of n] nickname_alphabet unfolding clean_iff by blast

lemma nickname_word: "isValidNickname n \<Longrightarrow> is_word n"
  using valid_nickname_chars(1,3) [of n] nickname_alphabet unfolding is_word_def list_all_iff by blast

section \<open>User names\<close>

definition MAX_USERNAME_LENGTH :: nat where
  "MAX_USERNAME_LENGTH = 32"

definition isValidUsername :: "string \<Rightarrow> bool" where
  "isValidUsername username =
     (if username = [] \<or> length username > MAX_USERNAME_LENGTH then False
      else list_all (\<lambda>c. \<not> (c = CHR ''@'' \<or> c = CHR ''!'' \<or> c = CHR '' '' \<or> c = NUL \<or> c = CR \<or> c = LF)) username)"

lemma username_clean: "isValidUsername u \<Longrightarrow> clean u"
  by (auto simp: isValidUsername_def clean_iff list_all_iff split: if_splits)

lemma username_length: "isValidUsername u \<Longrightarrow> u \<noteq> [] \<and> length u \<le> 32"
  by (auto simp: isValidUsername_def MAX_USERNAME_LENGTH_def split: if_splits)

section \<open>Channel names\<close>

definition isValidChannelName :: "string \<Rightarrow> bool" where
  "isValidChannelName name =
     (if name = [] then False
      else if length name > 50 then False
      else if hd name \<noteq> CHR ''#'' \<and> hd name \<noteq> CHR ''&'' then False
      else list_all (\<lambda>c. \<not> (c = CHR '' '' \<or> c = CHR '','' \<or> c = BEL)) name)"

definition isChannel :: "string \<Rightarrow> bool" where
  "isChannel target = (if target = [] then False else hd target = CHR ''#'' \<or> hd target = CHR ''&'')"

lemma valid_channel_isChannel: "isValidChannelName n \<Longrightarrow> isChannel n"
  by (auto simp: isValidChannelName_def isChannel_def split: if_splits)

lemma channel_name_length: "isValidChannelName n \<Longrightarrow> n \<noteq> [] \<and> length n \<le> 50"
  by (auto simp: isValidChannelName_def split: if_splits)

text \<open>A nickname is never taken for a channel target, nor a channel name for a nickname.\<close>

lemma nickname_not_channel: "isValidNickname n \<Longrightarrow> \<not> isChannel n"
  using valid_nickname_chars(1,3) [of n] nickname_alphabet [of "hd n"]
  by (cases n) (auto simp: isChannel_def)

end
