(* ===== verification/Channel.thy ===== *)
theory Channel
  imports Handle_Vector Identifiers
begin

text \<open>
  \<open>include/Channel.hpp\<close> and \<open>src/channel/Channel.cpp\<close>. A channel keeps three vectors
  of client pointers and its modes; it owns no client. Pointers are of a type \<open>'p\<close>
  here: the channel compares them and never looks behind them, except in
  \<open>broadcastMessage\<close>, which is modelled with the server's heap in \<open>Server_State\<close>.
\<close>

record 'p channel =
  ch_name :: string
  ch_topic :: string
  ch_members :: "'p list"
  ch_operators :: "'p list"
  ch_isInviteOnly :: bool
  ch_topicRestricted :: bool
  ch_password :: string
  ch_userLimit :: nat
  ch_invitedClients :: "'p list"

text \<open>The accessors.\<close>

abbreviation getName :: "'p channel \<Rightarrow> string" where "getName \<equiv> ch_name"
abbreviation getTopic :: "'p channel \<Rightarrow> string" where "getTopic \<equiv> ch_topic"
abbreviation getPassword :: "'p channel \<Rightarrow> string" where "getPassword \<equiv> ch_password"
abbreviation getUserLimit :: "'p channel \<Rightarrow> nat" where "getUserLimit \<equiv> ch_userLimit"
abbreviation isInviteOnly :: "'p channel \<Rightarrow> bool" where "isInviteOnly \<equiv> ch_isInviteOnly"
abbreviation isTopicRestricted :: "'p channel \<Rightarrow> bool" where "isTopicRestricted \<equiv> ch_topicRestricted"
abbreviation getMembers :: "'p channel \<Rightarrow> 'p list" where "getMembers \<equiv> ch_members"

definition new_Channel :: "string \<Rightarrow> 'p channel" where
  "new_Channel name =
     \<lparr>ch_name = name, ch_topic = [], ch_members = [], ch_operators = [],
      ch_isInviteOnly = False, ch_topicRestricted = False, ch_password = [],
      ch_userLimit = 0, ch_invitedClients = []\<rparr>"

definition isMember :: "'p channel \<Rightarrow> 'p \<Rightarrow> bool" where
  "isMember ch p = vec_mem (ch_members ch) p"

definition isOperator :: "'p channel \<Rightarrow> 'p \<Rightarrow> bool" where
  "isOperator ch p = vec_mem (ch_operators ch) p"

definition isInvited :: "'p channel \<Rightarrow> 'p \<Rightarrow> bool" where
  "isInvited ch p = vec_mem (ch_invitedClients ch) p"

definition addMember :: "'p \<Rightarrow> 'p channel \<Rightarrow> 'p channel" where
  "addMember p ch = ch\<lparr>ch_members := vec_add p (ch_members ch)\<rparr>"

definition addOperator :: "'p \<Rightarrow> 'p channel \<Rightarrow> 'p channel" where
  "addOperator p ch = ch\<lparr>ch_operators := vec_add p (ch_operators ch)\<rparr>"

definition removeOperator :: "'p \<Rightarrow> 'p channel \<Rightarrow> 'p channel" where
  "removeOperator p ch = ch\<lparr>ch_operators := vec_erase p (ch_operators ch)\<rparr>"

definition removeMember :: "'p \<Rightarrow> 'p channel \<Rightarrow> 'p channel" where
  "removeMember p ch =
     (let ch' = ch\<lparr>ch_members := vec_erase p (ch_members ch)\<rparr>
      in if isOperator ch' p then removeOperator p ch' else ch')"

definition addInvited :: "'p \<Rightarrow> 'p channel \<Rightarrow> 'p channel" where
  "addInvited p ch = ch\<lparr>ch_invitedClients := vec_add p (ch_invitedClients ch)\<rparr>"

definition removeInvited :: "'p \<Rightarrow> 'p channel \<Rightarrow> 'p channel" where
  "removeInvited p ch = ch\<lparr>ch_invitedClients := vec_erase p (ch_invitedClients ch)\<rparr>"

definition setTopic :: "string \<Rightarrow> 'p channel \<Rightarrow> 'p channel" where
  "setTopic topic ch = ch\<lparr>ch_topic := topic\<rparr>"

definition setInviteOnly :: "bool \<Rightarrow> 'p channel \<Rightarrow> 'p channel" where
  "setInviteOnly mode ch = ch\<lparr>ch_isInviteOnly := mode\<rparr>"

definition setTopicRestricted :: "bool \<Rightarrow> 'p channel \<Rightarrow> 'p channel" where
  "setTopicRestricted mode ch = ch\<lparr>ch_topicRestricted := mode\<rparr>"

definition setPassword :: "string \<Rightarrow> 'p channel \<Rightarrow> 'p channel" where
  "setPassword password ch = ch\<lparr>ch_password := password\<rparr>"

definition setUserLimit :: "nat \<Rightarrow> 'p channel \<Rightarrow> 'p channel" where
  "setUserLimit limit ch = ch\<lparr>ch_userLimit := limit\<rparr>"

definition getMembersCount :: "'p channel \<Rightarrow> nat" where
  "getMembersCount ch = length (ch_members ch)"

lemmas channel_op_defs =
  addMember_def addOperator_def removeOperator_def removeMember_def addInvited_def
  removeInvited_def setTopic_def setInviteOnly_def setTopicRestricted_def setPassword_def
  setUserLimit_def

section \<open>The channel invariant\<close>

text \<open>
  Each client occurs at most once in each vector, and operators are members. The
  vectors hold clients of \<open>live\<close> only; every member is in \<open>reg\<close>, the registered ones.
\<close>

definition chan_wf :: "'p set \<Rightarrow> 'p set \<Rightarrow> 'p channel \<Rightarrow> bool" where
  "chan_wf live reg ch \<longleftrightarrow>
     isValidChannelName (ch_name ch) \<and> clean (ch_name ch) \<and>
     clean (ch_topic ch) \<and> clean (ch_password ch) \<and>
     distinct (ch_members ch) \<and> distinct (ch_operators ch) \<and> distinct (ch_invitedClients ch) \<and>
     set (ch_operators ch) \<subseteq> set (ch_members ch) \<and>
     set (ch_members ch) \<subseteq> reg \<and> reg \<subseteq> live \<and> set (ch_invitedClients ch) \<subseteq> live \<and>
     ch_userLimit ch < 2 ^ 31"

lemma isMember_iff: "isMember ch p \<longleftrightarrow> p \<in> set (ch_members ch)"
  and isOperator_iff: "isOperator ch p \<longleftrightarrow> p \<in> set (ch_operators ch)"
  and isInvited_iff: "isInvited ch p \<longleftrightarrow> p \<in> set (ch_invitedClients ch)"
  by (simp_all add: isMember_def isOperator_def isInvited_def vec_mem_def)

lemma removeMember_fields [simp]:
  "ch_name (removeMember p ch) = ch_name ch" "ch_topic (removeMember p ch) = ch_topic ch"
  "ch_members (removeMember p ch) = vec_erase p (ch_members ch)"
  "ch_isInviteOnly (removeMember p ch) = ch_isInviteOnly ch"
  "ch_topicRestricted (removeMember p ch) = ch_topicRestricted ch"
  "ch_password (removeMember p ch) = ch_password ch"
  "ch_userLimit (removeMember p ch) = ch_userLimit ch"
  "ch_invitedClients (removeMember p ch) = ch_invitedClients ch"
  by (simp_all add: removeMember_def removeOperator_def Let_def)

lemma vec_erase_absent: "p \<notin> set v \<Longrightarrow> vec_erase p v = v"
  by (induction v) auto

lemma removeMember_operators [simp]: "ch_operators (removeMember p ch) = vec_erase p (ch_operators ch)"
  by (auto simp: removeMember_def removeOperator_def Let_def isOperator_iff vec_erase_absent)

lemma chan_wf_new: "isValidChannelName n \<Longrightarrow> clean n \<Longrightarrow> reg \<subseteq> live \<Longrightarrow> chan_wf live reg (new_Channel n)"
  by (simp add: chan_wf_def new_Channel_def)

lemma chan_wf_ops:
  assumes "chan_wf live reg ch"
  shows "p \<in> reg \<Longrightarrow> chan_wf live reg (addMember p ch)"
    and "isMember ch p \<Longrightarrow> chan_wf live reg (addOperator p ch)"
    and "chan_wf live reg (removeOperator p ch)"
    and "chan_wf live reg (removeMember p ch)"
    and "p \<in> live \<Longrightarrow> chan_wf live reg (addInvited p ch)"
    and "chan_wf live reg (removeInvited p ch)"
    and "clean t \<Longrightarrow> chan_wf live reg (setTopic t ch)"
    and "chan_wf live reg (setInviteOnly b ch)"
    and "chan_wf live reg (setTopicRestricted b ch)"
    and "clean k \<Longrightarrow> chan_wf live reg (setPassword k ch)"
    and "n < 2 ^ 31 \<Longrightarrow> chan_wf live reg (setUserLimit n ch)"
  using assms
  by (auto simp: chan_wf_def isMember_iff addMember_def addOperator_def removeOperator_def
      addInvited_def removeInvited_def setTopic_def setInviteOnly_def setTopicRestricted_def
      setPassword_def setUserLimit_def)

text \<open>More clients, or more of them registered, do not disturb a channel.\<close>

lemma chan_wf_mono:
  "chan_wf live reg ch \<Longrightarrow> reg \<subseteq> reg' \<Longrightarrow> reg' \<subseteq> live' \<Longrightarrow> live \<subseteq> live' \<Longrightarrow> chan_wf live' reg' ch"
  by (auto simp: chan_wf_def)

text \<open>Once a client has been taken out of the vectors it may be destroyed.\<close>

lemma chan_wf_forget:
  assumes "chan_wf live reg ch"
  shows "chan_wf (live - {p}) (reg - {p}) (removeInvited p (removeMember p ch))"
  using assms by (auto simp: chan_wf_def removeInvited_def)

text \<open>Any sequence of additions and removals: what the contract of the vectors gives.\<close>

lemma removeMember_not_member: "chan_wf live reg ch \<Longrightarrow> \<not> isMember (removeMember p ch) p \<and> \<not> isOperator (removeMember p ch) p"
  by (simp add: chan_wf_def isMember_iff isOperator_iff)

section \<open>The channel as three sets\<close>

text \<open>
  What the commands rely on is which clients are members, operators and invited, not the
  order in which the vectors hold them.
\<close>

record 'p chan_sets =
  cs_members :: "'p set"
  cs_operators :: "'p set"
  cs_invited :: "'p set"

definition sets_of :: "'p channel \<Rightarrow> 'p chan_sets" where
  "sets_of ch = \<lparr>cs_members = set (ch_members ch), cs_operators = set (ch_operators ch),
     cs_invited = set (ch_invitedClients ch)\<rparr>"

definition leave_sets :: "'p \<Rightarrow> 'p chan_sets \<Rightarrow> 'p chan_sets" where
  "leave_sets p a = a\<lparr>cs_members := cs_members a - {p}, cs_operators := cs_operators a - {p}\<rparr>"

lemma sets_of_removeMember:
  assumes "distinct (ch_members ch)" and "distinct (ch_operators ch)"
  shows "sets_of (removeMember p ch) = leave_sets p (sets_of ch)"
  using assms by (simp add: sets_of_def leave_sets_def)

text \<open>
  Refinement: on a well-formed channel every operation on the vectors is the operation
  on three sets, and the tests are membership; in particular a client that leaves is no
  operator any more.
\<close>

lemma channel_refines_sets:
  assumes "chan_wf live reg ch"
  shows "sets_of (addMember p ch) = (sets_of ch)\<lparr>cs_members := insert p (cs_members (sets_of ch))\<rparr> \<and>
     sets_of (addOperator p ch) = (sets_of ch)\<lparr>cs_operators := insert p (cs_operators (sets_of ch))\<rparr> \<and>
     sets_of (addInvited p ch) = (sets_of ch)\<lparr>cs_invited := insert p (cs_invited (sets_of ch))\<rparr> \<and>
     sets_of (removeOperator p ch) = (sets_of ch)\<lparr>cs_operators := cs_operators (sets_of ch) - {p}\<rparr> \<and>
     sets_of (removeInvited p ch) = (sets_of ch)\<lparr>cs_invited := cs_invited (sets_of ch) - {p}\<rparr> \<and>
     sets_of (removeMember p ch) = leave_sets p (sets_of ch) \<and>
     (isMember ch p \<longleftrightarrow> p \<in> cs_members (sets_of ch)) \<and>
     (isOperator ch p \<longleftrightarrow> p \<in> cs_operators (sets_of ch)) \<and>
     (isInvited ch p \<longleftrightarrow> p \<in> cs_invited (sets_of ch)) \<and>
     getMembersCount ch = card (cs_members (sets_of ch))"
  using assms sets_of_removeMember [of ch p] distinct_card [of "ch_members ch"]
  by (simp add: chan_wf_def sets_of_def addMember_def addOperator_def addInvited_def removeOperator_def
      removeInvited_def isMember_iff isOperator_iff isInvited_iff getMembersCount_def)

lemma channel_refines_sets_witness:
  "cs_operators (sets_of (removeMember 1 (addOperator 1 (addMember (1 :: nat) (new_Channel ''#c''))))) = {}"
proof -
  let ?ch = "addOperator 1 (addMember (1 :: nat) (new_Channel ''#c''))"
  have "isValidChannelName ''#c''" by code_simp
  then have "chan_wf {1} {1} (addMember (1 :: nat) (new_Channel ''#c''))"
    by (intro chan_wf_ops(1) chan_wf_new) simp_all
  moreover have "isMember (addMember (1 :: nat) (new_Channel ''#c'')) 1"
    by (simp add: isMember_iff addMember_def)
  ultimately have "chan_wf {1} {1} ?ch" by (rule chan_wf_ops(2))
  from channel_refines_sets [OF this, of 1] show ?thesis
    by (simp add: leave_sets_def sets_of_def addOperator_def addMember_def new_Channel_def vec_add_def vec_mem_def)
qed

end
