(* ===== verification/Server_State.thy ===== *)
theory Server_State
  imports Ordered_Map Client Channel
begin

text \<open>
  \<open>include/Server.hpp\<close> and the parts of \<open>src/server/Server.cpp\<close> that the commands
  call: the maps of clients and channels, the lookups, channel creation and removal, the
  two broadcasts.

  Pointers. A \<open>Client*\<close> is an address in \<open>sv_heap\<close>, which maps an address to the
  object while it lives. Addresses are handed out in order (\<open>sv_next\<close>) and never used
  again, so a stale pointer stays stale, whatever the kernel does with descriptors. A
  dereference of an address with no object has no result (\<open>None\<close>): it is undefined
  behaviour. A \<open>Channel*\<close> is the key under which \<open>_channels\<close> owns the channel: the
  server allocates a channel only to insert it, deletes it only with its entry, and never
  renames it. \<open>os_fds\<close> is the kernel's view: the descriptors the process has open.
\<close>

type_synonym cptr = nat

datatype command_kind =
    PassCommand | NickCommand | UserCommand | JoinCommand | PrivmsgCommand
  | KickCommand | InviteCommand | TopicCommand | ModeCommand

text \<open>The factories. A command object has no members, so which class it is of is all there is to it.\<close>

abbreviation createPassCommand :: command_kind where "createPassCommand \<equiv> PassCommand"
abbreviation createNickCommand :: command_kind where "createNickCommand \<equiv> NickCommand"
abbreviation createUserCommand :: command_kind where "createUserCommand \<equiv> UserCommand"
abbreviation createJoinCommand :: command_kind where "createJoinCommand \<equiv> JoinCommand"
abbreviation createPrivmsgCommand :: command_kind where "createPrivmsgCommand \<equiv> PrivmsgCommand"
abbreviation createKickCommand :: command_kind where "createKickCommand \<equiv> KickCommand"
abbreviation createInviteCommand :: command_kind where "createInviteCommand \<equiv> InviteCommand"
abbreviation createTopicCommand :: command_kind where "createTopicCommand \<equiv> TopicCommand"
abbreviation createModeCommand :: command_kind where "createModeCommand \<equiv> ModeCommand"

record pollfd =
  pfd_fd :: int
  pfd_events :: "16 word"
  pfd_revents :: "16 word"

record server =
  sv_port :: int
  sv_password :: string
  sv_listenFd :: int
  sv_pollFds :: "pollfd list"
  sv_clients :: "(int, cptr) omap"
  sv_channels :: "(string, cptr channel) omap"
  sv_commands :: "(string, command_kind) omap"
  sv_heap :: "cptr \<Rightarrow> client option"
  sv_next :: cptr
  os_fds :: "int set"

text \<open>The accessors of \<open>Server\<close>.\<close>

abbreviation getServerPassword :: "server \<Rightarrow> string" where "getServerPassword \<equiv> sv_password"
abbreviation getChannels :: "server \<Rightarrow> (string, cptr channel) omap" where "getChannels \<equiv> sv_channels"

text \<open>\<open>Server::setupCommands\<close>: the table of commands, filled in this order.\<close>

definition setupCommands :: "server \<Rightarrow> server" where
  "setupCommands s = s\<lparr>sv_commands :=
     fold (\<lambda>(name, cmd). om_insert name cmd)
       [(''PASS'', createPassCommand), (''NICK'', createNickCommand), (''USER'', createUserCommand),
        (''JOIN'', createJoinCommand), (''PRIVMSG'', createPrivmsgCommand), (''KICK'', createKickCommand),
        (''INVITE'', createInviteCommand), (''TOPIC'', createTopicCommand), (''MODE'', createModeCommand)]
       (sv_commands s)\<rparr>"

section \<open>Through a pointer\<close>

definition deref :: "cptr \<Rightarrow> server \<Rightarrow> client option" where
  "deref p s = sv_heap s p"

text \<open>\<open>p->f(\<dots>)\<close> for a method that changes the object.\<close>

definition invoke :: "(client \<Rightarrow> client) \<Rightarrow> cptr \<Rightarrow> server \<Rightarrow> server option" where
  "invoke f p s = do { c \<leftarrow> deref p s; Some (s\<lparr>sv_heap := (sv_heap s)(p \<mapsto> f c)\<rparr>) }"

definition send_to :: "cptr \<Rightarrow> string \<Rightarrow> server \<Rightarrow> server option" where
  "send_to p m s = invoke (sendMessage m) p s"

definition channel_at :: "string \<Rightarrow> server \<Rightarrow> cptr channel option" where
  "channel_at name s = om_find name (sv_channels s)"

definition invoke_channel :: "(cptr channel \<Rightarrow> cptr channel) \<Rightarrow> string \<Rightarrow> server \<Rightarrow> server option" where
  "invoke_channel f name s =
     do { ch \<leftarrow> channel_at name s; Some (s\<lparr>sv_channels := om_insert name (f ch) (sv_channels s)\<rparr>) }"

section \<open>Lookups\<close>

definition getClientByFd :: "int \<Rightarrow> server \<Rightarrow> cptr option" where
  "getClientByFd fd s = om_find fd (sv_clients s)"

fun find_nick_loop :: "string \<Rightarrow> (int \<times> cptr) list \<Rightarrow> server \<Rightarrow> cptr option option" where
  "find_nick_loop normalized [] s = Some None"
| "find_nick_loop normalized ((fd, p) # it) s =
     do { c \<leftarrow> deref p s;
          if \<not> isDead c \<and> toIrcLowerCase (getNickname c) = normalized then Some (Some p)
          else find_nick_loop normalized it s }"

text \<open>The outer option is undefined behaviour, the inner one the \<open>NULL\<close> result.\<close>

definition findClientByNick :: "string \<Rightarrow> server \<Rightarrow> cptr option option" where
  "findClientByNick nickname s =
     (if nickname = [] then Some None
      else find_nick_loop (toIrcLowerCase nickname) (sv_clients s) s)"

fun count_ip_loop :: "string \<Rightarrow> (int \<times> cptr) list \<Rightarrow> server \<Rightarrow> nat option" where
  "count_ip_loop ip [] s = Some 0"
| "count_ip_loop ip ((fd, p) # it) s =
     do { c \<leftarrow> deref p s;
          n \<leftarrow> count_ip_loop ip it s;
          Some (if \<not> isDead c \<and> getIp c = ip then Suc n else n) }"

definition countClientsFromIp :: "string \<Rightarrow> server \<Rightarrow> nat option" where
  "countClientsFromIp ip s = (if ip = [] then Some 0 else count_ip_loop ip (sv_clients s) s)"

definition findChannel :: "string \<Rightarrow> server \<Rightarrow> string option" where
  "findChannel name s = (if om_find name (sv_channels s) = None then None else Some name)"

definition createChannel :: "string \<Rightarrow> server \<Rightarrow> server" where
  "createChannel name s =
     (if findChannel name s \<noteq> None then s
      else s\<lparr>sv_channels := om_insert name (new_Channel name) (sv_channels s)\<rparr>)"

definition removeChannel :: "string \<Rightarrow> server \<Rightarrow> server" where
  "removeChannel name s =
     (if findChannel name s \<noteq> None then s\<lparr>sv_channels := om_erase name (sv_channels s)\<rparr> else s)"

text \<open>The rewrites that evaluate an access to an object that is known to live.\<close>

declare deref_def [irc_simps] channel_at_def [irc_simps] findChannel_def [irc_simps]

section \<open>Broadcasts\<close>

text \<open>\<open>Channel::broadcastMessage\<close>; the sender is left out, \<open>None\<close> stands for \<open>NULL\<close>.\<close>

definition broadcastMessage :: "string \<Rightarrow> cptr option \<Rightarrow> cptr channel \<Rightarrow> server \<Rightarrow> server option" where
  "broadcastMessage message sender ch s =
     for_each (\<lambda>q t. if Some q = sender then Some t else send_to q message t) (ch_members ch) s"

text \<open>Everyone who shares a channel with the client, the client first, each once.\<close>

fun add_peers :: "cptr \<Rightarrow> string \<times> cptr channel \<Rightarrow> cptr list \<Rightarrow> cptr list" where
  "add_peers p (name, ch) recipients =
     (if \<not> isMember ch p then recipients else fold vec_add (getMembers ch) recipients)"

definition nick_recipients :: "cptr \<Rightarrow> (string, cptr channel) omap \<Rightarrow> cptr list" where
  "nick_recipients p channels = fold (add_peers p) channels [p]"

definition broadcastNicknameChange :: "cptr \<Rightarrow> string \<Rightarrow> string \<Rightarrow> server \<Rightarrow> server option" where
  "broadcastNicknameChange p oldNickname newNickname s =
     (if oldNickname = [] \<or> newNickname = [] then Some s
      else do { c \<leftarrow> deref p s;
                for_each (\<lambda>q. send_to q (cat ['':'', oldNickname, ''!'', getUsername c,
                            ''@localhost NICK :'', newNickname, crlf]))
                  (nick_recipients p (sv_channels s)) s })"

section \<open>Rules for computations on the server state\<close>

lemma pc_if: "(b \<Longrightarrow> pc m Q) \<Longrightarrow> (\<not> b \<Longrightarrow> pc n Q) \<Longrightarrow> pc (if b then m else n) Q"
  by simp

lemma pc_let: "(\<And>x. x = v \<Longrightarrow> pc (f x) Q) \<Longrightarrow> pc (let x = v in f x) Q"
  by simp

lemma pc_case_option:
  "(x = None \<Longrightarrow> pc m Q) \<Longrightarrow> (\<And>y. x = Some y \<Longrightarrow> pc (f y) Q) \<Longrightarrow>
   pc (case x of None \<Rightarrow> m | Some y \<Rightarrow> f y) Q"
  by (cases x) auto

lemma pc_read: "(\<And>x. pc (f x) Q) \<Longrightarrow> pc (m \<bind> f) Q"
  by (cases m) auto

lemmas pc_read_client = pc_read [where ?'a = client]
  and pc_read_channel = pc_read [where ?'a = "cptr channel"]
  and pc_read_pointer = pc_read [where ?'a = "cptr option"]
  and pc_read_string = pc_read [where ?'a = string]

lemma wp_if: "(b \<Longrightarrow> wp m Q) \<Longrightarrow> (\<not> b \<Longrightarrow> wp n Q) \<Longrightarrow> wp (if b then m else n) Q"
  by simp

lemma wp_case_option:
  "(x = None \<Longrightarrow> wp m Q) \<Longrightarrow> (\<And>y. x = Some y \<Longrightarrow> wp (f y) Q) \<Longrightarrow>
   wp (case x of None \<Rightarrow> m | Some y \<Rightarrow> f y) Q"
  by (cases x) auto

lemma wp_bindI: "wp m P \<Longrightarrow> (\<And>x. P x \<Longrightarrow> wp (f x) Q) \<Longrightarrow> wp (m \<bind> f) Q"
  by (simp add: wp_mono)

lemma wp_let: "(\<And>x. x = v \<Longrightarrow> wp (f x) Q) \<Longrightarrow> wp (let x = v in f x) Q"
  by simp

end
