(* ===== verification/Server_Inv.thy ===== *)
theory Server_Inv
  imports Server_State
begin

text \<open>
  The invariant of the server state and how it survives the primitive operations. Three
  relations summarise what a computation did: \<open>sent s s'\<close>, only messages were queued;
  \<open>touched R p s s'\<close>, what serving client \<open>p\<close> may do at most, its own object changing as
  \<open>R\<close> allows; \<open>handled p s s'\<close>, what a command of client \<open>p\<close> may do at most (queue messages for
  anyone, change its own client object, change channels).
\<close>

section \<open>What a computation did\<close>

definition attempts_wf :: "client \<Rightarrow> bool" where
  "attempts_wf c \<longleftrightarrow> unat (cl_failedPassAttempts c) \<le> 3 \<and>
     (unat (cl_failedPassAttempts c) = 3 \<longrightarrow> cl_dead c \<or> cl_closing c)"

definition identity_wf :: "client \<Rightarrow> bool" where
  "identity_wf c \<longleftrightarrow>
     (if cl_nickSet c then isValidNickname (cl_nickname c) else cl_nickname c = []) \<and>
     (if cl_userSet c then isValidUsername (cl_username c) else cl_username c = [])"

definition client_inv :: "client \<Rightarrow> bool" where
  "client_inv c \<longleftrightarrow> client_wf c \<and> identity_wf c \<and> attempts_wf c"

text \<open>Messages have been queued, nothing else.\<close>

definition sent_client :: "client \<Rightarrow> client \<Rightarrow> bool" where
  "sent_client c c' \<longleftrightarrow> (\<exists>ms. c' = fold sendMessage ms c)"

text \<open>
  The send buffer has grown by whole messages, that of a dead or closing client does not grow, and nothing
  went out on the wire.
\<close>

definition appended :: "client \<Rightarrow> client \<Rightarrow> bool" where
  "appended c c' \<longleftrightarrow> cl_wire c' = cl_wire c \<and>
     (\<exists>ms. list_all isValidOutboundMessage ms \<and> cl_sendBuffer c' = cl_sendBuffer c @ concat ms \<and>
           (cl_dead c \<or> cl_closing c \<longrightarrow> ms = []))"

text \<open>The client keeps its connection and its input, and never loses a flag.\<close>

definition risen_client :: "client \<Rightarrow> client \<Rightarrow> bool" where
  "risen_client c c' \<longleftrightarrow>
     cl_fd c' = cl_fd c \<and> cl_ip c' = cl_ip c \<and> cl_recvBuffer c' = cl_recvBuffer c \<and>
     (cl_passOk c \<longrightarrow> cl_passOk c') \<and> (cl_nickSet c \<longrightarrow> cl_nickSet c') \<and>
     (cl_userSet c \<longrightarrow> cl_userSet c') \<and> (cl_dead c \<longrightarrow> cl_dead c') \<and>
     (cl_closing c \<longrightarrow> cl_closing c')"

definition grown_client :: "client \<Rightarrow> client \<Rightarrow> bool" where
  "grown_client c c' \<longleftrightarrow> risen_client c c' \<and> appended c c'"

definition sent :: "server \<Rightarrow> server \<Rightarrow> bool" where
  "sent s s' \<longleftrightarrow> s' = s\<lparr>sv_heap := sv_heap s'\<rparr> \<and> (\<forall>q. rel_option sent_client (sv_heap s q) (sv_heap s' q))"

definition touched :: "(client \<Rightarrow> client \<Rightarrow> bool) \<Rightarrow> cptr \<Rightarrow> server \<Rightarrow> server \<Rightarrow> bool" where
  "touched R p s s' \<longleftrightarrow>
     s' = s\<lparr>sv_heap := sv_heap s', sv_channels := sv_channels s'\<rparr> \<and>
     (\<forall>q. rel_option (if q = p then R else sent_client) (sv_heap s q) (sv_heap s' q))"

abbreviation handled :: "cptr \<Rightarrow> server \<Rightarrow> server \<Rightarrow> bool" where
  "handled \<equiv> touched grown_client"

lemma fold_sendMessage_fields [simp]:
  "cl_fd (fold sendMessage ms c) = cl_fd c" "cl_ip (fold sendMessage ms c) = cl_ip c"
  "cl_recvBuffer (fold sendMessage ms c) = cl_recvBuffer c"
  "cl_nickname (fold sendMessage ms c) = cl_nickname c" "cl_username (fold sendMessage ms c) = cl_username c"
  "cl_passOk (fold sendMessage ms c) = cl_passOk c" "cl_nickSet (fold sendMessage ms c) = cl_nickSet c"
  "cl_userSet (fold sendMessage ms c) = cl_userSet c"
  "cl_failedPassAttempts (fold sendMessage ms c) = cl_failedPassAttempts c"
  "cl_closing (fold sendMessage ms c) = cl_closing c" "cl_wire (fold sendMessage ms c) = cl_wire c"
  by (induction ms arbitrary: c) simp_all

lemma fold_sendMessage_inactive: "cl_dead c \<or> cl_closing c \<Longrightarrow> fold sendMessage ms c = c"
  by (induction ms) (simp_all add: sendMessage_inactive)

lemma sent_client_refl [simp]: "sent_client c c"
  unfolding sent_client_def by (rule exI [of _ "[]"]) simp

lemma sent_client_sendMessage [simp]: "sent_client c (sendMessage m c)"
  unfolding sent_client_def by (rule exI [of _ "[m]"]) simp

lemma sent_client_trans: "sent_client c d \<Longrightarrow> sent_client d e \<Longrightarrow> sent_client c e"
  unfolding sent_client_def by (metis comp_apply fold_append)

lemma sent_inactive: "sent_client c c' \<Longrightarrow> cl_dead c \<or> cl_closing c \<Longrightarrow> c' = c"
  by (auto simp: sent_client_def fold_sendMessage_inactive)

lemma sent_client_fields:
  assumes "sent_client c c'"
  shows "cl_fd c' = cl_fd c" "cl_ip c' = cl_ip c" "cl_recvBuffer c' = cl_recvBuffer c"
    "cl_nickname c' = cl_nickname c" "cl_username c' = cl_username c"
    "cl_passOk c' = cl_passOk c" "cl_nickSet c' = cl_nickSet c" "cl_userSet c' = cl_userSet c"
    "cl_failedPassAttempts c' = cl_failedPassAttempts c" "cl_closing c' = cl_closing c"
    "cl_dead c \<Longrightarrow> cl_dead c'" "cl_wire c' = cl_wire c"
  using assms sent_inactive [OF assms] by (auto simp: sent_client_def)

lemma sent_client_wf: "sent_client c c' \<Longrightarrow> client_wf c \<Longrightarrow> client_wf c'"
proof -
  have "client_wf c \<Longrightarrow> client_wf (fold sendMessage ms c)" for ms
    by (induction ms arbitrary: c) (simp_all add: client_wf_sendMessage)
  then show "sent_client c c' \<Longrightarrow> client_wf c \<Longrightarrow> client_wf c'" by (auto simp: sent_client_def)
qed

lemma appended_same [simp, intro]: "cl_sendBuffer c' = cl_sendBuffer c \<Longrightarrow> cl_wire c' = cl_wire c \<Longrightarrow> appended c c'"
  unfolding appended_def by (intro conjI exI [of _ "[]"]) simp_all

lemma appended_sendMessage [simp]: "appended c (sendMessage m c)"
proof (cases "sendMessage m c = c\<lparr>cl_sendBuffer := cl_sendBuffer c @ m\<rparr> \<and> isValidOutboundMessage m \<and>
    \<not> cl_dead c \<and> \<not> cl_closing c")
  case True
  then show ?thesis unfolding appended_def by (intro conjI exI [of _ "[m]"]) simp_all
next
  case False
  then show ?thesis by (intro appended_same) (auto simp: sendMessage_def)
qed

lemma appended_trans:
  assumes "appended c d" and "appended d e" and "cl_dead c \<longrightarrow> cl_dead d" and "cl_closing c \<longrightarrow> cl_closing d"
  shows "appended c e"
proof -
  obtain ms ns where "list_all isValidOutboundMessage ms" "cl_sendBuffer d = cl_sendBuffer c @ concat ms"
      "cl_dead c \<or> cl_closing c \<longrightarrow> ms = []"
    and "list_all isValidOutboundMessage ns" "cl_sendBuffer e = cl_sendBuffer d @ concat ns"
      "cl_dead d \<or> cl_closing d \<longrightarrow> ns = []"
    using assms(1,2) unfolding appended_def by blast
  moreover have "cl_wire e = cl_wire c" using assms(1,2) by (simp add: appended_def)
  ultimately show ?thesis using assms(3,4) unfolding appended_def by (intro conjI exI [of _ "ms @ ns"]) auto
qed

lemma sent_appended: "sent_client c c' \<Longrightarrow> appended c c'"
proof -
  have "appended c (fold sendMessage ms c)" for ms
  proof (induction ms arbitrary: c)
    case (Cons m ms)
    show ?case using appended_trans [OF appended_sendMessage Cons.IH] sendMessage_dead_mono by simp
  qed simp
  then show "sent_client c c' \<Longrightarrow> appended c c'" by (auto simp: sent_client_def)
qed

lemma risen_client_refl [simp]: "risen_client c c"
  by (simp add: risen_client_def)

lemma risen_client_trans: "risen_client c d \<Longrightarrow> risen_client d e \<Longrightarrow> risen_client c e"
  by (simp add: risen_client_def)

lemma grown_client_refl [simp]: "grown_client c c"
  by (simp add: grown_client_def)

lemma grown_client_trans: "grown_client c d \<Longrightarrow> grown_client d e \<Longrightarrow> grown_client c e"
  using appended_trans [of c d e] risen_client_trans [of c d e] by (simp add: grown_client_def risen_client_def)

lemma sent_grown: "sent_client c c' \<Longrightarrow> grown_client c c'"
  by (auto simp: grown_client_def risen_client_def sent_appended dest: sent_client_fields)

lemma grown_simps [simp]:
  "grown_client c (markClosing r c)" "grown_client c (markDead r c)"
  "grown_client c (c\<lparr>cl_passOk := True\<rparr>)"
  "grown_client c (c\<lparr>cl_nickname := n, cl_nickSet := True\<rparr>)"
  "grown_client c (c\<lparr>cl_username := n, cl_userSet := True\<rparr>)"
  "grown_client c (c\<lparr>cl_nickname := n\<rparr>)" "grown_client c (c\<lparr>cl_nickSet := True\<rparr>)"
  "grown_client c (c\<lparr>cl_username := n\<rparr>)" "grown_client c (c\<lparr>cl_userSet := True\<rparr>)"
  "grown_client c (recordFailedPassAttempt c)"
  by (auto simp: grown_client_def risen_client_def recordFailedPassAttempt_def)

subsection \<open>Messages only\<close>

lemma sent_refl [simp]: "sent s s"
  by (simp add: sent_def option.rel_refl)

lemma sent_fields:
  assumes "sent s t"
  shows "sv_port t = sv_port s" "sv_password t = sv_password s" "sv_listenFd t = sv_listenFd s"
    "sv_pollFds t = sv_pollFds s" "sv_clients t = sv_clients s" "sv_channels t = sv_channels s"
    "sv_commands t = sv_commands s" "sv_next t = sv_next s" "os_fds t = os_fds s"
    "dom (sv_heap t) = dom (sv_heap s)"
proof -
  from assms have e: "t = s\<lparr>sv_heap := sv_heap t\<rparr>" by (simp add: sent_def)
  show "sv_port t = sv_port s" "sv_password t = sv_password s" "sv_listenFd t = sv_listenFd s"
    "sv_pollFds t = sv_pollFds s" "sv_clients t = sv_clients s" "sv_channels t = sv_channels s"
    "sv_commands t = sv_commands s" "sv_next t = sv_next s" "os_fds t = os_fds s"
    by (subst e, simp)+
  have "sv_heap t q = None \<longleftrightarrow> sv_heap s q = None" for q
    using assms by (auto simp: sent_def dest: spec [of _ q] elim: option.rel_cases)
  then show "dom (sv_heap t) = dom (sv_heap s)" by (auto simp: dom_def)
qed

lemma sent_trans: "sent s t \<Longrightarrow> sent t u \<Longrightarrow> sent s u"
proof -
  assume st: "sent s t" and tu: "sent t u"
  have "u = s\<lparr>sv_heap := sv_heap u\<rparr>"
    using sent_fields [OF st] sent_fields [OF tu] by (intro server.equality) simp_all
  moreover have "rel_option sent_client (sv_heap s q) (sv_heap u q)" for q
  proof -
    have "rel_option sent_client (sv_heap s q) (sv_heap t q)"
      "rel_option sent_client (sv_heap t q) (sv_heap u q)"
      using st tu by (auto simp: sent_def)
    then show ?thesis
      by (cases "sv_heap s q"; cases "sv_heap t q"; cases "sv_heap u q")
        (auto intro: sent_client_trans)
  qed
  ultimately show ?thesis by (simp add: sent_def)
qed

lemma sent_object:
  "sent s t \<Longrightarrow> sv_heap s q = Some c \<Longrightarrow> \<exists>c'. sv_heap t q = Some c' \<and> sent_client c c'"
  by (auto simp: sent_def option_rel_Some1 dest: spec [of _ q])

lemma sent_object_rev:
  "sent s t \<Longrightarrow> sv_heap t q = Some c' \<Longrightarrow> \<exists>c. sv_heap s q = Some c \<and> sent_client c c'"
  by (auto simp: sent_def option_rel_Some2 dest: spec [of _ q])

lemma sent_update:
  "sv_heap s p = Some c \<Longrightarrow> sent_client c c' \<Longrightarrow> sent s (s\<lparr>sv_heap := (sv_heap s)(p \<mapsto> c')\<rparr>)"
  by (auto simp: sent_def option.rel_refl)

subsection \<open>A command of one client\<close>

lemma touched_refl: "(\<And>c. R c c) \<Longrightarrow> touched R p s s"
  by (auto simp: touched_def intro: option.rel_refl)

lemma handled_refl [simp]: "handled p s s"
  by (simp add: touched_refl)

lemma touched_fields:
  assumes "touched R p s t"
  shows "sv_port t = sv_port s" "sv_password t = sv_password s" "sv_listenFd t = sv_listenFd s"
    "sv_pollFds t = sv_pollFds s" "sv_clients t = sv_clients s"
    "sv_commands t = sv_commands s" "sv_next t = sv_next s" "os_fds t = os_fds s"
    "dom (sv_heap t) = dom (sv_heap s)"
proof -
  from assms have e: "t = s\<lparr>sv_heap := sv_heap t, sv_channels := sv_channels t\<rparr>"
    by (simp add: touched_def)
  show "sv_port t = sv_port s" "sv_password t = sv_password s" "sv_listenFd t = sv_listenFd s"
    "sv_pollFds t = sv_pollFds s" "sv_clients t = sv_clients s"
    "sv_commands t = sv_commands s" "sv_next t = sv_next s" "os_fds t = os_fds s"
    by (subst e, simp)+
  have "sv_heap t q = None \<longleftrightarrow> sv_heap s q = None" for q
    using assms by (auto simp: touched_def dest: spec [of _ q] elim: option.rel_cases)
  then show "dom (sv_heap t) = dom (sv_heap s)" by (auto simp: dom_def)
qed

lemmas handled_fields = touched_fields [where R = grown_client]

lemma rel_option_compose:
  "rel_option R x y \<Longrightarrow> rel_option R y z \<Longrightarrow> (\<And>a b c. R a b \<Longrightarrow> R b c \<Longrightarrow> R a c) \<Longrightarrow> rel_option R x z"
  by (auto elim!: option.rel_cases)

lemma touched_trans:
  assumes st: "touched R p s t" and tu: "touched R p t u"
    and trans: "\<And>c d e. R c d \<Longrightarrow> R d e \<Longrightarrow> R c e"
  shows "touched R p s u"
proof -
  have "u = s\<lparr>sv_heap := sv_heap u, sv_channels := sv_channels u\<rparr>"
    using touched_fields [OF st] touched_fields [OF tu] by (intro server.equality) simp_all
  moreover have "rel_option (if q = p then R else sent_client) (sv_heap s q) (sv_heap u q)" for q
  proof (rule rel_option_compose)
    show "rel_option (if q = p then R else sent_client) (sv_heap s q) (sv_heap t q)"
      "rel_option (if q = p then R else sent_client) (sv_heap t q) (sv_heap u q)"
      using st tu unfolding touched_def by blast+
  qed (auto split: if_splits intro: sent_client_trans elim: trans)
  ultimately show ?thesis by (simp add: touched_def)
qed

lemma handled_trans: "handled p s t \<Longrightarrow> handled p t u \<Longrightarrow> handled p s u"
  by (rule touched_trans) (auto elim: grown_client_trans)

lemma touched_mono:
  assumes st: "touched R p s t" and mono: "\<And>c d. R c d \<Longrightarrow> S c d"
  shows "touched S p s t"
proof -
  have "rel_option (if q = p then S else sent_client) (sv_heap s q) (sv_heap t q)" for q
    using st mono unfolding touched_def
    by (cases "sv_heap s q"; cases "sv_heap t q") (auto dest!: spec [of _ q] split: if_splits)
  then show ?thesis using st by (simp add: touched_def)
qed

lemma sent_touched:
  assumes st: "sent s t" and R: "\<And>c d. sent_client c d \<Longrightarrow> R c d"
  shows "touched R p s t"
proof -
  have "t = s\<lparr>sv_heap := sv_heap t, sv_channels := sv_channels t\<rparr>"
    using sent_fields [OF st] by (intro server.equality) simp_all
  moreover have "rel_option (if q = p then R else sent_client) (sv_heap s q) (sv_heap t q)" for q
    using st R unfolding sent_def
    by (cases "sv_heap s q"; cases "sv_heap t q") (auto dest: spec [of _ q])
  ultimately show ?thesis by (simp add: touched_def)
qed

lemma sent_handled: "sent s t \<Longrightarrow> handled p s t"
  by (erule sent_touched) (rule sent_grown)

lemma touched_other:
  "touched R p s t \<Longrightarrow> q \<noteq> p \<Longrightarrow> sv_heap s q = Some c \<Longrightarrow> \<exists>c'. sv_heap t q = Some c' \<and> sent_client c c'"
  by (auto simp: touched_def option_rel_Some1 dest: spec [of _ q])

lemma touched_rel:
  assumes "touched R p s t" and "q \<noteq> p"
  shows "rel_option sent_client (sv_heap s q) (sv_heap t q)"
proof -
  have "rel_option (if q = p then R else sent_client) (sv_heap s q) (sv_heap t q)"
    using assms(1) unfolding touched_def by blast
  with assms(2) show ?thesis by simp
qed

lemma touched_own:
  "touched R p s t \<Longrightarrow> sv_heap s p = Some c \<Longrightarrow> \<exists>c'. sv_heap t p = Some c' \<and> R c c'"
  by (auto simp: touched_def option_rel_Some1 dest: spec [of _ p])

lemmas handled_other = touched_other [where R = grown_client]
lemmas handled_own = touched_own [where R = grown_client]

lemma touched_update:
  "sv_heap s p = Some c \<Longrightarrow> R c c' \<Longrightarrow> touched R p s (s\<lparr>sv_heap := (sv_heap s)(p \<mapsto> c')\<rparr>)"
  by (auto simp: touched_def option.rel_refl)

lemmas handled_update = touched_update [where R = grown_client]

lemma handled_channels [simp]: "handled p s (s\<lparr>sv_channels := m\<rparr>)"
  by (simp add: touched_def option.rel_refl)

section \<open>What the operations do\<close>

lemma send_to_sent: "pc (send_to q m s) (sent s)"
  by (auto simp: pc_def send_to_def invoke_def deref_def bind_eq_Some_conv
      intro: sent_update sent_client_sendMessage)

lemma send_to_wp: "q \<in> dom (sv_heap s) \<Longrightarrow> wp (send_to q m s) (sent s)"
  using sent_update [OF _ sent_client_sendMessage]
  by (auto simp: wp_def send_to_def invoke_def deref_def)

lemma for_each_sent:
  assumes "\<And>q t. q \<in> set qs \<Longrightarrow> q \<in> dom (sv_heap t) \<Longrightarrow> wp (f q t) (sent t)"
    and "set qs \<subseteq> dom (sv_heap s)"
  shows "wp (for_each f qs s) (sent s)"
proof (rule for_each_wp)
  fix q t
  assume q: "q \<in> set qs" and st: "sent s t"
  then have "q \<in> dom (sv_heap t)" using assms(2) sent_fields(10) [OF st] by blast
  then show "wp (f q t) (sent s)"
    using assms(1) q st by (blast intro: wp_mono sent_trans)
qed simp

lemma broadcast_sent: "pc (broadcastMessage m x ch s) (sent s)"
  unfolding broadcastMessage_def
  by (rule for_each_pc) (auto intro: send_to_sent sent_trans)

lemma broadcast_wp: "set (ch_members ch) \<subseteq> dom (sv_heap s) \<Longrightarrow> wp (broadcastMessage m x ch s) (sent s)"
  unfolding broadcastMessage_def
  by (rule for_each_sent) (auto simp del: wp_def intro: send_to_wp)

lemma invoke_wp: "sv_heap s p = Some c \<Longrightarrow> invoke f p s = Some (s\<lparr>sv_heap := (sv_heap s)(p \<mapsto> f c)\<rparr>)"
  by (simp add: invoke_def deref_def)

lemma invoke_handled: "(\<And>c. grown_client c (f c)) \<Longrightarrow> pc (invoke f p s) (handled p s)"
  by (auto simp: pc_def invoke_def deref_def bind_eq_Some_conv intro: handled_update)

lemma invoke_channel_handled: "pc (invoke_channel f n s) (handled p s)"
  by (auto simp: pc_def invoke_channel_def bind_eq_Some_conv)

lemma createChannel_handled [simp]: "handled p s (createChannel n s)"
  by (simp add: createChannel_def)

lemma removeChannel_handled [simp]: "handled p s (removeChannel n s)"
  by (simp add: removeChannel_def)

lemma nickChange_sent: "pc (broadcastNicknameChange q old new s) (sent s)"
  unfolding broadcastNicknameChange_def
  by (intro pc_if pc_read_client for_each_pc send_to_sent) (auto intro: sent_trans)

text \<open>Sequencing under \<open>handled\<close>; the rules a command's frame proof is made of.\<close>

lemma handled_bind:
  "pc m (handled p s) \<Longrightarrow> (\<And>t. pc (f t) (handled p t)) \<Longrightarrow> pc (m \<bind> f) (handled p s)"
  by (auto simp: pc_def intro: handled_trans split: Option.bind_splits)

lemma handled_then: "handled p s t \<Longrightarrow> pc m (handled p t) \<Longrightarrow> pc m (handled p s)"
  by (auto simp: pc_def intro: handled_trans)

lemma sent_pc_handled: "pc m (sent s) \<Longrightarrow> pc m (handled p s)"
  by (auto simp: pc_def intro: sent_handled)

lemmas handled_rules =
  handled_bind pc_read_client pc_read_channel pc_read_pointer pc_read_string
  pc_if pc_let pc_case_option
  send_to_sent [THEN sent_pc_handled] broadcast_sent [THEN sent_pc_handled]
  nickChange_sent [THEN sent_pc_handled] invoke_channel_handled invoke_handled

section \<open>The invariant\<close>

text \<open>The registered clients.\<close>

definition reg_ptrs :: "server \<Rightarrow> cptr set" where
  "reg_ptrs s = {p. \<exists>c. sv_heap s p = Some c \<and> isRegistered c}"

text \<open>The map of clients owns the objects of the heap, one entry each, under their descriptor.\<close>

definition heap_inv :: "server \<Rightarrow> bool" where
  "heap_inv s \<longleftrightarrow>
     om_sorted (sv_clients s) \<and> distinct (om_values (sv_clients s)) \<and>
     set (om_values (sv_clients s)) = dom (sv_heap s) \<and>
     (\<forall>(fd, p) \<in> set (sv_clients s). \<exists>c. sv_heap s p = Some c \<and> cl_fd c = fd) \<and>
     (\<forall>p \<in> dom (sv_heap s). p < sv_next s) \<and>
     (\<forall>p c. sv_heap s p = Some c \<longrightarrow> client_inv c)"

text \<open>Channels are filed under their names and hold live clients, registered ones as members.\<close>

definition chan_inv :: "server \<Rightarrow> bool" where
  "chan_inv s \<longleftrightarrow>
     om_sorted (sv_channels s) \<and>
     (\<forall>(name, ch) \<in> set (sv_channels s). ch_name ch = name \<and>
        chan_wf (dom (sv_heap s)) (reg_ptrs s) ch)"

text \<open>No two clients that are not dead hold nicknames that are equal under the casemapping.\<close>

definition nick_inv :: "server \<Rightarrow> bool" where
  "nick_inv s \<longleftrightarrow>
     (\<forall>p q c d. sv_heap s p = Some c \<longrightarrow> sv_heap s q = Some d \<longrightarrow>
        \<not> cl_dead c \<longrightarrow> \<not> cl_dead d \<longrightarrow> cl_nickname c \<noteq> [] \<longrightarrow>
        toIrcLowerCase (cl_nickname c) = toIrcLowerCase (cl_nickname d) \<longrightarrow> p = q)"

text \<open>
  The poll vector watches the listening socket and each client once, and these are the
  descriptors that are open.
\<close>

definition poll_inv :: "server \<Rightarrow> bool" where
  "poll_inv s \<longleftrightarrow>
     sv_listenFd s \<notin> fst ` set (sv_clients s) \<and>
     distinct (map pfd_fd (sv_pollFds s)) \<and>
     set (map pfd_fd (sv_pollFds s)) = insert (sv_listenFd s) (fst ` set (sv_clients s)) \<and>
     os_fds s = insert (sv_listenFd s) (fst ` set (sv_clients s))"

definition MAX_CLIENTS_PER_IP :: nat where
  "MAX_CLIENTS_PER_IP = 128"

definition MAX_TOTAL_CLIENTS :: nat where
  "MAX_TOTAL_CLIENTS = 512"

definition from_ip :: "string \<Rightarrow> server \<Rightarrow> cptr \<Rightarrow> bool" where
  "from_ip ip s p \<longleftrightarrow> (case sv_heap s p of None \<Rightarrow> False | Some c \<Rightarrow> \<not> cl_dead c \<and> cl_ip c = ip)"

definition ip_load :: "string \<Rightarrow> server \<Rightarrow> nat" where
  "ip_load ip s = length (filter (from_ip ip s) (om_values (sv_clients s)))"

definition quota_inv :: "server \<Rightarrow> bool" where
  "quota_inv s \<longleftrightarrow> length (sv_clients s) \<le> MAX_TOTAL_CLIENTS \<and>
     (\<forall>ip. ip_load ip s \<le> MAX_CLIENTS_PER_IP)"

definition config_inv :: "server \<Rightarrow> bool" where
  "config_inv s \<longleftrightarrow> 1 \<le> sv_port s \<and> sv_port s \<le> 65535 \<and> sv_password s \<noteq> [] \<and> 0 \<le> sv_listenFd s \<and>
     sv_commands s = sv_commands (setupCommands (s\<lparr>sv_commands := []\<rparr>))"

definition server_inv :: "server \<Rightarrow> bool" where
  "server_inv s \<longleftrightarrow> heap_inv s \<and> chan_inv s \<and> nick_inv s \<and> poll_inv s \<and> quota_inv s \<and> config_inv s"

lemma invD:
  assumes "server_inv s"
  shows "heap_inv s" "chan_inv s" "nick_inv s" "poll_inv s" "quota_inv s" "config_inv s"
  using assms by (simp_all add: server_inv_def)

lemma inv_client: "server_inv s \<Longrightarrow> sv_heap s p = Some c \<Longrightarrow> client_inv c"
  by (auto simp: server_inv_def heap_inv_def)

lemma inv_channel:
  "server_inv s \<Longrightarrow> om_find n (sv_channels s) = Some ch \<Longrightarrow>
   ch_name ch = n \<and> chan_wf (dom (sv_heap s)) (reg_ptrs s) ch"
  by (auto simp: server_inv_def chan_inv_def dest!: om_find_mem)

lemma inv_members:
  assumes "server_inv s" and "om_find n (sv_channels s) = Some ch"
  shows "set (ch_members ch) \<subseteq> dom (sv_heap s)" "set (ch_members ch) \<subseteq> reg_ptrs s"
    "set (ch_operators ch) \<subseteq> set (ch_members ch)" "set (ch_invitedClients ch) \<subseteq> dom (sv_heap s)"
  using inv_channel [OF assms] by (auto simp: chan_wf_def)

subsection \<open>A change inside the heap\<close>

text \<open>
  Changing client objects in place keeps the invariant when each object keeps its
  descriptor and address, stays well-formed, does not come back to life or lose its
  registration, and no new pair of equal nicknames appears.
\<close>

definition kept_client :: "client \<Rightarrow> client \<Rightarrow> bool" where
  "kept_client c c' \<longleftrightarrow>
     cl_fd c' = cl_fd c \<and> cl_ip c' = cl_ip c \<and> (cl_dead c \<longrightarrow> cl_dead c') \<and>
     (isRegistered c \<longrightarrow> isRegistered c') \<and> (client_inv c \<longrightarrow> client_inv c')"

lemma attempts_wf_sent: "sent_client c c' \<Longrightarrow> attempts_wf c \<Longrightarrow> attempts_wf c'"
  by (auto simp: attempts_wf_def sent_client_fields)

lemma identity_wf_sent: "sent_client c c' \<Longrightarrow> identity_wf c \<Longrightarrow> identity_wf c'"
  by (simp add: identity_wf_def sent_client_fields)

lemma sent_kept: "sent_client c c' \<Longrightarrow> kept_client c c'"
  using attempts_wf_sent [of c c'] identity_wf_sent [of c c']
  by (auto simp: kept_client_def client_inv_def isRegistered_def sent_client_fields intro: sent_client_wf)

lemma inv_heap_change:
  assumes server_inv: "server_inv s" and kept: "\<And>q. rel_option kept_client (sv_heap s q) (h q)"
    and nick: "nick_inv (s\<lparr>sv_heap := h\<rparr>)"
  shows "server_inv (s\<lparr>sv_heap := h\<rparr>)"
proof -
  let ?t = "s\<lparr>sv_heap := h\<rparr>"
  have dom: "dom h = dom (sv_heap s)"
  proof -
    have "h q = None \<longleftrightarrow> sv_heap s q = None" for q
      using kept [of q] by (auto elim: option.rel_cases)
    then show ?thesis by (auto simp: dom_def)
  qed
  have fwd: "\<exists>c'. h q = Some c' \<and> kept_client c c'" if "sv_heap s q = Some c" for q c
    using kept [of q] that by (auto simp: option_rel_Some1)
  have bwd: "\<exists>c. sv_heap s q = Some c \<and> kept_client c c'" if "h q = Some c'" for q c'
    using kept [of q] that by (auto simp: option_rel_Some2)
  have reg: "reg_ptrs s \<subseteq> reg_ptrs ?t"
    using fwd by (fastforce simp: reg_ptrs_def kept_client_def)
  have live: "reg_ptrs ?t \<subseteq> dom h" by (auto simp: reg_ptrs_def)
  have "heap_inv ?t"
  proof -
    have "client_inv c'" if "h q = Some c'" for q c'
      using bwd [OF that] invD(1) [OF server_inv] by (auto simp: heap_inv_def kept_client_def)
    moreover have "\<exists>c'. h p = Some c' \<and> cl_fd c' = fd" if "(fd, p) \<in> set (sv_clients s)" for fd p
      using that invD(1) [OF server_inv] fwd by (fastforce simp: heap_inv_def kept_client_def)
    ultimately show ?thesis
      using invD(1) [OF server_inv] by (auto simp: heap_inv_def dom)
  qed
  moreover have "chan_inv ?t"
    using invD(2) [OF server_inv] chan_wf_mono [OF _ reg live] by (auto simp: chan_inv_def dom)
  moreover have "quota_inv ?t"
  proof -
    have mono: "from_ip ip ?t p \<Longrightarrow> from_ip ip s p" for ip p
      using bwd by (fastforce simp: from_ip_def kept_client_def split: option.splits)
    have le: "length (filter (from_ip ip ?t) ps) \<le> length (filter (from_ip ip s) ps)" for ip ps
      using mono by (induction ps) (auto intro: le_SucI)
    have "ip_load ip ?t \<le> ip_load ip s" for ip
      using le [of ip "om_values (sv_clients s)"] by (simp add: ip_load_def)
    then show ?thesis
      using invD(5) [OF server_inv] by (auto simp: quota_inv_def intro: order_trans)
  qed
  moreover have "poll_inv ?t" "config_inv ?t"
    using invD(4,6) [OF server_inv] by (simp_all add: poll_inv_def config_inv_def setupCommands_def)
  ultimately show ?thesis using nick by (simp add: server_inv_def)
qed

lemma nick_inv_same:
  assumes "nick_inv s"
    and "\<And>q. rel_option (\<lambda>c c'. (cl_dead c \<longrightarrow> cl_dead c') \<and> cl_nickname c' = cl_nickname c) (sv_heap s q) (h q)"
  shows "nick_inv (s\<lparr>sv_heap := h\<rparr>)"
proof -
  have bwd: "\<exists>c. sv_heap s q = Some c \<and> (cl_dead c \<longrightarrow> cl_dead c') \<and> cl_nickname c' = cl_nickname c"
    if "h q = Some c'" for q c'
    using assms(2) [of q] that by (auto simp: option_rel_Some2)
  show ?thesis
    unfolding nick_inv_def
  proof (intro allI impI)
    fix p q c' d'
    assume h: "sv_heap (s\<lparr>sv_heap := h\<rparr>) p = Some c'" "sv_heap (s\<lparr>sv_heap := h\<rparr>) q = Some d'"
      and a: "\<not> cl_dead c'" "\<not> cl_dead d'" "cl_nickname c' \<noteq> []"
        "toIrcLowerCase (cl_nickname c') = toIrcLowerCase (cl_nickname d')"
    from h have "h p = Some c'" "h q = Some d'" by simp_all
    then obtain c d where cd: "sv_heap s p = Some c" "sv_heap s q = Some d"
      and alive: "cl_dead c \<longrightarrow> cl_dead c'" "cl_dead d \<longrightarrow> cl_dead d'"
      and same: "cl_nickname c' = cl_nickname c" "cl_nickname d' = cl_nickname d"
      using bwd by blast
    show "p = q"
      by (rule assms(1) [unfolded nick_inv_def, rule_format, OF cd])
        (use a alive same in simp_all)
  qed
qed

lemma inv_sent:
  assumes "server_inv s" and "sent s t"
  shows "server_inv t"
proof -
  have t: "t = s\<lparr>sv_heap := sv_heap t\<rparr>" and r: "rel_option sent_client (sv_heap s q) (sv_heap t q)" for q
    using assms(2) by (auto simp: sent_def)
  have "server_inv (s\<lparr>sv_heap := sv_heap t\<rparr>)"
  proof (rule inv_heap_change [OF assms(1)])
    show "rel_option kept_client (sv_heap s q) (sv_heap t q)" for q
      using r [of q] by (rule option.rel_mono_strong) (rule sent_kept)
    show "nick_inv (s\<lparr>sv_heap := sv_heap t\<rparr>)"
    proof (rule nick_inv_same [OF invD(3) [OF assms(1)]])
      fix q
      show "rel_option (\<lambda>c c'. (cl_dead c \<longrightarrow> cl_dead c') \<and> cl_nickname c' = cl_nickname c)
              (sv_heap s q) (sv_heap t q)"
        using r [of q] by (rule option.rel_mono_strong) (auto dest: sent_client_fields)
    qed
  qed
  then show ?thesis using t by simp
qed

text \<open>One object changed in place, its nickname kept.\<close>

lemma inv_update:
  assumes "server_inv s" and "sv_heap s p = Some c" and "kept_client c c'" and "cl_nickname c' = cl_nickname c"
  shows "server_inv (s\<lparr>sv_heap := (sv_heap s)(p \<mapsto> c')\<rparr>)"
proof (rule inv_heap_change [OF assms(1)])
  have refl: "kept_client d d" for d by (simp add: kept_client_def)
  show "rel_option kept_client (sv_heap s q) (((sv_heap s)(p \<mapsto> c')) q)" for q
    using assms(2,3) refl by (cases "sv_heap s q") auto
  show "nick_inv (s\<lparr>sv_heap := (sv_heap s)(p \<mapsto> c')\<rparr>)"
    using assms(2-4) by (intro nick_inv_same [OF invD(3) [OF assms(1)]])
      (auto simp: kept_client_def option.rel_refl)
qed

subsection \<open>A change of the channels\<close>

lemma inv_channels:
  assumes "server_inv s" and "chan_inv (s\<lparr>sv_channels := m\<rparr>)"
  shows "server_inv (s\<lparr>sv_channels := m\<rparr>)"
proof -
  have "from_ip ip (s\<lparr>sv_channels := m\<rparr>) = from_ip ip s" for ip
    by (simp add: from_ip_def fun_eq_iff)
  then show ?thesis
    using assms
    by (simp add: server_inv_def heap_inv_def nick_inv_def poll_inv_def quota_inv_def config_inv_def
        setupCommands_def ip_load_def)
qed

lemma reg_ptrs_channels [simp]: "reg_ptrs (s\<lparr>sv_channels := m\<rparr>) = reg_ptrs s"
  by (simp add: reg_ptrs_def)

lemma inv_put_channel:
  assumes "server_inv s" and "ch_name ch = n" and "chan_wf (dom (sv_heap s)) (reg_ptrs s) ch"
  shows "server_inv (s\<lparr>sv_channels := om_insert n ch (sv_channels s)\<rparr>)"
proof (rule inv_channels [OF assms(1)])
  have s: "om_sorted (sv_channels s)" using invD(2) [OF assms(1)] by (simp add: chan_inv_def)
  show "chan_inv (s\<lparr>sv_channels := om_insert n ch (sv_channels s)\<rparr>)"
    using invD(2) [OF assms(1)] assms(2,3) om.set_entries_insert [OF s, of n ch]
    by (auto simp: chan_inv_def s)
qed

lemma inv_removeChannel: "server_inv s \<Longrightarrow> server_inv (removeChannel n s)"
  unfolding removeChannel_def
proof (auto intro!: inv_channels)
  assume i: "server_inv s"
  then have s: "om_sorted (sv_channels s)" using invD(2) by (auto simp: chan_inv_def)
  show "chan_inv (s\<lparr>sv_channels := om_erase n (sv_channels s)\<rparr>)"
    using invD(2) [OF i] set_om_erase_subset [of n "sv_channels s"] s
    by (fastforce simp: chan_inv_def)
qed

text \<open>The channel operations inside a command: the pointer is good, the channel stays well-formed.\<close>

lemma invoke_channel_wp:
  assumes "server_inv s" and "om_find n (sv_channels s) = Some ch"
    and "ch_name (f ch) = ch_name ch"
    and "chan_wf (dom (sv_heap s)) (reg_ptrs s) (f ch)"
  shows "wp (invoke_channel f n s) (\<lambda>t. t = s\<lparr>sv_channels := om_insert n (f ch) (sv_channels s)\<rparr> \<and> server_inv t)"
  using assms inv_put_channel [OF assms(1), of "f ch" n] inv_channel [OF assms(1,2)]
  by (simp add: invoke_channel_def channel_at_def)

end
