(* ===== verification/Command_Contract.thy ===== *)
theory Command_Contract
  imports Server_Inv
begin

text \<open>
  \<open>include/Command.hpp\<close>: every command is an object with a virtual method
  \<open>execute(server, client, params)\<close>. The locale \<open>command_handler\<close> is what the
  dispatcher \<open>Server::processLine\<close> relies on, whichever command it calls: the call is
  free of undefined behaviour, keeps the invariant, and touches other clients only by
  queueing messages for them. Each command's theory interprets it.
\<close>

section \<open>Lookups under the invariant\<close>

lemma find_nick_loop_spec:
  assumes "\<forall>(fd, p) \<in> set it. p \<in> dom (sv_heap s)"
  shows "\<exists>r. find_nick_loop n it s = Some r \<and>
    (case r of
       None \<Rightarrow> \<forall>(fd, p) \<in> set it. \<forall>c. sv_heap s p = Some c \<longrightarrow> \<not> cl_dead c \<longrightarrow> toIrcLowerCase (cl_nickname c) \<noteq> n
     | Some q \<Rightarrow> \<exists>c. sv_heap s q = Some c \<and> \<not> cl_dead c \<and> toIrcLowerCase (cl_nickname c) = n)"
  using assms
proof (induction it)
  case (Cons e it)
  obtain fd p where e: "e = (fd, p)" by (cases e)
  with Cons.prems obtain c where c: "sv_heap s p = Some c" by auto
  obtain r where r: "find_nick_loop n it s = Some r"
    and spec: "case r of
       None \<Rightarrow> \<forall>(fd, p) \<in> set it. \<forall>c. sv_heap s p = Some c \<longrightarrow> \<not> cl_dead c \<longrightarrow> toIrcLowerCase (cl_nickname c) \<noteq> n
     | Some q \<Rightarrow> \<exists>c. sv_heap s q = Some c \<and> \<not> cl_dead c \<and> toIrcLowerCase (cl_nickname c) = n"
    using Cons.IH Cons.prems by auto
  show ?case
  proof (cases "\<not> cl_dead c \<and> toIrcLowerCase (cl_nickname c) = n")
    case True
    then show ?thesis using e c by (simp add: deref_def)
  next
    case False
    then have "find_nick_loop n (e # it) s = Some r" using e c r by (auto simp: deref_def)
    with False spec e c show ?thesis by (cases r) auto
  qed
qed simp

lemma find_nick_loop_cong:
  assumes "\<And>q. map_option (\<lambda>c. (cl_dead c, cl_nickname c)) (sv_heap t q) =
             map_option (\<lambda>c. (cl_dead c, cl_nickname c)) (sv_heap s q)"
  shows "find_nick_loop n it t = find_nick_loop n it s"
proof (induction it)
  case (Cons e it)
  obtain fd p where e: "e = (fd, p)" by (cases e)
  show ?case
    using assms [of p] Cons by (cases "sv_heap t p"; cases "sv_heap s p") (auto simp: e deref_def)
qed simp

lemma findClientByNick_spec:
  assumes "server_inv s"
  shows "\<exists>r. findClientByNick n s = Some r \<and>
    (case r of
       None \<Rightarrow> n = [] \<or> (\<forall>q c. sv_heap s q = Some c \<longrightarrow> \<not> cl_dead c \<longrightarrow>
                 toIrcLowerCase (cl_nickname c) \<noteq> toIrcLowerCase n)
     | Some q \<Rightarrow> n \<noteq> [] \<and> (\<exists>c. sv_heap s q = Some c \<and> \<not> cl_dead c \<and>
                 toIrcLowerCase (cl_nickname c) = toIrcLowerCase n))"
proof (cases "n = []")
  case False
  have owned: "set (om_values (sv_clients s)) = dom (sv_heap s)"
    using invD(1) [OF assms] by (simp add: heap_inv_def)
  then have live: "\<forall>(fd, p) \<in> set (sv_clients s). p \<in> dom (sv_heap s)" by force
  obtain r where r: "find_nick_loop (toIrcLowerCase n) (sv_clients s) s = Some r"
    and spec: "case r of
       None \<Rightarrow> \<forall>(fd, p) \<in> set (sv_clients s). \<forall>c. sv_heap s p = Some c \<longrightarrow> \<not> cl_dead c \<longrightarrow>
                 toIrcLowerCase (cl_nickname c) \<noteq> toIrcLowerCase n
     | Some q \<Rightarrow> \<exists>c. sv_heap s q = Some c \<and> \<not> cl_dead c \<and> toIrcLowerCase (cl_nickname c) = toIrcLowerCase n"
    using find_nick_loop_spec [OF live] by blast
  have "\<exists>fd. (fd, q) \<in> set (sv_clients s)" if "sv_heap s q = Some c" for q c
    using that owned by (force simp: dom_def)
  with False r spec show ?thesis
    by (cases r) (fastforce simp: findClientByNick_def)+
qed (simp add: findClientByNick_def)

text \<open>The result of a lookup, as two elimination rules.\<close>

lemma findClientByNick_cases:
  assumes "server_inv s"
  obtains (free) "findClientByNick n s = Some None"
      "n = [] \<or> (\<forall>q c. sv_heap s q = Some c \<longrightarrow> \<not> cl_dead c \<longrightarrow>
         toIrcLowerCase (cl_nickname c) \<noteq> toIrcLowerCase n)"
    | (taken) q c where "findClientByNick n s = Some (Some q)" "n \<noteq> []" "sv_heap s q = Some c"
      "\<not> cl_dead c" "toIrcLowerCase (cl_nickname c) = toIrcLowerCase n"
proof -
  obtain r where r: "findClientByNick n s = Some r"
    and spec: "case r of
       None \<Rightarrow> n = [] \<or> (\<forall>q c. sv_heap s q = Some c \<longrightarrow> \<not> cl_dead c \<longrightarrow>
                 toIrcLowerCase (cl_nickname c) \<noteq> toIrcLowerCase n)
     | Some q \<Rightarrow> n \<noteq> [] \<and> (\<exists>c. sv_heap s q = Some c \<and> \<not> cl_dead c \<and>
                 toIrcLowerCase (cl_nickname c) = toIrcLowerCase n)"
    using findClientByNick_spec [OF assms, of n] by blast
  show ?thesis
  proof (cases r)
    case None
    with r spec show ?thesis by (intro free) simp_all
  next
    case (Some q)
    with r spec taken show ?thesis by auto
  qed
qed

lemma findClientByNick_wp:
  "server_inv s \<Longrightarrow> wp (findClientByNick n s) (\<lambda>r. \<forall>q. r = Some q \<longrightarrow> q \<in> dom (sv_heap s))"
  by (rule findClientByNick_cases [of s n]) auto

lemma findChannel_iff:
  "findChannel n s = None \<longleftrightarrow> om_find n (sv_channels s) = None"
  "findChannel n s = Some m \<longleftrightarrow> m = n \<and> (\<exists>ch. om_find n (sv_channels s) = Some ch)"
  by (auto simp: findChannel_def)

section \<open>Messages under the invariant\<close>

definition active :: "cptr \<Rightarrow> server \<Rightarrow> bool" where
  "active p s \<longleftrightarrow> (\<exists>c. sv_heap s p = Some c \<and> \<not> cl_dead c \<and> \<not> cl_closing c)"

lemma send_inv: "server_inv s \<Longrightarrow> q \<in> dom (sv_heap s) \<Longrightarrow> wp (send_to q m s) server_inv"
  by (rule wp_mono [OF send_to_wp]) (auto intro: inv_sent)

lemma send_then:
  "q \<in> dom (sv_heap s) \<Longrightarrow> (\<And>t. sent s t \<Longrightarrow> wp (f t) Q) \<Longrightarrow> wp (send_to q m s \<bind> f) Q"
  by (rule wp_bindI [OF send_to_wp])

lemma broadcast_then:
  "set (ch_members ch) \<subseteq> dom (sv_heap s) \<Longrightarrow> (\<And>t. sent s t \<Longrightarrow> wp (f t) Q) \<Longrightarrow>
   wp (broadcastMessage m x ch s \<bind> f) Q"
  by (rule wp_bindI [OF broadcast_wp])

lemma broadcast_inv:
  "server_inv s \<Longrightarrow> set (ch_members ch) \<subseteq> dom (sv_heap s) \<Longrightarrow> wp (broadcastMessage m x ch s) server_inv"
  by (rule wp_mono [OF broadcast_wp]) (auto intro: inv_sent)

lemma deref_then: "sv_heap s p = Some c \<Longrightarrow> wp (f c) Q \<Longrightarrow> wp (deref p s \<bind> f) Q"
  by (simp add: deref_def)

lemma channel_then: "om_find n (sv_channels s) = Some ch \<Longrightarrow> wp (f ch) Q \<Longrightarrow> wp (channel_at n s \<bind> f) Q"
  by (simp add: channel_at_def)

lemma findClientByNick_then:
  "server_inv s \<Longrightarrow> (\<And>r. (\<And>q. r = Some q \<Longrightarrow> q \<in> dom (sv_heap s)) \<Longrightarrow> wp (f r) Q) \<Longrightarrow>
   wp (findClientByNick n s \<bind> f) Q"
  by (rule wp_bindI [OF findClientByNick_wp]) auto

section \<open>The recipients of a nickname change\<close>

lemma set_fold_vec_add: "set (fold vec_add xs rs) = set rs \<union> set xs"
  by (induction xs arbitrary: rs) auto

lemma distinct_fold_vec_add: "distinct rs \<Longrightarrow> distinct (fold vec_add xs rs)"
  by (induction xs arbitrary: rs) auto

definition peers :: "cptr \<Rightarrow> string \<times> cptr channel \<Rightarrow> cptr set" where
  "peers p e = (if isMember (snd e) p then set (ch_members (snd e)) else {})"

lemma set_add_peers: "set (add_peers p e rs) = set rs \<union> peers p e"
  by (cases e) (simp add: peers_def set_fold_vec_add)

lemma set_nick_recipients:
  "set (nick_recipients p chs) = insert p (\<Union>e \<in> set chs. peers p e)"
proof -
  have "set (fold (add_peers p) chs rs) = set rs \<union> (\<Union>e \<in> set chs. peers p e)" for rs
    by (induction chs arbitrary: rs) (auto simp: set_add_peers)
  then show ?thesis by (simp add: nick_recipients_def)
qed

lemma distinct_add_peers: "distinct rs \<Longrightarrow> distinct (add_peers p e rs)"
  by (cases e) (simp add: distinct_fold_vec_add)

lemma distinct_nick_recipients: "distinct (nick_recipients p chs)"
proof -
  have "distinct rs \<Longrightarrow> distinct (fold (add_peers p) chs rs)" for rs
    by (induction chs arbitrary: rs) (auto simp: distinct_add_peers)
  then show ?thesis by (simp add: nick_recipients_def)
qed

lemma inv_entries_members:
  assumes "server_inv s" and "(n, ch) \<in> set (sv_channels s)"
  shows "set (ch_members ch) \<subseteq> dom (sv_heap s)" "set (ch_members ch) \<subseteq> reg_ptrs s"
    "set (ch_operators ch) \<subseteq> set (ch_members ch)" "set (ch_invitedClients ch) \<subseteq> dom (sv_heap s)"
proof -
  have "chan_wf (dom (sv_heap s)) (reg_ptrs s) ch"
    using invD(2) [OF assms(1)] assms(2) by (auto simp: chan_inv_def)
  then show "set (ch_members ch) \<subseteq> dom (sv_heap s)" "set (ch_members ch) \<subseteq> reg_ptrs s"
    "set (ch_operators ch) \<subseteq> set (ch_members ch)" "set (ch_invitedClients ch) \<subseteq> dom (sv_heap s)"
    unfolding chan_wf_def by blast+
qed

lemma nick_recipients_live:
  "server_inv s \<Longrightarrow> p \<in> dom (sv_heap s) \<Longrightarrow> set (nick_recipients p (sv_channels s)) \<subseteq> dom (sv_heap s)"
  using inv_entries_members(1) [of s]
  by (force simp: set_nick_recipients peers_def split: if_splits)

lemma nickChange_wp:
  assumes "server_inv s" and "p \<in> dom (sv_heap s)"
  shows "wp (broadcastNicknameChange p old new s) (sent s)"
  using assms nick_recipients_live [OF assms]
  by (auto simp: broadcastNicknameChange_def deref_def intro!: for_each_sent send_to_wp)

section \<open>Who receives a message\<close>

text \<open>The state after \<open>m\<close> has been queued for each client of a set, once.\<close>

definition queue :: "string \<Rightarrow> cptr set \<Rightarrow> server \<Rightarrow> server" where
  "queue m Q s = s\<lparr>sv_heap := \<lambda>q. if q \<in> Q then map_option (sendMessage m) (sv_heap s q) else sv_heap s q\<rparr>"

lemma queue_fields [simp]:
  "sv_port (queue m Q s) = sv_port s" "sv_password (queue m Q s) = sv_password s"
  "sv_listenFd (queue m Q s) = sv_listenFd s" "sv_pollFds (queue m Q s) = sv_pollFds s"
  "sv_clients (queue m Q s) = sv_clients s" "sv_channels (queue m Q s) = sv_channels s"
  "sv_commands (queue m Q s) = sv_commands s" "sv_next (queue m Q s) = sv_next s"
  "os_fds (queue m Q s) = os_fds s"
  by (simp_all add: queue_def)

lemma queue_heap:
  "sv_heap (queue m Q s) q = (if q \<in> Q then map_option (sendMessage m) (sv_heap s q) else sv_heap s q)"
  by (simp add: queue_def)

lemma queue_dom [simp]: "dom (sv_heap (queue m Q s)) = dom (sv_heap s)"
  by (auto simp: queue_def split: if_splits)

lemma queue_empty [simp]: "queue m {} s = s"
  by (simp add: queue_def)

lemma queue_queue: "A \<inter> B = {} \<Longrightarrow> queue m B (queue m A s) = queue m (A \<union> B) s"
  by (auto simp: queue_def fun_eq_iff intro!: server.equality)

lemma send_to_queue: "q \<in> dom (sv_heap s) \<Longrightarrow> send_to q m s = Some (queue m {q} s)"
  by (auto simp: send_to_def invoke_def deref_def queue_def fun_eq_iff)

lemma for_each_queue:
  assumes "distinct qs" and "set qs \<subseteq> dom (sv_heap s)"
  shows "for_each (\<lambda>q t. if P q then Some t else send_to q m t) qs s =
    Some (queue m {q \<in> set qs. \<not> P q} s)"
  using assms
proof (induction qs arbitrary: s)
  case (Cons q qs)
  have rest: "set qs \<subseteq> dom (sv_heap s)" "set qs \<subseteq> dom (sv_heap (queue m {q} s))" "distinct qs"
    using Cons.prems by simp_all
  have disj: "{q} \<inter> {r \<in> set qs. \<not> P r} = {}" using Cons.prems(1) by auto
  have "{q} \<union> {r \<in> set qs. \<not> P r} = {r \<in> set (q # qs). \<not> P r}" if "\<not> P q" using that by auto
  moreover have "{r \<in> set qs. \<not> P r} = {r \<in> set (q # qs). \<not> P r}" if "P q" using that by auto
  ultimately show ?case
    using Cons.prems(2) Cons.IH [OF rest(3,1)] Cons.IH [OF rest(3,2)] send_to_queue [of q s m]
      queue_queue [OF disj, of m s]
    by (cases "P q") simp_all
qed simp

text \<open>\<open>Channel::broadcastMessage\<close>: every member but the sender, once.\<close>

lemma broadcast_queue:
  assumes "distinct (ch_members ch)" and "set (ch_members ch) \<subseteq> dom (sv_heap s)"
  shows "broadcastMessage m x ch s = Some (queue m {q \<in> set (ch_members ch). Some q \<noteq> x} s)"
  using for_each_queue [OF assms, of "\<lambda>q. Some q = x"] by (simp add: broadcastMessage_def)

lemma inv_distinct_members:
  "server_inv s \<Longrightarrow> om_find n (sv_channels s) = Some ch \<Longrightarrow> distinct (ch_members ch)"
  using inv_channel [of s n ch] by (simp add: chan_wf_def)

text \<open>The sender first among the others, then itself: every member, once.\<close>

lemma broadcast_and_send:
  assumes "server_inv s" and "om_find n (sv_channels s) = Some ch" and "p \<in> set (ch_members ch)"
  shows "(broadcastMessage m (Some p) ch s \<bind> send_to p m) = Some (queue m (set (ch_members ch)) s)"
proof -
  have mem: "set (ch_members ch) \<subseteq> dom (sv_heap s)" by (rule inv_members(1) [OF assms(1,2)])
  let ?Q = "{q \<in> set (ch_members ch). Some q \<noteq> Some p}"
  have "?Q \<union> {p} = set (ch_members ch)" "?Q \<inter> {p} = {}" using assms(3) by auto
  moreover have "p \<in> dom (sv_heap (queue m ?Q s))" using assms(3) mem by auto
  ultimately show ?thesis
    using broadcast_queue [OF inv_distinct_members [OF assms(1,2)] mem, of m "Some p"]
      send_to_queue [of p "queue m ?Q s" m] queue_queue [of ?Q "{p}" m s]
    by simp
qed

lemma send_queue: "sv_heap s p = Some c \<Longrightarrow> send_to p m s = Some (queue m {p} s)"
  by (rule send_to_queue) auto

lemma queue_channels [simp]:
  "queue m Q (s\<lparr>sv_channels := chs\<rparr>) = (queue m Q s)\<lparr>sv_channels := chs\<rparr>"
  by (cases s) (simp add: queue_def fun_eq_iff)

text \<open>The outcome of a request that is refused: at most one message to the client itself.\<close>

definition replied :: "cptr \<Rightarrow> server \<Rightarrow> server option \<Rightarrow> bool" where
  "replied p s r \<longleftrightarrow> (\<exists>m Q. Q \<subseteq> {p} \<and> r = Some (queue m Q s))"

lemma replied_send: "sv_heap s p = Some c \<Longrightarrow> replied p s (send_to p m s)"
  by (auto simp: replied_def send_queue)

lemma replied_none [simp]: "replied p s (Some s)"
  unfolding replied_def by (intro exI [of _ "[]"] exI [of _ "{}"]) simp

lemma replied_passOk:
  assumes "replied p s (Some t)" and "sv_heap t q = Some d"
  shows "\<exists>c. sv_heap s q = Some c \<and> cl_passOk c = cl_passOk d"
  using assms by (auto simp: replied_def queue_heap split: if_splits)

text \<open>Only the client's own object has changed.\<close>

definition only_own :: "cptr \<Rightarrow> server \<Rightarrow> server \<Rightarrow> bool" where
  "only_own p s t \<longleftrightarrow> (\<forall>q. q \<noteq> p \<longrightarrow> sv_heap t q = sv_heap s q)"

lemma only_own_refl [simp]: "only_own p s s"
  by (simp add: only_own_def)

lemma only_own_bind:
  assumes "pc m (only_own p s)" and "\<And>t. pc (f t) (only_own p t)"
  shows "pc (m \<bind> f) (only_own p s)"
  unfolding pc_bind
proof (rule pc_mono [OF assms(1)])
  fix t
  assume "only_own p s t"
  then show "pc (f t) (only_own p s)"
    by (intro pc_mono [OF assms(2)]) (simp add: only_own_def)
qed

lemma send_own: "pc (send_to p m s) (only_own p s)"
  by (auto simp: pc_def only_own_def send_to_def invoke_def split: Option.bind_splits)

lemmas own_rules =
  only_own_bind pc_read_client pc_read_channel pc_read_pointer pc_read_string
  pc_if pc_let pc_case_option send_own

section \<open>The contract\<close>

locale command_handler =
  fixes exec :: "cptr \<Rightarrow> string list \<Rightarrow> server \<Rightarrow> server option"
    and registered_only :: bool
  assumes exec_frame: "pc (exec p params s) (handled p s)"
    and exec_safe: "server_inv s \<Longrightarrow> active p s \<Longrightarrow> (registered_only \<longrightarrow> p \<in> reg_ptrs s) \<Longrightarrow>
          list_all clean params \<Longrightarrow> wp (exec p params s) server_inv"
begin

lemma exec_wp:
  assumes "server_inv s" and "active p s" and "registered_only \<longrightarrow> p \<in> reg_ptrs s" and "list_all clean params"
  shows "wp (exec p params s) (\<lambda>t. server_inv t \<and> handled p s t)"
  by (rule wp_pc [OF exec_safe [OF assms] exec_frame])

text \<open>Another client keeps its identity, its flags and its input.\<close>

lemma exec_other:
  assumes "exec p params s = Some t" and "q \<noteq> p" and "sv_heap s q = Some c"
  shows "\<exists>c'. sv_heap t q = Some c' \<and> sent_client c c'"
  using handled_other pcD [OF exec_frame assms(1)] assms(2,3) by blast

lemma exec_recvBuffer:
  assumes "exec p params s = Some t"
  shows "map_option cl_recvBuffer (sv_heap t q) = map_option cl_recvBuffer (sv_heap s q)"
proof -
  have h: "handled p s t" by (rule pcD [OF exec_frame assms])
  then have "rel_option (if q = p then grown_client else sent_client) (sv_heap s q) (sv_heap t q)"
    by (simp add: touched_def)
  then show ?thesis
    by (cases "q = p") (auto elim!: option.rel_cases simp: grown_client_def risen_client_def sent_client_fields)
qed

lemma exec_registered: "exec p params s = Some t \<Longrightarrow> reg_ptrs s \<subseteq> reg_ptrs t"
proof
  fix q
  assume e: "exec p params s = Some t" and "q \<in> reg_ptrs s"
  then obtain c where c: "sv_heap s q = Some c" "isRegistered c" by (auto simp: reg_ptrs_def)
  have h: "handled p s t" by (rule pcD [OF exec_frame e])
  have "\<exists>c'. sv_heap t q = Some c' \<and> grown_client c c'"
    using handled_own [OF h] handled_other [OF h] c(1) sent_grown by (cases "q = p") blast+
  with c(2) show "q \<in> reg_ptrs t"
    by (auto simp: reg_ptrs_def grown_client_def risen_client_def isRegistered_def)
qed

end

end
