(* ===== verification/Cmd_Registration.thy ===== *)
theory Cmd_Registration
  imports Command_Contract
begin

text \<open>
  The three commands a client registers with: \<open>src/commands/Pass.cpp\<close>, \<open>Nick.cpp\<close>
  and \<open>User.cpp\<close>, each translated whole, and shown to keep the contract.
\<close>

definition MAX_FAILED_PASS_ATTEMPTS :: "32 word" where
  "MAX_FAILED_PASS_ATTEMPTS = 3"

definition displayName :: "client \<Rightarrow> string" where
  "displayName c = (if getNickname c \<noteq> [] then getNickname c else ''*'')"

section \<open>PASS\<close>

definition pass_execute :: "cptr \<Rightarrow> string list \<Rightarrow> server \<Rightarrow> server option" where
  "pass_execute p params s =
     do { c \<leftarrow> deref p s;
          if hasPassOk c
          then send_to p (cat ['':server 462 '', displayName c, '' :You may not reregister'', crlf]) s
          else if params = [] \<or> hd params = []
          then send_to p (cat ['':server 461 '', displayName c, '' PASS :Not enough parameters'', crlf]) s
          else if hd params = getServerPassword s
          then invoke (setPassOk True) p s
          else do {
            s1 \<leftarrow> invoke recordFailedPassAttempt p s;
            s2 \<leftarrow> send_to p (cat ['':server 464 '', displayName c, '' :Password incorrect'', crlf]) s1;
            c2 \<leftarrow> deref p s2;
            if getFailedPassAttempts c2 \<ge> MAX_FAILED_PASS_ATTEMPTS
            then invoke (markClosing ''too many invalid PASS attempts'') p s2
            else Some s2 } }"

section \<open>NICK\<close>

definition welcome_message :: "client \<Rightarrow> string" where
  "welcome_message c = cat ['':server 001 '', getNickname c, '' :Welcome to the ft_irc Network, '',
                    getNickname c, ''!'', getUsername c, ''@localhost'', crlf]"

definition nick_execute :: "cptr \<Rightarrow> string list \<Rightarrow> server \<Rightarrow> server option" where
  "nick_execute p params s =
     (if params = [] \<or> hd params = []
      then send_to p (cat ['':server 431 * :No nickname given'', crlf]) s
      else do {
        c \<leftarrow> deref p s;
        if \<not> isValidNickname (hd params)
        then send_to p (cat ['':server 432 '', displayName c, '' '', hd params, '' :Erroneous nickname'', crlf]) s
        else do {
          nicknameOwner \<leftarrow> findClientByNick (hd params) s;
          if nicknameOwner \<noteq> None \<and> nicknameOwner \<noteq> Some p
          then send_to p (cat ['':server 433 '', displayName c, '' '', hd params,
                               '' :Nickname is already in use'', crlf]) s
          else do {
            s1 \<leftarrow> invoke (\<lambda>c. setNickSet True (setNickname (hd params) c)) p s;
            s2 \<leftarrow> (if isRegistered c \<and> getNickname c \<noteq> hd params
                   then broadcastNicknameChange p (getNickname c) (hd params) s1 else Some s1);
            c2 \<leftarrow> deref p s2;
            if \<not> isRegistered c \<and> isRegistered c2 then send_to p (welcome_message c2) s2 else Some s2 } } })"

section \<open>USER\<close>

definition user_execute :: "cptr \<Rightarrow> string list \<Rightarrow> server \<Rightarrow> server option" where
  "user_execute p params s =
     do { c \<leftarrow> deref p s;
          if hasUserSet c
          then send_to p (cat ['':server 462 '', displayName c, '' :You may not reregister'', crlf]) s
          else if length params < 4
          then send_to p (cat ['':server 461 '', displayName c, '' USER :Not enough parameters'', crlf]) s
          else if \<not> isValidUsername (hd params)
          then send_to p (cat ['':server 468 '', displayName c, '' '', hd params, '' :Invalid username'', crlf]) s
          else do {
            s1 \<leftarrow> invoke (\<lambda>c. setUserSet True (setUsername (hd params) c)) p s;
            c1 \<leftarrow> deref p s1;
            if isRegistered c1 then send_to p (welcome_message c1) s1 else Some s1 } }"

section \<open>The contract\<close>

lemma pass_frame: "pc (pass_execute p params s) (handled p s)"
  unfolding pass_execute_def by (intro handled_rules) simp_all

lemma nick_frame: "pc (nick_execute p params s) (handled p s)"
  unfolding nick_execute_def by (intro handled_rules) simp_all

lemma user_frame: "pc (user_execute p params s) (handled p s)"
  unfolding user_execute_def by (intro handled_rules) simp_all

text \<open>PASS works on the client's own object only: what it makes of it.\<close>

definition pass_client :: "string \<Rightarrow> string list \<Rightarrow> client \<Rightarrow> client" where
  "pass_client pw params c =
     (if cl_passOk c
      then sendMessage (cat ['':server 462 '', displayName c, '' :You may not reregister'', crlf]) c
      else if params = [] \<or> hd params = []
      then sendMessage (cat ['':server 461 '', displayName c, '' PASS :Not enough parameters'', crlf]) c
      else if hd params = pw then c\<lparr>cl_passOk := True\<rparr>
      else let c2 = sendMessage (cat ['':server 464 '', displayName c, '' :Password incorrect'', crlf])
                      (recordFailedPassAttempt c)
           in if cl_failedPassAttempts c2 \<ge> MAX_FAILED_PASS_ATTEMPTS
              then markClosing ''too many invalid PASS attempts'' c2 else c2)"

lemma pass_execute_eval:
  "sv_heap s p = Some c \<Longrightarrow>
   pass_execute p params s =
     Some (s\<lparr>sv_heap := (sv_heap s)(p \<mapsto> pass_client (sv_password s) params c)\<rparr>)"
  by (simp add: pass_execute_def pass_client_def deref_def send_to_def invoke_def Let_def)

lemma failed_attempt:
  assumes "unat (cl_failedPassAttempts c) < 3"
  shows "unat (cl_failedPassAttempts (recordFailedPassAttempt c)) = Suc (unat (cl_failedPassAttempts c))"
proof -
  let ?n = "cl_failedPassAttempts c"
  have lt: "?n < - 1"
  proof -
    have "unat (- 1 :: 32 word) = 2 ^ 32 - 1" by (simp add: unsigned_minus_1_eq_mask mask_eq_exp_minus_1)
    then show ?thesis using assms by (simp add: word_less_nat_alt)
  qed
  then show ?thesis
    using assms by (simp add: recordFailedPassAttempt_def unat_word_ariths)
qed

lemma MAX_FAILED_unat: "n \<ge> MAX_FAILED_PASS_ATTEMPTS \<longleftrightarrow> unat n \<ge> 3"
  by (simp add: MAX_FAILED_PASS_ATTEMPTS_def word_le_nat_alt)

lemma recordFailed_fields [simp]:
  "cl_fd (recordFailedPassAttempt c) = cl_fd c" "cl_ip (recordFailedPassAttempt c) = cl_ip c"
  "cl_recvBuffer (recordFailedPassAttempt c) = cl_recvBuffer c"
  "cl_sendBuffer (recordFailedPassAttempt c) = cl_sendBuffer c"
  "cl_nickname (recordFailedPassAttempt c) = cl_nickname c"
  "cl_username (recordFailedPassAttempt c) = cl_username c"
  "cl_passOk (recordFailedPassAttempt c) = cl_passOk c"
  "cl_nickSet (recordFailedPassAttempt c) = cl_nickSet c"
  "cl_userSet (recordFailedPassAttempt c) = cl_userSet c"
  "cl_dead (recordFailedPassAttempt c) = cl_dead c"
  "cl_closing (recordFailedPassAttempt c) = cl_closing c" "cl_wire (recordFailedPassAttempt c) = cl_wire c"
  by (simp_all add: recordFailedPassAttempt_def)

lemma client_wf_record [simp]: "client_wf (recordFailedPassAttempt c) = client_wf c"
  by (simp add: client_wf_def)

lemma pass_client_kept:
  assumes server_inv: "client_inv c" and act: "\<not> cl_dead c" "\<not> cl_closing c"
  shows "kept_client c (pass_client pw params c)"
    and "cl_nickname (pass_client pw params c) = cl_nickname c"
proof -
  have less: "unat (cl_failedPassAttempts c) < 3"
    using server_inv act by (auto simp: client_inv_def attempts_wf_def)
  show "cl_nickname (pass_client pw params c) = cl_nickname c"
    by (simp add: pass_client_def Let_def)
  have wf: "client_wf c" "identity_wf c" using server_inv by (simp_all add: client_inv_def)
  consider (msg) m where "pass_client pw params c = sendMessage m c"
    | (ok) "pass_client pw params c = c\<lparr>cl_passOk := True\<rparr>"
    | (bad) m where "pass_client pw params c =
        (let c2 = sendMessage m (recordFailedPassAttempt c)
         in if cl_failedPassAttempts c2 \<ge> MAX_FAILED_PASS_ATTEMPTS
            then markClosing ''too many invalid PASS attempts'' c2 else c2)"
    unfolding pass_client_def by metis
  then show "kept_client c (pass_client pw params c)"
  proof cases
    case msg
    then show ?thesis by (simp add: sent_kept)
  next
    case ok
    then show ?thesis
      using server_inv by (auto simp: kept_client_def isRegistered_def client_inv_def client_wf_def
        identity_wf_def attempts_wf_def)
  next
    case bad
    let ?c2 = "sendMessage m (recordFailedPassAttempt c)"
    let ?c3 = "if cl_failedPassAttempts ?c2 \<ge> MAX_FAILED_PASS_ATTEMPTS
               then markClosing ''too many invalid PASS attempts'' ?c2 else ?c2"
    have c3: "pass_client pw params c = ?c3" using bad by (simp only: Let_def)
    have "client_wf ?c3" using wf by (simp add: client_wf_sendMessage)
    moreover have "identity_wf ?c3" using wf by (simp add: identity_wf_def)
    moreover have "attempts_wf ?c3"
      using failed_attempt [OF less] less by (auto simp: attempts_wf_def MAX_FAILED_unat)
    ultimately show ?thesis
      using act by (simp add: c3 kept_client_def client_inv_def isRegistered_def)
  qed
qed

lemma active_dom: "active p s \<Longrightarrow> p \<in> dom (sv_heap s)"
  by (auto simp: active_def)

lemma pass_safe:
  assumes "server_inv s" and "active p s"
  shows "wp (pass_execute p params s) server_inv"
proof -
  from assms(2) obtain c where c: "sv_heap s p = Some c" "\<not> cl_dead c" "\<not> cl_closing c"
    by (auto simp: active_def)
  note kept = pass_client_kept [OF inv_client [OF assms(1) c(1)] c(2,3)]
  show ?thesis
    using inv_update [OF assms(1) c(1) kept] by (simp add: pass_execute_eval [OF c(1)])
qed

subsection \<open>NICK\<close>

lemma nick_held_by_none:
  assumes i: "server_inv s" and ne: "n \<noteq> []"
    and free: "findClientByNick n s = Some None \<or> findClientByNick n s = Some (Some p)"
    and d: "sv_heap s q = Some d" "q \<noteq> p" "\<not> cl_dead d"
  shows "toIrcLowerCase (cl_nickname d) \<noteq> toIrcLowerCase n"
proof (rule findClientByNick_cases [OF i, of n])
  assume "n = [] \<or> (\<forall>q c. sv_heap s q = Some c \<longrightarrow> \<not> cl_dead c \<longrightarrow>
       toIrcLowerCase (cl_nickname c) \<noteq> toIrcLowerCase n)"
  then show ?thesis using ne d by blast
next
  fix r e
  assume r: "findClientByNick n s = Some (Some r)" "sv_heap s r = Some e" "\<not> cl_dead e"
    "toIrcLowerCase (cl_nickname e) = toIrcLowerCase n"
  have "cl_nickname e \<noteq> []" using r(4) ne by (metis toIrcLowerCase_Nil_iff)
  then have "r = q" if "toIrcLowerCase (cl_nickname d) = toIrcLowerCase n"
    by (rule invD(3) [OF i, unfolded nick_inv_def, rule_format, OF r(2) d(1) r(3) d(3)])
      (simp add: r(4) that)
  then show ?thesis using r(1) free d(2) by auto
qed

lemma nick_inv_put:
  assumes i: "nick_inv s"
    and other: "\<And>q d. sv_heap s q = Some d \<Longrightarrow> q \<noteq> p \<Longrightarrow> \<not> cl_dead d \<Longrightarrow>
      toIrcLowerCase (cl_nickname d) \<noteq> toIrcLowerCase (cl_nickname c)"
  shows "nick_inv (s\<lparr>sv_heap := (sv_heap s)(p \<mapsto> c)\<rparr>)" (is "nick_inv ?t")
  unfolding nick_inv_def
proof (intro allI impI)
  fix q r d e
  assume h: "sv_heap ?t q = Some d" "sv_heap ?t r = Some e" "\<not> cl_dead d" "\<not> cl_dead e"
    "cl_nickname d \<noteq> []" "toIrcLowerCase (cl_nickname d) = toIrcLowerCase (cl_nickname e)"
  consider "q = p" "r = p" | "q = p" "r \<noteq> p" | "q \<noteq> p" "r = p" | "q \<noteq> p" "r \<noteq> p" by blast
  then show "q = r"
  proof cases
    case 2
    with h other [of r e] show ?thesis by simp
  next
    case 3
    with h other [of q d] show ?thesis by simp
  next
    case 4
    then have "sv_heap s q = Some d" "sv_heap s r = Some e" using h(1,2) by simp_all
    from i [unfolded nick_inv_def, rule_format, OF this h(3-6)] show ?thesis .
  qed simp
qed

lemma nick_change_inv:
  assumes server_inv: "server_inv s" and c: "sv_heap s p = Some c" and valid: "isValidNickname n"
    and free: "findClientByNick n s = Some None \<or> findClientByNick n s = Some (Some p)"
  shows "server_inv (s\<lparr>sv_heap := (sv_heap s)(p \<mapsto> c\<lparr>cl_nickname := n, cl_nickSet := True\<rparr>)\<rparr>)"
proof (rule inv_heap_change [OF server_inv])
  let ?c = "c\<lparr>cl_nickname := n, cl_nickSet := True\<rparr>"
  have "client_inv ?c" if "client_inv c"
    using that valid by (simp add: client_inv_def client_wf_def identity_wf_def attempts_wf_def)
  then have "kept_client c ?c" "kept_client d d" for d by (simp_all add: kept_client_def isRegistered_def)
  then show "rel_option kept_client (sv_heap s q) (((sv_heap s)(p \<mapsto> ?c)) q)" for q
    using c by (cases "sv_heap s q") auto
  have "n \<noteq> []" using valid by (rule valid_nickname_chars)
  then show "nick_inv (s\<lparr>sv_heap := (sv_heap s)(p \<mapsto> ?c)\<rparr>)"
    using nick_held_by_none [OF server_inv _ free] by (intro nick_inv_put [OF invD(3) [OF server_inv]]) simp
qed

lemma nick_safe:
  assumes server_inv: "server_inv s" and act: "active p s"
  shows "wp (nick_execute p params s) server_inv"
proof -
  from act obtain c where c: "sv_heap s p = Some c" by (auto simp: active_def)
  have p: "p \<in> dom (sv_heap s)" using c by blast
  let ?t = "s\<lparr>sv_heap := (sv_heap s)(p \<mapsto> c\<lparr>cl_nickname := hd params, cl_nickSet := True\<rparr>)\<rparr>"
  have change: "wp (do {
      s2 \<leftarrow> (if isRegistered c \<and> cl_nickname c \<noteq> hd params
             then broadcastNicknameChange p (cl_nickname c) (hd params) ?t else Some ?t);
      c2 \<leftarrow> deref p s2;
      if \<not> isRegistered c \<and> isRegistered c2 then send_to p (welcome_message c2) s2 else Some s2 }) server_inv"
    if it: "server_inv ?t"
  proof (rule wp_bindI)
    have pt: "p \<in> dom (sv_heap ?t)" by simp
    show "wp (if isRegistered c \<and> cl_nickname c \<noteq> hd params
             then broadcastNicknameChange p (cl_nickname c) (hd params) ?t else Some ?t) (sent ?t)"
      using nickChange_wp [OF it pt] by simp
    fix u
    assume u: "sent ?t u"
    then have iu: "server_inv u" and pu: "p \<in> dom (sv_heap u)"
      using inv_sent [OF it] sent_fields(10) pt by blast+
    then obtain c2 where "sv_heap u p = Some c2" by blast
    then show "wp (do { c2 \<leftarrow> deref p u;
        if \<not> isRegistered c \<and> isRegistered c2 then send_to p (welcome_message c2) u else Some u }) server_inv"
      using send_inv [OF iu pu] iu by (simp add: deref_def)
  qed
  obtain r where r: "findClientByNick (hd params) s = Some r"
    using findClientByNick_spec [OF server_inv] by blast
  show ?thesis
  proof (cases "params = [] \<or> hd params = [] \<or> \<not> isValidNickname (hd params) \<or> (r \<noteq> None \<and> r \<noteq> Some p)")
    case True
    then show ?thesis
      using send_inv [OF server_inv p] r c by (auto simp: nick_execute_def deref_def)
  next
    case False
    with nick_change_inv [OF server_inv c, of "hd params"] r have "server_inv ?t" by auto
    from change [OF this] False r c show ?thesis
      by (auto simp: nick_execute_def deref_def invoke_def)
  qed
qed

subsection \<open>USER\<close>

lemma user_safe:
  assumes server_inv: "server_inv s" and act: "active p s"
  shows "wp (user_execute p params s) server_inv"
proof -
  from act obtain c where c: "sv_heap s p = Some c" by (auto simp: active_def)
  have p: "p \<in> dom (sv_heap s)" using c by blast
  let ?c = "c\<lparr>cl_username := hd params, cl_userSet := True\<rparr>"
  let ?t = "s\<lparr>sv_heap := (sv_heap s)(p \<mapsto> ?c)\<rparr>"
  show ?thesis
  proof (cases "cl_userSet c \<or> length params < 4 \<or> \<not> isValidUsername (hd params)")
    case True
    then show ?thesis using send_inv [OF server_inv p] c by (auto simp: user_execute_def deref_def)
  next
    case False
    then have "kept_client c ?c"
      by (auto simp: kept_client_def isRegistered_def client_inv_def client_wf_def identity_wf_def
          attempts_wf_def)
    then have it: "server_inv ?t" by (intro inv_update [OF server_inv c]) simp_all
    have "p \<in> dom (sv_heap ?t)" by simp
    with False c it send_inv [OF it this] show ?thesis
      by (auto simp: user_execute_def deref_def invoke_def)
  qed
qed

interpretation pass_cmd: command_handler pass_execute False
  by unfold_locales (auto intro: pass_frame pass_safe)

interpretation nick_cmd: command_handler nick_execute False
  by unfold_locales (auto intro: nick_frame nick_safe)

interpretation user_cmd: command_handler user_execute False
  by unfold_locales (auto intro: user_frame user_safe)

lemmas registration_frames [irc_frames] =
  pass_cmd.exec_frame nick_cmd.exec_frame user_cmd.exec_frame

end
