(* ===== verification/Cmd_Join.thy ===== *)
theory Cmd_Join
  imports Command_Contract
begin

text \<open>
  \<open>src/commands/Join.cpp\<close>. For each name of the list the code admits the client to the
  channel (\<open>join_admit\<close>: members, operators, invitations) and then announces it
  (\<open>join_announce\<close>: messages only); \<open>JOIN 0\<close> leaves every channel and removes the ones
  that become empty (\<open>leave_loop\<close>).
\<close>

section \<open>The code\<close>

definition user_prefix :: "client \<Rightarrow> string" where
  "user_prefix c = cat ['':'', getNickname c, ''!'', getUsername c, ''@localhost'']"

text \<open>The loop over a copy of the channel map in the \<open>JOIN 0\<close> case.\<close>

fun leave_loop :: "cptr \<Rightarrow> string list \<Rightarrow> server \<Rightarrow> server option" where
  "leave_loop p [] s = Some s"
| "leave_loop p (it # allChannels) s =
     do { ch \<leftarrow> channel_at it s;
          if isMember ch p
          then do {
            c \<leftarrow> deref p s;
            let partMsg = cat [user_prefix c, '' PART '', getName ch, '' :Left all channels'', crlf];
            s1 \<leftarrow> broadcastMessage partMsg (Some p) ch s;
            s2 \<leftarrow> send_to p partMsg s1;
            s3 \<leftarrow> invoke_channel (removeMember p) it s2;
            ch3 \<leftarrow> channel_at it s3;
            leave_loop p allChannels
              (if getMembersCount ch3 = 0 then removeChannel (getName ch3) s3 else s3) }
          else leave_loop p allChannels s }"

fun names_list :: "cptr channel \<Rightarrow> cptr list \<Rightarrow> server \<Rightarrow> string option" where
  "names_list ch [] s = Some []"
| "names_list ch (q # members) s =
     do { c \<leftarrow> deref q s;
          rest \<leftarrow> names_list ch members s;
          Some (cat [if isOperator ch q then ''@'' else [], getNickname c,
                     if members \<noteq> [] then '' '' else [], rest]) }"

definition join_admit :: "bool \<Rightarrow> cptr \<Rightarrow> string \<Rightarrow> server \<Rightarrow> server option" where
  "join_admit isNewChannel p channelName s =
     do { s1 \<leftarrow> invoke_channel (addMember p) channelName s;
          if isNewChannel then invoke_channel (addOperator p) channelName s1
          else do { ch \<leftarrow> channel_at channelName s1;
                    if isInvited ch p then invoke_channel (removeInvited p) channelName s1
                    else Some s1 } }"

definition join_announce :: "bool \<Rightarrow> cptr \<Rightarrow> string \<Rightarrow> server \<Rightarrow> server option" where
  "join_announce isNewChannel p channelName s =
     do { c \<leftarrow> deref p s;
          ch \<leftarrow> channel_at channelName s;
          let joinMsg = cat [user_prefix c, '' JOIN :'', channelName, crlf];
          s1 \<leftarrow> broadcastMessage joinMsg (Some p) ch s;
          s2 \<leftarrow> send_to p joinMsg s1;
          s3 \<leftarrow> (if isNewChannel
                 then send_to p (cat ['':server MODE '', channelName, '' +t'', crlf]) s2
                 else Some s2);
          s4 \<leftarrow> (if getTopic ch \<noteq> []
                 then send_to p (cat ['':server 332 '', getNickname c, '' '', channelName, '' :'', getTopic ch, crlf]) s3
                 else Some s3);
          namesList \<leftarrow> names_list ch (getMembers ch) s4;
          s5 \<leftarrow> send_to p (cat ['':server 353 '', getNickname c, '' = '', channelName, '' :'', namesList, crlf]) s4;
          send_to p (cat ['':server 366 '', getNickname c, '' '', channelName, '' :End of /NAMES list'', crlf]) s5 }"

definition join_enter :: "bool \<Rightarrow> cptr \<Rightarrow> string \<Rightarrow> server \<Rightarrow> server option" where
  "join_enter isNewChannel p channelName s =
     do { s1 \<leftarrow> join_admit isNewChannel p channelName s; join_announce isNewChannel p channelName s1 }"

text \<open>One round of the loop over the channel names.\<close>

definition join_one :: "cptr \<Rightarrow> string \<Rightarrow> string \<Rightarrow> server \<Rightarrow> server option" where
  "join_one p channelName providedKey s =
     do { c \<leftarrow> deref p s;
          if \<not> isValidChannelName channelName
          then send_to p (cat ['':server 403 '', getNickname c, '' '', channelName, '' :No such channel'', crlf]) s
          else if findChannel channelName s = None
          then do { s1 \<leftarrow> invoke_channel (setTopicRestricted True) channelName (createChannel channelName s);
                    join_enter True p channelName s1 }
          else do {
            ch \<leftarrow> channel_at channelName s;
            if isMember ch p then Some s
            else if getPassword ch \<noteq> [] \<and> getPassword ch \<noteq> providedKey
            then send_to p (cat ['':server 475 '', getNickname c, '' '', channelName,
                                 '' :Cannot join channel (+k) - bad key'', crlf]) s
            else if isInviteOnly ch \<and> \<not> isInvited ch p
            then send_to p (cat ['':server 473 '', getNickname c, '' '', channelName,
                                 '' :Cannot join channel (+i) - you must be invited'', crlf]) s
            else if getUserLimit ch > 0 \<and> getMembersCount ch \<ge> getUserLimit ch
            then send_to p (cat ['':server 471 '', getNickname c, '' '', channelName,
                                 '' :Cannot join channel (+l) - channel is full'', crlf]) s
            else join_enter False p channelName s } }"

text \<open>\<open>keys[i]\<close> where there is one, the empty string otherwise.\<close>

fun join_loop :: "cptr \<Rightarrow> string list \<Rightarrow> string list \<Rightarrow> server \<Rightarrow> server option" where
  "join_loop p [] keys s = Some s"
| "join_loop p (channelName # channels) keys s =
     do { s' \<leftarrow> join_one p channelName (case keys of [] \<Rightarrow> [] | key # _ \<Rightarrow> key) s;
          join_loop p channels (tl keys) s' }"

definition join_execute :: "cptr \<Rightarrow> string list \<Rightarrow> server \<Rightarrow> server option" where
  "join_execute p params s =
     do { c \<leftarrow> deref p s;
          if params = []
          then send_to p (cat ['':server 461 '', getNickname c, '' JOIN :Not enough parameters'', crlf]) s
          else if hd params = ''0'' then leave_loop p (om_keys (getChannels s)) s
          else join_loop p (splitString (hd params) CHR '','')
                 (if length params > 1 then splitString (params ! 1) CHR '','' else []) s }"

section \<open>What the code changes outside the channels\<close>

lemma leave_loop_frame: "pc (leave_loop p it s) (handled q s)"
proof (induction it arbitrary: s)
  case (Cons n it)
  have rest: "pc (leave_loop p it (if b then removeChannel m t else t)) (handled q t)" for b m t
    by (rule handled_then [OF _ Cons.IH]) simp
  show ?case
    unfolding leave_loop.simps by (intro handled_rules rest Cons.IH)
qed simp

lemma join_admit_frame: "pc (join_admit new p n s) (handled q s)"
  unfolding join_admit_def by (intro handled_rules) simp_all

lemma sent_bind:
  "pc m (sent s) \<Longrightarrow> (\<And>t. pc (f t) (sent t)) \<Longrightarrow> pc (m \<bind> f) (sent s)"
  by (auto simp: pc_def intro: sent_trans split: Option.bind_splits)

lemmas sent_rules =
  sent_bind pc_read_client pc_read_channel pc_read_pointer pc_read_string
  pc_if pc_let pc_case_option send_to_sent broadcast_sent

lemma join_announce_sent: "pc (join_announce new p n s) (sent s)"
  unfolding join_announce_def by (intro sent_rules) simp_all

lemma join_enter_frame: "pc (join_enter new p n s) (handled q s)"
  unfolding join_enter_def
  by (intro handled_rules join_admit_frame sent_pc_handled [OF join_announce_sent])

lemma join_one_frame: "pc (join_one p n key s) (handled q s)"
proof -
  have new: "pc (do { s1 \<leftarrow> invoke_channel (setTopicRestricted True) n (createChannel n s);
                    join_enter True p n s1 }) (handled q s)"
    by (rule handled_then [OF createChannel_handled [of q s n]]) (intro handled_rules join_enter_frame)
  show ?thesis
    unfolding join_one_def by (intro handled_rules new join_enter_frame) simp_all
qed

lemma join_loop_frame: "pc (join_loop p ns keys s) (handled q s)"
proof (induction ns arbitrary: keys s)
  case (Cons n ns)
  show ?case unfolding join_loop.simps by (intro handled_bind join_one_frame Cons.IH)
qed simp

lemma join_frame: "pc (join_execute p params s) (handled q s)"
  unfolding join_execute_def by (intro handled_rules leave_loop_frame join_loop_frame)

section \<open>What the code does to the channels\<close>

text \<open>A channel after the client left it in \<open>JOIN 0\<close>: gone if it was the last member.\<close>

definition left_channel :: "cptr \<Rightarrow> cptr channel \<Rightarrow> cptr channel option" where
  "left_channel p ch =
     (if \<not> isMember ch p then Some ch
      else if ch_members (removeMember p ch) = [] then None
      else Some (removeMember p ch))"

text \<open>A channel after a request to join it, as a function of what was there.\<close>

definition may_join :: "cptr \<Rightarrow> string \<Rightarrow> cptr channel \<Rightarrow> bool" where
  "may_join p key ch \<longleftrightarrow>
     (ch_password ch = [] \<or> ch_password ch = key) \<and>
     (ch_isInviteOnly ch \<longrightarrow> isInvited ch p) \<and>
     (ch_userLimit ch > 0 \<longrightarrow> length (ch_members ch) < ch_userLimit ch)"

definition join_result :: "cptr \<Rightarrow> string \<Rightarrow> string \<Rightarrow> cptr channel option \<Rightarrow> cptr channel option" where
  "join_result p name key r =
     (if \<not> isValidChannelName name then r
      else case r of
        None \<Rightarrow> Some (addOperator p (addMember p (setTopicRestricted True (new_Channel name))))
      | Some ch \<Rightarrow>
          if isMember ch p \<or> \<not> may_join p key ch then Some ch
          else Some (removeInvited p (addMember p ch)))"

lemma reg_sent: "sent s t \<Longrightarrow> reg_ptrs t = reg_ptrs s"
  using sent_object [of s t] sent_object_rev [of s t]
  by (fastforce simp: reg_ptrs_def isRegistered_def sent_client_fields)

lemma reg_dom: "p \<in> reg_ptrs s \<Longrightarrow> p \<in> dom (sv_heap s)"
  by (auto simp: reg_ptrs_def)

lemma names_list_total:
  "set qs \<subseteq> dom (sv_heap s) \<Longrightarrow> wp (names_list ch qs s) (\<lambda>_. True)"
  by (induction qs) (auto simp: deref_def)

lemma join_announce_wp:
  assumes "server_inv s" and "p \<in> dom (sv_heap s)" and "om_find n (sv_channels s) = Some ch"
  shows "wp (join_announce new p n s) (sent s)"
proof -
  from assms(2) obtain c where c: "sv_heap s p = Some c" by blast
  have m: "set (ch_members ch) \<subseteq> dom (sv_heap s)" using inv_members(1) [OF assms(1,3)] .
  have send: "wp (send_to p x t) (sent s)" if "sent s t" for x t
    using that assms(2) sent_fields(10) [OF that]
    by (intro wp_mono [OF send_to_wp]) (auto intro: sent_trans)
  have opt: "wp (if b then send_to p x t else Some t) (sent s)" if "sent s t" for b x t
    using that send by simp
  have names: "wp (names_list ch (ch_members ch) t) (\<lambda>_. True)" if "sent s t" for t
    using names_list_total m sent_fields(10) [OF that] by simp
  show ?thesis
    unfolding join_announce_def Let_def
    by (rule deref_then [OF c], rule channel_then [OF assms(3)],
      rule wp_bindI [OF broadcast_wp [OF m]], rule wp_bindI [OF send], assumption,
      rule wp_bindI [OF opt], assumption, rule wp_bindI [OF opt], assumption,
      rule wp_bindI [OF names], assumption, rule wp_bindI [OF send], assumption, rule send)
qed

definition chan_update :: "string \<Rightarrow> cptr channel option \<Rightarrow> server \<Rightarrow> server \<Rightarrow> bool" where
  "chan_update n r s t \<longleftrightarrow>
     (\<forall>m. om_find m (sv_channels t) = (if m = n then r else om_find m (sv_channels s)))"

lemma join_admit_wp:
  assumes i: "server_inv s" and p: "p \<in> reg_ptrs s" and ch: "om_find n (sv_channels s) = Some ch"
  shows "wp (join_admit new p n s) (\<lambda>t. server_inv t \<and> sv_heap t = sv_heap s \<and>
    chan_update n (Some (if new then addOperator p (addMember p ch) else removeInvited p (addMember p ch))) s t)"
proof -
  let ?ch1 = "addMember p ch"
  let ?s1 = "s\<lparr>sv_channels := om_insert n ?ch1 (sv_channels s)\<rparr>"
  have wf: "chan_wf (dom (sv_heap s)) (reg_ptrs s) ch" "ch_name ch = n"
    using inv_channel [OF i ch] by simp_all
  have wf1: "chan_wf (dom (sv_heap s)) (reg_ptrs s) ?ch1" by (rule chan_wf_ops(1) [OF wf(1) p])
  have i1: "server_inv ?s1" using wf by (intro inv_put_channel i wf1) (simp add: addMember_def)
  let ?ch2 = "if new then addOperator p ?ch1 else removeInvited p ?ch1"
  have mem: "isMember ?ch1 p" by (simp add: isMember_iff addMember_def)
  have wf2: "chan_wf (dom (sv_heap s)) (reg_ptrs s) ?ch2" and name2: "ch_name ?ch2 = n"
    using chan_wf_ops(2,6) [OF wf1] mem wf(2)
    by (simp_all add: addMember_def addOperator_def removeInvited_def)
  have i2: "server_inv (s\<lparr>sv_channels := om_insert n ?ch2 (sv_channels s)\<rparr>)"
    by (rule inv_put_channel [OF i name2 wf2])
  have absent: "\<not> isInvited ?ch1 p \<Longrightarrow> removeInvited p ?ch1 = ?ch1"
    by (simp add: isInvited_iff removeInvited_def vec_erase_absent)
  show ?thesis
    using ch i2 absent
    by (cases new; cases "isInvited ?ch1 p")
      (auto simp: join_admit_def invoke_channel_def channel_at_def chan_update_def)
qed

lemma join_enter_wp:
  assumes i: "server_inv s" and p: "p \<in> reg_ptrs s" and ch: "om_find n (sv_channels s) = Some ch"
  shows "wp (join_enter new p n s) (\<lambda>t. server_inv t \<and>
    chan_update n (Some (if new then addOperator p (addMember p ch) else removeInvited p (addMember p ch))) s t)"
  unfolding join_enter_def
proof (rule wp_bindI [OF join_admit_wp [OF assms]])
  fix t
  let ?r = "Some (if new then addOperator p (addMember p ch) else removeInvited p (addMember p ch))"
  assume t: "server_inv t \<and> sv_heap t = sv_heap s \<and> chan_update n ?r s t"
  then have "\<exists>ch'. om_find n (sv_channels t) = Some ch'" by (simp add: chan_update_def)
  then obtain ch' where "om_find n (sv_channels t) = Some ch'" by blast
  then have "wp (join_announce new p n t) (sent t)"
    using t reg_dom [OF p] by (intro join_announce_wp) auto
  then show "wp (join_announce new p n t) (\<lambda>u. server_inv u \<and> chan_update n ?r s u)"
    by (rule wp_mono) (use t inv_sent sent_fields(6) in \<open>auto simp: chan_update_def\<close>)
qed

text \<open>One channel name of a JOIN: exactly the channel it names changes, as \<open>join_result\<close> says.\<close>

lemma join_one_wp:
  assumes i: "server_inv s" and p: "p \<in> reg_ptrs s" and cl: "clean n"
  shows "wp (join_one p n key s) (\<lambda>t. server_inv t \<and>
    chan_update n (join_result p n key (om_find n (sv_channels s))) s t)"
proof -
  from p obtain c where c: "sv_heap s p = Some c" by (auto simp: reg_ptrs_def)
  have msg: "wp (send_to p m s) (\<lambda>t. server_inv t \<and> chan_update n (om_find n (sv_channels s)) s t)" for m
    by (rule wp_mono [OF send_to_wp [OF reg_dom [OF p]]])
      (auto simp: chan_update_def sent_fields intro: inv_sent [OF i])
  show ?thesis
  proof (cases "isValidChannelName n")
    case False
    then show ?thesis using msg c by (simp add: join_one_def deref_def join_result_def)
  next
    case valid: True
    show ?thesis
    proof (cases "om_find n (sv_channels s)")
      case None
      let ?ch = "setTopicRestricted True (new_Channel n)"
      let ?s1 = "s\<lparr>sv_channels := om_insert n ?ch (sv_channels s)\<rparr>"
      have sub: "reg_ptrs s \<subseteq> dom (sv_heap s)" by (auto simp: reg_ptrs_def)
      have wf: "chan_wf (dom (sv_heap s)) (reg_ptrs s) ?ch"
        by (rule chan_wf_ops(9) [OF chan_wf_new [OF valid cl sub]])
      have i1: "server_inv ?s1"
        by (rule inv_put_channel [OF i _ wf]) (simp add: setTopicRestricted_def new_Channel_def)
      have e: "invoke_channel (setTopicRestricted True) n (createChannel n s) = Some ?s1"
        using None by (simp add: invoke_channel_def channel_at_def createChannel_def findChannel_def)
      have "wp (join_enter True p n ?s1) (\<lambda>t. server_inv t \<and>
          chan_update n (Some (addOperator p (addMember p ?ch))) ?s1 t)"
        using join_enter_wp [OF i1, of p n ?ch True] p by simp
      then show ?thesis
        using None valid c e
        by (auto simp: join_one_def irc_simps join_result_def chan_update_def
            elim: wp_mono)
    next
      case (Some ch)
      have "wp (join_enter False p n s) (\<lambda>t. server_inv t \<and>
          chan_update n (Some (removeInvited p (addMember p ch))) s t)"
        using join_enter_wp [OF i p Some, of False] by simp
      moreover have "chan_update n (Some ch) s s" using Some by (simp add: chan_update_def)
      ultimately show ?thesis
        using msg valid c i Some
        by (auto simp: join_one_def irc_simps join_result_def
            may_join_def getMembersCount_def)
    qed
  qed
qed

section \<open>Who hears of it\<close>

definition join_message :: "client \<Rightarrow> string \<Rightarrow> string" where
  "join_message c n = cat [user_prefix c, '' JOIN :'', n, crlf]"

lemma join_announce_others:
  assumes i: "server_inv s" and c: "sv_heap s p = Some c" and ch: "om_find n (sv_channels s) = Some ch"
  shows "pc (join_announce new p n s)
    (only_own p (queue (join_message c n) {q \<in> set (ch_members ch). Some q \<noteq> Some p} s))"
proof -
  have b: "broadcastMessage (join_message c n) (Some p) ch s =
      Some (queue (join_message c n) {q \<in> set (ch_members ch). Some q \<noteq> Some p} s)"
    by (rule broadcast_queue [OF inv_distinct_members [OF i ch] inv_members(1) [OF i ch]])
  show ?thesis
    using c ch b unfolding join_announce_def join_message_def [symmetric]
    by (simp add: irc_simps Let_def del: pc_bind) (intro own_rules, simp_all)
qed

lemma join_enter_others:
  assumes i: "server_inv s" and c: "sv_heap s p = Some c" and p: "p \<in> reg_ptrs s"
    and ch: "om_find n (sv_channels s) = Some ch"
  shows "pc (join_enter new p n s) (only_own p (queue (join_message c n) (set (ch_members ch)) s))"
proof -
  let ?ch' = "if new then addOperator p (addMember p ch) else removeInvited p (addMember p ch)"
  have mem: "{q \<in> set (ch_members ?ch'). Some q \<noteq> Some p} = set (ch_members ch) - {p}"
    by (auto simp: channel_op_defs)
  from join_admit_wp [OF i p ch, of new] obtain t where t: "join_admit new p n s = Some t" "server_inv t"
    "sv_heap t = sv_heap s" "chan_update n (Some ?ch') s t" by (rule wpE) blast
  have "om_find n (sv_channels t) = Some ?ch'" using t(4) by (simp add: chan_update_def)
  from join_announce_others [OF t(2) _ this, of p c new] c t(3)
  have "pc (join_announce new p n t) (only_own p (queue (join_message c n) (set (ch_members ch) - {p}) t))"
    by (simp only: mem)
  then show ?thesis
    using t(1,3) by (auto simp: join_enter_def elim!: pc_mono simp: only_own_def queue_heap)
qed

definition join_audience :: "cptr \<Rightarrow> string \<Rightarrow> string \<Rightarrow> cptr channel option \<Rightarrow> cptr set" where
  "join_audience p n key r =
     (case r of
        None \<Rightarrow> {}
      | Some ch \<Rightarrow> if isValidChannelName n \<and> \<not> isMember ch p \<and> may_join p key ch then set (ch_members ch) else {})"

lemma join_one_others:
  assumes i: "server_inv s" and c: "sv_heap s p = Some c" and p: "p \<in> reg_ptrs s" and n: "clean n"
  shows "pc (join_one p n key s)
    (only_own p (queue (join_message c n) (join_audience p n key (om_find n (sv_channels s))) s))"
proof (cases "om_find n (sv_channels s)")
  case None
  show ?thesis
  proof (cases "isValidChannelName n")
    case False
    then show ?thesis using c None send_own by (simp add: join_one_def deref_def join_audience_def)
  next
    case True
    let ?new = "setTopicRestricted True (new_Channel n) :: cptr channel"
    let ?s = "s\<lparr>sv_channels := om_insert n ?new (sv_channels s)\<rparr>"
    have wf: "chan_wf (dom (sv_heap s)) (reg_ptrs s) ?new"
      using reg_dom by (intro chan_wf_ops(9) chan_wf_new [OF True n]) auto
    have "server_inv ?s"
      by (rule inv_put_channel [OF i _ wf]) (simp add: setTopicRestricted_def new_Channel_def)
    then have "pc (join_enter True p n ?s) (only_own p (queue (join_message c n) (set (ch_members ?new)) ?s))"
      using c p by (intro join_enter_others) simp_all
    moreover have "set (ch_members ?new) = {}" by (simp add: setTopicRestricted_def new_Channel_def)
    ultimately have "pc (join_enter True p n ?s) (only_own p ?s)" by (simp only: queue_empty)
    then have "pc (join_enter True p n ?s) (only_own p s)"
      by (rule pc_mono) (simp add: only_own_def)
    then show ?thesis
      using c None True
      by (simp add: join_one_def irc_simps createChannel_def invoke_channel_def
          channel_at_def join_audience_def)
  qed
next
  case (Some ch)
  show ?thesis
  proof (cases "isValidChannelName n \<and> \<not> isMember ch p \<and> may_join p key ch")
    case True
    then show ?thesis
      using c Some join_enter_others [OF i c p Some, of False]
      by (auto simp: join_one_def irc_simps join_audience_def may_join_def
          getMembersCount_def)
  next
    case False
    then have "join_audience p n key (Some ch) = {}" by (auto simp: join_audience_def)
    moreover have "pc (join_one p n key s) (only_own p s)"
      using c Some False send_own
      by (auto simp: join_one_def irc_simps may_join_def getMembersCount_def)
    ultimately show ?thesis by (simp add: Some)
  qed
qed

section \<open>The whole command\<close>

lemma wp_handled_reg: "wp m Q \<Longrightarrow> pc m (handled p s) \<Longrightarrow> wp m (\<lambda>t. Q t \<and> reg_ptrs s \<subseteq> reg_ptrs t)"
proof -
  assume w: "wp m Q" and h: "pc m (handled p s)"
  have "reg_ptrs s \<subseteq> reg_ptrs t" if t: "handled p s t" for t
  proof
    fix q
    assume "q \<in> reg_ptrs s"
    then obtain c where c: "sv_heap s q = Some c" "isRegistered c" by (auto simp: reg_ptrs_def)
    have "\<exists>c'. sv_heap t q = Some c' \<and> grown_client c c'"
      using handled_own [OF t] handled_other [OF t] c(1) sent_grown by (cases "q = p") blast+
    with c(2) show "q \<in> reg_ptrs t"
      by (auto simp: reg_ptrs_def grown_client_def risen_client_def isRegistered_def)
  qed
  then show ?thesis using wp_pc [OF w h] by (blast intro: wp_mono)
qed

lemma join_loop_safe:
  "server_inv s \<Longrightarrow> p \<in> reg_ptrs s \<Longrightarrow> list_all clean ns \<Longrightarrow> wp (join_loop p ns keys s) server_inv"
proof (induction ns arbitrary: keys s)
  case (Cons n ns)
  let ?k = "case keys of [] \<Rightarrow> [] | key # _ \<Rightarrow> key"
  have "wp (join_one p n ?k s) (\<lambda>t. (server_inv t \<and>
      chan_update n (join_result p n ?k (om_find n (sv_channels s))) s t) \<and> reg_ptrs s \<subseteq> reg_ptrs t)"
    using Cons.prems by (intro wp_handled_reg [OF join_one_wp join_one_frame]) simp_all
  then show ?case
    unfolding join_loop.simps
    by (rule wp_bindI) (use Cons in auto)
qed simp

text \<open>Leaving one channel: the messages, the removal, the destruction of an empty channel.\<close>

definition leave_one :: "cptr \<Rightarrow> string \<Rightarrow> server \<Rightarrow> server option" where
  "leave_one p it s = leave_loop p [it] s"

lemma leave_loop_Cons: "leave_loop p (n # it) s = do { t \<leftarrow> leave_one p n s; leave_loop p it t }"
proof -
  show ?thesis
    by (cases "channel_at n s"; cases "deref p s") (simp_all add: leave_one_def Let_def bind_assoc)
qed

lemma leave_one_wp:
  assumes i: "server_inv s" and p: "p \<in> dom (sv_heap s)" and ch: "om_find n (sv_channels s) = Some ch"
  shows "wp (leave_one p n s) (\<lambda>t. server_inv t \<and> p \<in> dom (sv_heap t) \<and> chan_update n (left_channel p ch) s t)"
proof (cases "isMember ch p")
  case False
  then show ?thesis
    using i p ch by (auto simp: leave_one_def channel_at_def left_channel_def chan_update_def)
next
  case True
  from p obtain c where c: "sv_heap s p = Some c" by blast
  let ?m = "cat [user_prefix c, '' PART '', ch_name ch, '' :Left all channels'', crlf]"
  have mem: "set (ch_members ch) \<subseteq> dom (sv_heap s)" using inv_members(1) [OF i ch] .
  let ?ch = "removeMember p ch"
  let ?F = "\<lambda>s2. do { s3 \<leftarrow> invoke_channel (removeMember p) n s2; ch3 \<leftarrow> channel_at n s3;
      Some (if getMembersCount ch3 = 0 then removeChannel (ch_name ch3) s3 else s3) }"
  have rest: "wp (?F s2) (\<lambda>t. server_inv t \<and> p \<in> dom (sv_heap t) \<and> chan_update n (left_channel p ch) s t)"
    if s2: "sent s s2" for s2
  proof -
    have i2: "server_inv s2" by (rule inv_sent [OF i s2])
    have ch2: "om_find n (sv_channels s2) = Some ch" using ch sent_fields(6) [OF s2] by simp
    let ?s3 = "s2\<lparr>sv_channels := om_insert n ?ch (sv_channels s2)\<rparr>"
    have wf: "ch_name ch = n" "chan_wf (dom (sv_heap s2)) (reg_ptrs s2) ch"
      using inv_channel [OF i2 ch2] by simp_all
    have i3: "server_inv ?s3"
      using wf(1) by (intro inv_put_channel i2 chan_wf_ops(4) wf(2)) simp
    have srt: "om_sorted (sv_channels s2)" using invD(2) [OF i2] by (simp add: chan_inv_def)
    have e: "?F s2 = Some (if ch_members ?ch = [] then removeChannel n ?s3 else ?s3)"
      using ch2 wf(1) by (simp add: invoke_channel_def channel_at_def getMembersCount_def)
    have "server_inv (removeChannel n ?s3)" by (rule inv_removeChannel [OF i3])
    moreover have "sv_heap (removeChannel n ?s3) = sv_heap s2"
      "sv_channels (removeChannel n ?s3) = om_erase n (om_insert n ?ch (sv_channels s2))"
      by (simp_all add: removeChannel_def findChannel_def)
    moreover have "om_find m (om_erase n (om_insert n ?ch (sv_channels s2))) =
        (if m = n then None else om_find m (sv_channels s2))" for m
      using srt by (simp add: om_find_erase)
    ultimately show ?thesis
      using i3 p True sent_fields(6,10) [OF s2]
      by (auto simp: e left_channel_def chan_update_def)
  qed
  have "wp (do { s1 \<leftarrow> broadcastMessage ?m (Some p) ch s; s2 \<leftarrow> send_to p ?m s1; ?F s2 })
      (\<lambda>t. server_inv t \<and> p \<in> dom (sv_heap t) \<and> chan_update n (left_channel p ch) s t)"
  proof (rule broadcast_then [OF mem])
    fix s1
    assume s1: "sent s s1"
    show "wp (do { s2 \<leftarrow> send_to p ?m s1; ?F s2 })
      (\<lambda>t. server_inv t \<and> p \<in> dom (sv_heap t) \<and> chan_update n (left_channel p ch) s t)"
    proof (rule send_then)
      show "p \<in> dom (sv_heap s1)" using p sent_fields(10) [OF s1] by simp
    qed (rule rest [OF sent_trans [OF s1]])
  qed
  then show ?thesis
    using True ch c by (simp add: leave_one_def channel_at_def deref_def Let_def)
qed

lemma leave_loop_wp:
  assumes "server_inv s" and "p \<in> dom (sv_heap s)" and "distinct it"
    and "\<And>n. n \<in> set it \<Longrightarrow> om_find n (sv_channels s) \<noteq> None"
  shows "wp (leave_loop p it s) (\<lambda>t. server_inv t \<and>
    (\<forall>n. om_find n (sv_channels t) =
       (if n \<in> set it then om_find n (sv_channels s) \<bind> left_channel p else om_find n (sv_channels s))))"
  using assms
proof (induction it arbitrary: s)
  case (Cons n it)
  from Cons.prems(4) [of n] obtain ch where ch: "om_find n (sv_channels s) = Some ch" by auto
  have step: "wp (leave_one p n s)
      (\<lambda>t. server_inv t \<and> p \<in> dom (sv_heap t) \<and> chan_update n (left_channel p ch) s t)"
    by (rule leave_one_wp [OF Cons.prems(1,2) ch])
  show ?case
    unfolding leave_loop_Cons
  proof (rule wp_bindI [OF step])
    fix t
    assume t: "server_inv t \<and> p \<in> dom (sv_heap t) \<and> chan_update n (left_channel p ch) s t"
    have look: "om_find m (sv_channels t) = (if m = n then left_channel p ch else om_find m (sv_channels s))" for m
      using t by (simp add: chan_update_def)
    have "om_find m (sv_channels t) \<noteq> None" if "m \<in> set it" for m
      using that Cons.prems(3) Cons.prems(4) [of m] look by auto
    then have "wp (leave_loop p it t) (\<lambda>u. server_inv u \<and>
      (\<forall>m. om_find m (sv_channels u) =
       (if m \<in> set it then om_find m (sv_channels t) \<bind> left_channel p else om_find m (sv_channels t))))"
      using t Cons.prems(3) by (intro Cons.IH) auto
    then show "wp (leave_loop p it t) (\<lambda>u. server_inv u \<and>
      (\<forall>m. om_find m (sv_channels u) =
       (if m \<in> set (n # it) then om_find m (sv_channels s) \<bind> left_channel p
        else om_find m (sv_channels s))))"
      by (rule wp_mono) (use Cons.prems(3) ch look in auto)
  qed
qed simp

text \<open>\<open>JOIN 0\<close>: every channel of the server is as if the client had left it.\<close>

lemma leave_all_wp:
  assumes "server_inv s" and "p \<in> dom (sv_heap s)"
  shows "wp (leave_loop p (om_keys (sv_channels s)) s) (\<lambda>t. server_inv t \<and>
    (\<forall>n. om_find n (sv_channels t) = om_find n (sv_channels s) \<bind> left_channel p))"
proof -
  have srt: "om_sorted (sv_channels s)" using invD(2) [OF assms(1)] by (simp add: chan_inv_def)
  have d: "distinct (om_keys (sv_channels s))" by (rule om_values_keys_distinct [OF srt])
  have pres: "om_find n (sv_channels s) \<noteq> None \<longleftrightarrow> n \<in> set (om_keys (sv_channels s))" for n
    by (simp add: om_find_None)
  show ?thesis
  proof (rule wp_mono [OF leave_loop_wp [OF assms d]])
    show "n \<in> set (om_keys (sv_channels s)) \<Longrightarrow> om_find n (sv_channels s) \<noteq> None" for n
      using pres by simp
    fix t
    assume t: "server_inv t \<and> (\<forall>n. om_find n (sv_channels t) =
       (if n \<in> set (om_keys (sv_channels s)) then om_find n (sv_channels s) \<bind> left_channel p
        else om_find n (sv_channels s)))"
    have "om_find n (sv_channels t) = om_find n (sv_channels s) \<bind> left_channel p" for n
      using t pres [of n] by (cases "om_find n (sv_channels s)") auto
    then show "server_inv t \<and> (\<forall>n. om_find n (sv_channels t) = om_find n (sv_channels s) \<bind> left_channel p)"
      using t by simp
  qed
qed

section \<open>The contract\<close>

lemma clean_split: "clean str \<Longrightarrow> list_all clean (splitString str d)"
  using split_loop_tokens [of _ d str] by (auto simp: splitString_def list_all_iff clean_iff)

lemma join_safe:
  assumes "server_inv s" and "p \<in> reg_ptrs s" and "list_all clean params"
  shows "wp (join_execute p params s) server_inv"
proof -
  have p: "p \<in> dom (sv_heap s)" by (rule reg_dom [OF assms(2)])
  then obtain c where c: "sv_heap s p = Some c" by blast
  show ?thesis
  proof (cases "params = []")
    case True
    then show ?thesis using send_inv [OF assms(1) p] c by (simp add: join_execute_def deref_def)
  next
    case False
    then have "clean (hd params)" using assms(3) by (cases params) simp_all
    then have "wp (join_loop p (splitString (hd params) CHR '','') keys s) server_inv" for keys
      by (intro join_loop_safe assms clean_split)
    moreover have "wp (leave_loop p (om_keys (sv_channels s)) s) server_inv"
      by (rule wp_mono [OF leave_all_wp [OF assms(1) p]]) simp
    ultimately show ?thesis using False c by (simp add: join_execute_def deref_def)
  qed
qed

interpretation join_cmd: command_handler join_execute True
  by unfold_locales (auto intro: join_frame join_safe)

lemmas join_frames [irc_frames] =
  join_cmd.exec_frame

end
