(* ===== verification/Cmd_Channel_Admin.thy ===== *)
theory Cmd_Channel_Admin
  imports Cmd_Join
begin

text \<open>
  The commands that work on one channel: \<open>src/commands/Kick.cpp\<close>, \<open>InviteCommand.cpp\<close>
  and \<open>TopicCommand.cpp\<close>. For each: the code, its frame, its effect on the channels as a
  pure function of the channel found, and the contract.
\<close>

section \<open>KICK\<close>

text \<open>The file's own copy of \<open>splitString\<close>, the same code as in \<open>Join.cpp\<close>.\<close>

abbreviation kick_splitString :: "string \<Rightarrow> char \<Rightarrow> string list" where "kick_splitString \<equiv> splitString"

definition kick_one :: "cptr \<Rightarrow> string \<Rightarrow> string \<Rightarrow> string \<Rightarrow> server \<Rightarrow> server option" where
  "kick_one p channelName targetNick reason s =
     do { c \<leftarrow> deref p s;
          if findChannel channelName s = None
          then send_to p (cat ['':server 403 '', getNickname c, '' '', channelName, '' :No such channel'', crlf]) s
          else do {
            ch \<leftarrow> channel_at channelName s;
            if \<not> isMember ch p
            then send_to p (cat ['':server 442 '', getNickname c, '' '', channelName,
                                 '' :You''@ [CHR 0x27] @ ''re not on that channel'', crlf]) s
            else if \<not> isOperator ch p
            then send_to p (cat ['':server 482 '', getNickname c, '' '', channelName,
                                 '' :You''@ [CHR 0x27] @ ''re not channel operator'', crlf]) s
            else do {
              targetClient \<leftarrow> findClientByNick targetNick s;
              case targetClient of
                None \<Rightarrow> send_to p (cat ['':server 441 '', getNickname c, '' '', targetNick, '' '', channelName,
                                      '' :They aren''@ [CHR 0x27] @ ''t on that channel'', crlf]) s
              | Some q \<Rightarrow>
                  if \<not> isMember ch q
                  then send_to p (cat ['':server 441 '', getNickname c, '' '', targetNick, '' '', channelName,
                                      '' :They aren''@ [CHR 0x27] @ ''t on that channel'', crlf]) s
                  else do {
                    let msgToSend = cat [user_prefix c, '' KICK '', channelName, '' '', targetNick, '' :'', reason, crlf];
                    s1 \<leftarrow> broadcastMessage msgToSend (Some p) ch s;
                    s2 \<leftarrow> send_to p msgToSend s1;
                    invoke_channel (removeMember q) channelName s2 } } } }"

text \<open>The loop over the users; a single channel name serves for all of them.\<close>

fun kick_loop :: "cptr \<Rightarrow> string list \<Rightarrow> nat \<Rightarrow> string list \<Rightarrow> string \<Rightarrow> server \<Rightarrow> server option" where
  "kick_loop p channels i [] reason s = Some s"
| "kick_loop p channels i (targetNick # users) reason s =
     do { s' \<leftarrow> kick_one p (if length channels = 1 then channels ! 0 else channels ! i) targetNick reason s;
          kick_loop p channels (Suc i) users reason s' }"

definition kick_execute :: "cptr \<Rightarrow> string list \<Rightarrow> server \<Rightarrow> server option" where
  "kick_execute p params s =
     do { c \<leftarrow> deref p s;
          if length params < 2
          then send_to p (cat ['':server 461 '', getNickname c, '' KICK :Not enough parameters'', crlf]) s
          else do {
            let channels = kick_splitString (params ! 0) CHR '','';
            let users = kick_splitString (params ! 1) CHR '','';
            let reason = (if length params > 2 then params ! 2 else ''No reason given'');
            if length channels \<noteq> 1 \<and> length channels \<noteq> length users
            then send_to p (cat ['':server 461 '', getNickname c, '' KICK :Not enough parameters'', crlf]) s
            else kick_loop p channels 0 users reason s } }"

section \<open>INVITE\<close>

definition invite_execute :: "cptr \<Rightarrow> string list \<Rightarrow> server \<Rightarrow> server option" where
  "invite_execute p params s =
     do { c \<leftarrow> deref p s;
          if length params < 2
          then send_to p (cat ['':server 461 '', getNickname c, '' INVITE :Not enough parameters'', crlf]) s
          else do {
            let targetNick = params ! 0;
            let channelName = params ! 1;
            targetClient \<leftarrow> findClientByNick targetNick s;
            case targetClient of
              None \<Rightarrow> send_to p (cat ['':server 401 '', getNickname c, '' '', targetNick, '' :No such nick/channel'', crlf]) s
            | Some q \<Rightarrow>
                if findChannel channelName s = None
                then send_to p (cat ['':server 403 '', getNickname c, '' '', channelName, '' :No such channel'', crlf]) s
                else do {
                  ch \<leftarrow> channel_at channelName s;
                  if \<not> isMember ch p
                  then send_to p (cat ['':server 442 '', getNickname c, '' '', channelName,
                                       '' :You''@ [CHR 0x27] @ ''re not on that channel'', crlf]) s
                  else if isMember ch q
                  then send_to p (cat ['':server 443 '', getNickname c, '' '', targetNick, '' '', channelName,
                                       '' :is already on channel'', crlf]) s
                  else if isInviteOnly ch \<and> \<not> isOperator ch p
                  then send_to p (cat ['':server 482 '', getNickname c, '' '', channelName,
                                       '' :You''@ [CHR 0x27] @ ''re not channel operator'', crlf]) s
                  else do {
                    s1 \<leftarrow> invoke_channel (addInvited q) channelName s;
                    s2 \<leftarrow> send_to p (cat ['':server 341 '', getNickname c, '' '', targetNick, '' '', channelName, crlf]) s1;
                    send_to q (cat [user_prefix c, '' INVITE '', targetNick, '' :'', channelName, crlf]) s2 } } } }"

section \<open>TOPIC\<close>

definition topic_execute :: "cptr \<Rightarrow> string list \<Rightarrow> server \<Rightarrow> server option" where
  "topic_execute p params s =
     do { c \<leftarrow> deref p s;
          if length params < 1
          then send_to p (cat ['':server 461 '', getNickname c, '' TOPIC :Not enough parameters'', crlf]) s
          else do {
            let channelName = params ! 0;
            if findChannel channelName s = None
            then send_to p (cat ['':server 403 '', getNickname c, '' '', channelName, '' :No such channel'', crlf]) s
            else do {
              ch \<leftarrow> channel_at channelName s;
              if \<not> isMember ch p
              then send_to p (cat ['':server 442 '', getNickname c, '' '', channelName,
                                   '' :You''@ [CHR 0x27] @ ''re not on that channel'', crlf]) s
              else if length params = 1
              then (if getTopic ch = []
                    then send_to p (cat ['':server 331 '', getNickname c, '' '', channelName, '' :No topic is set'', crlf]) s
                    else send_to p (cat ['':server 332 '', getNickname c, '' '', channelName, '' :'', getTopic ch, crlf]) s)
              else if isTopicRestricted ch \<and> \<not> isOperator ch p
              then send_to p (cat ['':server 482 '', getNickname c, '' '', channelName,
                                   '' :You''@ [CHR 0x27] @ ''re not channel operator'', crlf]) s
              else do {
                let newTopic = params ! 1;
                s1 \<leftarrow> invoke_channel (setTopic newTopic) channelName s;
                let msg = cat [user_prefix c, '' TOPIC '', channelName, '' :'', newTopic, crlf];
                ch1 \<leftarrow> channel_at channelName s1;
                s2 \<leftarrow> broadcastMessage msg (Some p) ch1 s1;
                send_to p msg s2 } } } }"

section \<open>Frames\<close>

lemma kick_one_frame: "pc (kick_one p n t r s) (handled q s)"
  unfolding kick_one_def by (intro handled_rules)

lemma kick_loop_frame: "pc (kick_loop p chs i us r s) (handled q s)"
proof (induction us arbitrary: i s)
  case (Cons u us)
  show ?case unfolding kick_loop.simps by (intro handled_bind kick_one_frame Cons.IH)
qed simp

lemma kick_frame: "pc (kick_execute p params s) (handled q s)"
  unfolding kick_execute_def by (intro handled_rules kick_loop_frame)

lemma invite_frame: "pc (invite_execute p params s) (handled q s)"
  unfolding invite_execute_def by (intro handled_rules)

lemma topic_frame: "pc (topic_execute p params s) (handled q s)"
  unfolding topic_execute_def by (intro handled_rules)

section \<open>Messages before and after a change of one channel\<close>

lemma sent_unchanged: "server_inv s \<Longrightarrow> sent s t \<Longrightarrow> server_inv t \<and> chan_update n (om_find n (sv_channels s)) s t"
  by (simp add: inv_sent chan_update_def sent_fields)

lemma send_unchanged:
  "server_inv s \<Longrightarrow> q \<in> dom (sv_heap s) \<Longrightarrow>
   wp (send_to q m s) (\<lambda>t. server_inv t \<and> chan_update n (om_find n (sv_channels s)) s t)"
  by (rule wp_mono [OF send_to_wp]) (simp_all add: sent_unchanged)

lemma chan_update_sent: "chan_update n r s t \<Longrightarrow> sent t u \<Longrightarrow> chan_update n r s u"
  by (simp add: chan_update_def sent_fields)

lemma sent_invoke_channel:
  assumes i: "server_inv s" and st: "sent s t" and ch: "om_find n (sv_channels s) = Some ch"
    and f: "ch_name (f ch) = ch_name ch"
      "chan_wf (dom (sv_heap s)) (reg_ptrs s) ch \<Longrightarrow> chan_wf (dom (sv_heap s)) (reg_ptrs s) (f ch)"
  shows "wp (invoke_channel f n t)
    (\<lambda>u. server_inv u \<and> sv_heap u = sv_heap t \<and> chan_update n (Some (f ch)) s u)"
proof -
  have ch': "om_find n (sv_channels t) = Some ch" using ch sent_fields(6) [OF st] by simp
  have wf: "chan_wf (dom (sv_heap t)) (reg_ptrs t) (f ch)"
    using f(2) inv_channel [OF i ch] sent_fields(10) [OF st] reg_sent [OF st] by simp
  show ?thesis
    by (rule wp_mono [OF invoke_channel_wp [where f = f, OF inv_sent [OF i st] ch' f(1) wf]])
      (use sent_fields(6) [OF st] in \<open>auto simp: chan_update_def\<close>)
qed

section \<open>What KICK does to the channels\<close>

text \<open>A channel after a request of \<open>p\<close> to kick the client \<open>q\<close> (\<open>None\<close>: no such nickname).\<close>

definition kick_result :: "cptr \<Rightarrow> cptr option \<Rightarrow> cptr channel \<Rightarrow> cptr channel" where
  "kick_result p target ch =
     (case target of
        None \<Rightarrow> ch
      | Some q \<Rightarrow> if isMember ch p \<and> isOperator ch p \<and> isMember ch q then removeMember q ch else ch)"

lemma kick_one_wp:
  assumes i: "server_inv s" and p: "p \<in> dom (sv_heap s)" and q: "findClientByNick nick s = Some target"
  shows "wp (kick_one p n nick r s) (\<lambda>t. server_inv t \<and>
    chan_update n (map_option (kick_result p target) (om_find n (sv_channels s))) s t)"
proof -
  from p obtain c where c: "sv_heap s p = Some c" by blast
  note msg = send_unchanged [OF i p, of _ n]
  show ?thesis
  proof (cases "om_find n (sv_channels s)")
    case None
    then show ?thesis using msg c by (simp add: kick_one_def irc_simps)
  next
    case (Some ch)
    let ?ok = "\<exists>q. target = Some q \<and> isMember ch p \<and> isOperator ch p \<and> isMember ch q"
    show ?thesis
    proof (cases ?ok)
      case False
      then show ?thesis
        using msg c q Some
        by (cases target) (auto simp: kick_one_def irc_simps kick_result_def)
    next
      case True
      then obtain v where v: "target = Some v" "isMember ch p" "isOperator ch p" "isMember ch v" by blast
      have mem: "set (ch_members ch) \<subseteq> dom (sv_heap s)" by (rule inv_members(1) [OF i Some])
      have "wp (do { s1 \<leftarrow> broadcastMessage m (Some p) ch s; s2 \<leftarrow> send_to p m s1;
                     invoke_channel (removeMember v) n s2 })
          (\<lambda>t. server_inv t \<and> chan_update n (Some (removeMember v ch)) s t)" for m
      proof (rule broadcast_then [OF mem], rule send_then)
        show "p \<in> dom (sv_heap s1)" if "sent s s1" for s1 using p sent_fields(10) [OF that] by simp
        show "wp (invoke_channel (removeMember v) n s2)
            (\<lambda>t. server_inv t \<and> chan_update n (Some (removeMember v ch)) s t)"
          if "sent s s1" "sent s1 s2" for s1 s2
          by (rule wp_mono [OF sent_invoke_channel [OF i sent_trans [OF that] Some]])
            (auto intro: chan_wf_ops(4))
      qed
      then show ?thesis
        using v c q Some
        by (simp add: kick_one_def irc_simps kick_result_def Let_def)
    qed
  qed
qed

text \<open>A KICK that is allowed: the message for every member, then the removal.\<close>

lemma kick_one_allowed:
  assumes i: "server_inv s" and c: "sv_heap s p = Some c" and ch: "om_find n (sv_channels s) = Some ch"
    and q: "findClientByNick nick s = Some (Some q)" and may: "isOperator ch p" "isMember ch q"
  shows "kick_one p n nick reason s = Some
    ((queue (cat [user_prefix c, '' KICK '', n, '' '', nick, '' :'', reason, crlf]) (set (ch_members ch)) s)
       \<lparr>sv_channels := om_insert n (removeMember q ch) (sv_channels s)\<rparr>)"
proof -
  let ?m = "cat [user_prefix c, '' KICK '', n, '' '', nick, '' :'', reason, crlf]"
  have mem: "isMember ch p"
    using may(1) inv_members(3) [OF i ch] by (auto simp: isMember_iff isOperator_iff)
  then have "(broadcastMessage ?m (Some p) ch s \<bind> send_to p ?m) = Some (queue ?m (set (ch_members ch)) s)"
    by (intro broadcast_and_send [OF i ch]) (simp add: isMember_iff)
  then obtain s1 where s1: "broadcastMessage ?m (Some p) ch s = Some s1"
    "send_to p ?m s1 = Some (queue ?m (set (ch_members ch)) s)"
    by (cases "broadcastMessage ?m (Some p) ch s") auto
  have "findChannel n s = Some n" using ch by (simp add: findChannel_def)
  then show ?thesis
    using c ch q may mem s1 by (simp add: kick_one_def irc_simps Let_def invoke_channel_def)
qed

lemma kick_loop_safe:
  "server_inv s \<Longrightarrow> p \<in> dom (sv_heap s) \<Longrightarrow> wp (kick_loop p channels j users r s) server_inv"
proof (induction users arbitrary: j s)
  case (Cons u users)
  let ?n = "if length channels = 1 then channels ! 0 else channels ! j"
  obtain target where t: "findClientByNick u s = Some target"
    using findClientByNick_wp [OF Cons.prems(1), of u] by (auto elim: wpE)
  have "wp (kick_one p ?n u r s) (\<lambda>t. server_inv t \<and> handled p s t)"
    by (rule wp_mono [OF wp_pc [OF kick_one_wp [OF Cons.prems t] kick_one_frame [where q = p]]]) simp
  then show ?case
    unfolding kick_loop.simps
  proof (rule wp_bindI)
    fix t
    assume t: "server_inv t \<and> handled p s t"
    then have "p \<in> dom (sv_heap t)" using Cons.prems(2) handled_fields(9) [of p s t] by simp
    with t show "wp (kick_loop p channels (Suc j) users r t) server_inv" by (intro Cons.IH) simp_all
  qed
qed simp

lemma kick_safe: "server_inv s \<Longrightarrow> p \<in> dom (sv_heap s) \<Longrightarrow> wp (kick_execute p params s) server_inv"
  using send_inv [of s p] kick_loop_safe [of s p]
  by (auto simp: kick_execute_def deref_def Let_def)

section \<open>What INVITE does to the channels\<close>

definition invite_result :: "cptr \<Rightarrow> cptr \<Rightarrow> cptr channel \<Rightarrow> cptr channel" where
  "invite_result p q ch =
     (if isMember ch p \<and> \<not> isMember ch q \<and> (ch_isInviteOnly ch \<longrightarrow> isOperator ch p)
      then addInvited q ch else ch)"

lemma invite_wp:
  assumes i: "server_inv s" and p: "p \<in> dom (sv_heap s)"
    and q: "findClientByNick nick s = Some target" and params: "params = nick # n # rest"
  shows "wp (invite_execute p params s) (\<lambda>t. server_inv t \<and>
    chan_update n (case target of None \<Rightarrow> om_find n (sv_channels s)
                   | Some v \<Rightarrow> map_option (invite_result p v) (om_find n (sv_channels s))) s t)"
proof -
  from p obtain c where c: "sv_heap s p = Some c" by blast
  note msg = send_unchanged [OF i p, of _ n]
  show ?thesis
  proof (cases "target = None \<or> om_find n (sv_channels s) = None")
    case True
    then show ?thesis using msg c q params by (cases target) (auto simp: invite_execute_def irc_simps)
  next
    case False
    then obtain v ch where v: "target = Some v" and ch: "om_find n (sv_channels s) = Some ch" by auto
    have vdom: "v \<in> dom (sv_heap s)"
      using findClientByNick_wp [OF i, of nick] q v by simp
    show ?thesis
    proof (cases "isMember ch p \<and> \<not> isMember ch v \<and> (ch_isInviteOnly ch \<longrightarrow> isOperator ch p)")
      case refused: False
      then show ?thesis
        using msg c q v ch params
        by (auto simp: invite_execute_def irc_simps invite_result_def)
    next
      case ok: True
      have "wp (do { s1 \<leftarrow> invoke_channel (addInvited v) n s; s2 \<leftarrow> send_to p m1 s1; send_to v m2 s2 })
          (\<lambda>t. server_inv t \<and> chan_update n (Some (addInvited v ch)) s t)" for m1 m2
      proof (rule wp_bindI [OF sent_invoke_channel [OF i sent_refl ch]])
        show "ch_name (addInvited v ch) = ch_name ch" by (simp add: addInvited_def)
        show "chan_wf (dom (sv_heap s)) (reg_ptrs s) ch \<Longrightarrow>
            chan_wf (dom (sv_heap s)) (reg_ptrs s) (addInvited v ch)"
          by (rule chan_wf_ops(5) [OF _ vdom])
        fix s1
        assume s1: "server_inv s1 \<and> sv_heap s1 = sv_heap s \<and> chan_update n (Some (addInvited v ch)) s s1"
        show "wp (do { s2 \<leftarrow> send_to p m1 s1; send_to v m2 s2 })
            (\<lambda>t. server_inv t \<and> chan_update n (Some (addInvited v ch)) s t)"
        proof (rule send_then)
          show "p \<in> dom (sv_heap s1)" using p s1 by simp
          fix s2
          assume s2: "sent s1 s2"
          have "v \<in> dom (sv_heap s2)" using vdom s1 sent_fields(10) [OF s2] by simp
          then have "wp (send_to v m2 s2) (sent s2)" by (rule send_to_wp)
          then show "wp (send_to v m2 s2) (\<lambda>t. server_inv t \<and> chan_update n (Some (addInvited v ch)) s t)"
            by (rule wp_mono) (use s1 s2 in \<open>blast intro: inv_sent chan_update_sent sent_trans\<close>)
        qed
      qed
      then show ?thesis
        using ok v ch c q params
        by (auto simp: invite_execute_def irc_simps invite_result_def Let_def)
    qed
  qed
qed

lemma invite_safe: "server_inv s \<Longrightarrow> p \<in> dom (sv_heap s) \<Longrightarrow> wp (invite_execute p params s) server_inv"
proof (cases "length params < 2")
  case False
  assume i: "server_inv s" and p: "p \<in> dom (sv_heap s)"
  from False obtain nick n rest where params: "params = nick # n # rest"
    by (cases params; cases "tl params") auto
  obtain target where "findClientByNick nick s = Some target"
    using findClientByNick_wp [OF i, of nick] by (auto elim: wpE)
  then show ?thesis by (rule wp_mono [OF invite_wp [OF i p _ params]]) simp
next
  case True
  assume "server_inv s" and "p \<in> dom (sv_heap s)"
  then show ?thesis using True send_inv by (auto simp: invite_execute_def deref_def)
qed

section \<open>What TOPIC does to the channels\<close>

definition topic_result :: "cptr \<Rightarrow> string list \<Rightarrow> cptr channel \<Rightarrow> cptr channel" where
  "topic_result p args ch =
     (if isMember ch p \<and> args \<noteq> [] \<and> (ch_topicRestricted ch \<longrightarrow> isOperator ch p)
      then setTopic (hd args) ch else ch)"

lemma topic_wp:
  assumes i: "server_inv s" and p: "p \<in> dom (sv_heap s)" and params: "params = n # args"
    and cl: "list_all clean args"
  shows "wp (topic_execute p params s) (\<lambda>t. server_inv t \<and>
    chan_update n (map_option (topic_result p args) (om_find n (sv_channels s))) s t)"
proof -
  from p obtain c where c: "sv_heap s p = Some c" by blast
  note msg = send_unchanged [OF i p, of _ n]
  show ?thesis
  proof (cases "om_find n (sv_channels s)")
    case None
    then show ?thesis using msg c params by (simp add: topic_execute_def irc_simps)
  next
    case (Some ch)
    show ?thesis
    proof (cases "isMember ch p \<and> args \<noteq> [] \<and> (ch_topicRestricted ch \<longrightarrow> isOperator ch p)")
      case False
      then show ?thesis
        using msg c Some params
        by (auto simp: topic_execute_def irc_simps topic_result_def)
    next
      case ok: True
      then obtain topic rest where args: "args = topic # rest" by (cases args) auto
      let ?ch = "setTopic topic ch"
      have mem: "set (ch_members ?ch) \<subseteq> dom (sv_heap s)"
        using inv_members(1) [OF i Some] by (simp add: setTopic_def)
      have "wp (do { s1 \<leftarrow> invoke_channel (setTopic topic) n s; ch1 \<leftarrow> channel_at n s1;
                     s2 \<leftarrow> broadcastMessage m (Some p) ch1 s1; send_to p m s2 })
          (\<lambda>t. server_inv t \<and> chan_update n (Some ?ch) s t)" for m
      proof (rule wp_bindI [OF sent_invoke_channel [OF i sent_refl Some]])
        show "ch_name ?ch = ch_name ch" by (simp add: setTopic_def)
        show "chan_wf (dom (sv_heap s)) (reg_ptrs s) ch \<Longrightarrow> chan_wf (dom (sv_heap s)) (reg_ptrs s) ?ch"
          using cl args by (intro chan_wf_ops(7)) simp_all
        fix s1
        assume s1: "server_inv s1 \<and> sv_heap s1 = sv_heap s \<and> chan_update n (Some ?ch) s s1"
        then have ch1: "om_find n (sv_channels s1) = Some ?ch" by (simp add: chan_update_def)
        show "wp (do { ch1 \<leftarrow> channel_at n s1; s2 \<leftarrow> broadcastMessage m (Some p) ch1 s1; send_to p m s2 })
            (\<lambda>t. server_inv t \<and> chan_update n (Some ?ch) s t)"
        proof (rule channel_then [OF ch1], rule broadcast_then)
          show "set (ch_members ?ch) \<subseteq> dom (sv_heap s1)" using mem s1 by simp
          fix s2
          assume s2: "sent s1 s2"
          have "p \<in> dom (sv_heap s2)" using p s1 sent_fields(10) [OF s2] by simp
          then have "wp (send_to p m s2) (sent s2)" by (rule send_to_wp)
          then show "wp (send_to p m s2) (\<lambda>t. server_inv t \<and> chan_update n (Some ?ch) s t)"
            by (rule wp_mono) (use s1 s2 in \<open>blast intro: inv_sent chan_update_sent sent_trans\<close>)
        qed
      qed
      then show ?thesis
        using ok args Some c params
        by (auto simp: topic_execute_def irc_simps topic_result_def Let_def)
    qed
  qed
qed

lemma topic_safe:
  assumes "server_inv s" and "p \<in> dom (sv_heap s)" and "list_all clean params"
  shows "wp (topic_execute p params s) server_inv"
proof (cases params)
  case Nil
  then show ?thesis using assms send_inv by (auto simp: topic_execute_def deref_def)
next
  case (Cons n args)
  then show ?thesis using assms by (intro wp_mono [OF topic_wp [OF assms(1,2) Cons]]) auto
qed

section \<open>The contracts\<close>

interpretation kick_cmd: command_handler kick_execute True
  by unfold_locales (auto intro: kick_frame kick_safe [OF _ reg_dom])

interpretation invite_cmd: command_handler invite_execute True
  by unfold_locales (auto intro: invite_frame invite_safe [OF _ reg_dom])

interpretation topic_cmd: command_handler topic_execute True
  by unfold_locales (auto intro: topic_frame topic_safe [OF _ reg_dom])

lemmas channel_admin_frames [irc_frames] =
  kick_cmd.exec_frame invite_cmd.exec_frame topic_cmd.exec_frame

end
