(* ===== verification/Cmd_Privmsg.thy ===== *)
theory Cmd_Privmsg
  imports Cmd_Channel_Admin
begin

text \<open>
  \<open>src/commands/PrivmsgCommand.cpp\<close>: the code, its frame (messages only), who receives
  what, and the contract.
\<close>

section \<open>The code\<close>

text \<open>The file's own copy of \<open>splitString\<close>, the same code as in \<open>Join.cpp\<close>.\<close>

abbreviation privmsg_splitString :: "string \<Rightarrow> char \<Rightarrow> string list" where "privmsg_splitString \<equiv> splitString"

definition privmsg_one :: "cptr \<Rightarrow> string \<Rightarrow> string \<Rightarrow> string \<Rightarrow> server \<Rightarrow> server option" where
  "privmsg_one p senderPrefix messageText currentTarget s =
     do { let fullMessage = cat [senderPrefix, '' PRIVMSG '', currentTarget, '' :'', messageText, crlf];
          c \<leftarrow> deref p s;
          if isChannel currentTarget
          then (if findChannel currentTarget s = None
                then send_to p (cat ['':server 401 '', getNickname c, '' '', currentTarget,
                                     '' :No such nick/channel'', crlf]) s
                else do {
                  ch \<leftarrow> channel_at currentTarget s;
                  if \<not> isMember ch p
                  then send_to p (cat ['':server 404 '', getNickname c, '' '', currentTarget,
                                       '' :Cannot send to channel'', crlf]) s
                  else broadcastMessage fullMessage (Some p) ch s })
          else do {
            targetClient \<leftarrow> findClientByNick currentTarget s;
            case targetClient of
              None \<Rightarrow> send_to p (cat ['':server 401 '', getNickname c, '' '', currentTarget,
                                    '' :No such nick/channel'', crlf]) s
            | Some q \<Rightarrow> send_to q fullMessage s } }"

definition privmsg_execute :: "cptr \<Rightarrow> string list \<Rightarrow> server \<Rightarrow> server option" where
  "privmsg_execute p params s =
     do { c \<leftarrow> deref p s;
          if params = []
          then send_to p (cat ['':server 411 '', getNickname c, '' :No recipient given (PRIVMSG)'', crlf]) s
          else if length params < 2
          then send_to p (cat ['':server 412 '', getNickname c, '' :No text to send'', crlf]) s
          else for_each (privmsg_one p (user_prefix c) (params ! 1))
                 (privmsg_splitString (params ! 0) CHR '','') s }"

section \<open>Messages only\<close>

lemma privmsg_one_sent: "pc (privmsg_one p pre body tg s) (sent s)"
  unfolding privmsg_one_def by (intro sent_rules)

lemma privmsg_loop_sent: "pc (for_each (privmsg_one p pre body) tgs s) (sent s)"
  by (rule for_each_pc [OF privmsg_one_sent]) (auto intro: sent_trans)

lemma privmsg_sent: "pc (privmsg_execute p params s) (sent s)"
  unfolding privmsg_execute_def by (intro sent_rules privmsg_loop_sent)

section \<open>Who receives it\<close>

text \<open>
  The text goes to \<open>audience\<close>; when there is none the sender gets the error \<open>refusal\<close>.
\<close>

definition audience :: "cptr \<Rightarrow> string \<Rightarrow> server \<Rightarrow> cptr set option" where
  "audience p tg s =
     (if isChannel tg
      then case om_find tg (sv_channels s) of
             None \<Rightarrow> None
           | Some ch \<Rightarrow> if isMember ch p then Some (set (ch_members ch) - {p}) else None
      else case findClientByNick tg s of
             Some (Some q) \<Rightarrow> Some {q}
           | _ \<Rightarrow> None)"

definition refusal :: "string \<Rightarrow> string \<Rightarrow> server \<Rightarrow> string" where
  "refusal nick tg s =
     (if isChannel tg \<and> om_find tg (sv_channels s) \<noteq> None
      then cat ['':server 404 '', nick, '' '', tg, '' :Cannot send to channel'', crlf]
      else cat ['':server 401 '', nick, '' '', tg, '' :No such nick/channel'', crlf])"

lemma privmsg_one_eval:
  assumes i: "server_inv s" and c: "sv_heap s p = Some c"
  shows "privmsg_one p pre body tg s = Some
    (case audience p tg s of
       Some Q \<Rightarrow> queue (cat [pre, '' PRIVMSG '', tg, '' :'', body, crlf]) Q s
     | None \<Rightarrow> queue (refusal (cl_nickname c) tg s) {p} s)"
proof -
  have p: "p \<in> dom (sv_heap s)" using c by blast
  show ?thesis
  proof (cases "isChannel tg")
    case True
    show ?thesis
    proof (cases "om_find tg (sv_channels s)")
      case None
      then show ?thesis
        using True c send_to_queue [OF p]
        by (simp add: privmsg_one_def irc_simps audience_def refusal_def)
    next
      case (Some ch)
      have "{q \<in> set (ch_members ch). q \<noteq> p} = set (ch_members ch) - {p}" by auto
      then show ?thesis
        using True Some c send_to_queue [OF p]
          broadcast_queue [OF inv_distinct_members [OF i Some] inv_members(1) [OF i Some], where x = "Some p"]
        by (simp add: privmsg_one_def irc_simps audience_def refusal_def)
    qed
  next
    case False
    show ?thesis
    proof (rule findClientByNick_cases [OF i, of tg])
      assume "findClientByNick tg s = Some None"
      then show ?thesis
        using False c send_to_queue [OF p] by (simp add: privmsg_one_def deref_def audience_def refusal_def)
    next
      fix q d
      assume "findClientByNick tg s = Some (Some q)" and "sv_heap s q = Some d"
      then show ?thesis
        using False c send_to_queue [of q s] by (simp add: privmsg_one_def deref_def audience_def domI)
    qed
  qed
qed

section \<open>The contract\<close>

lemma privmsg_loop_safe:
  assumes "server_inv s" and "p \<in> dom (sv_heap s)"
  shows "wp (for_each (privmsg_one p pre body) tgs s) (\<lambda>t. server_inv t \<and> p \<in> dom (sv_heap t))"
proof (rule for_each_wp)
  fix tg t
  assume t: "server_inv t \<and> p \<in> dom (sv_heap t)"
  then obtain c where c: "sv_heap t p = Some c" by blast
  have "wp (privmsg_one p pre body tg t) (\<lambda>_. True)"
    using privmsg_one_eval [OF _ c, of pre body tg] t by simp
  from wp_pc [OF this privmsg_one_sent]
  show "wp (privmsg_one p pre body tg t) (\<lambda>u. server_inv u \<and> p \<in> dom (sv_heap u))"
    by (rule wp_mono) (use t inv_sent sent_fields(10) in auto)
qed (use assms in simp)

lemma privmsg_safe: "server_inv s \<Longrightarrow> p \<in> dom (sv_heap s) \<Longrightarrow> wp (privmsg_execute p params s) server_inv"
  using send_inv [of s p] wp_mono [OF privmsg_loop_safe [of s p]]
  by (auto simp: privmsg_execute_def deref_def)

interpretation privmsg_cmd: command_handler privmsg_execute True
  by unfold_locales (auto intro: privmsg_sent [THEN sent_pc_handled] privmsg_safe [OF _ reg_dom])

lemmas privmsg_frames [irc_frames] =
  privmsg_cmd.exec_frame

end
