(* ===== verification/Cmd_Mode.thy ===== *)
theory Cmd_Mode
  imports Cmd_Privmsg
begin

text \<open>
  \<open>src/commands/ModeCommand.cpp\<close>. The locals of the loop over the mode string are a
  record (\<open>mode_acc\<close>), and each branch of its \<open>if\<close>-chain is a definition. The effect of
  a letter on the channel and the locals is stated once more without the server, as the
  pure function \<open>mode_change\<close>; the loop is shown to compute it (\<open>mode_letter_wp\<close>), and
  what the command promises is proved about the pure function: the channel stays
  well-formed, only modes and operators change, and the announced mode string replayed
  on the channel as it was gives the channel as it is.
\<close>

section \<open>The code\<close>

record mode_acc =
  ma_isPlus :: bool
  ma_paramIndex :: nat
  ma_appliedModes :: string
  ma_appliedParams :: string
  ma_lastSign :: char

definition mode_start :: mode_acc where
  "mode_start = \<lparr>ma_isPlus = True, ma_paramIndex = 2, ma_appliedModes = [], ma_appliedParams = [],
                 ma_lastSign = NUL\<rparr>"

text \<open>The sign, where it differs from the last one written, and then the letter.\<close>

definition note_mode :: "char \<Rightarrow> char \<Rightarrow> string \<Rightarrow> mode_acc \<Rightarrow> mode_acc" where
  "note_mode sign letter args m =
     m\<lparr>ma_lastSign := sign,
       ma_appliedModes := ma_appliedModes m @ (if ma_lastSign m \<noteq> sign then [sign] else []) @ [letter],
       ma_appliedParams := ma_appliedParams m @ args\<rparr>"

definition plus_minus :: "bool \<Rightarrow> char" where
  "plus_minus isPlus = (if isPlus then CHR ''+'' else CHR ''-'')"

definition take_param :: "mode_acc \<Rightarrow> mode_acc" where
  "take_param m = m\<lparr>ma_paramIndex := Suc (ma_paramIndex m)\<rparr>"

definition mode_i :: "string \<Rightarrow> mode_acc \<Rightarrow> server \<Rightarrow> (mode_acc \<times> server) option" where
  "mode_i target m s =
     do { ch \<leftarrow> channel_at target s;
          if isInviteOnly ch \<noteq> ma_isPlus m
          then do { s1 \<leftarrow> invoke_channel (setInviteOnly (ma_isPlus m)) target s;
                    Some (note_mode (plus_minus (ma_isPlus m)) CHR ''i'' [] m, s1) }
          else Some (m, s) }"

definition mode_t :: "string \<Rightarrow> mode_acc \<Rightarrow> server \<Rightarrow> (mode_acc \<times> server) option" where
  "mode_t target m s =
     do { ch \<leftarrow> channel_at target s;
          if isTopicRestricted ch \<noteq> ma_isPlus m
          then do { s1 \<leftarrow> invoke_channel (setTopicRestricted (ma_isPlus m)) target s;
                    Some (note_mode (plus_minus (ma_isPlus m)) CHR ''t'' [] m, s1) }
          else Some (m, s) }"

definition bad_key :: "string \<Rightarrow> bool" where
  "bad_key key \<longleftrightarrow> str_find '' '' key \<noteq> None \<or> str_find [TAB] key \<noteq> None \<or> str_find '','' key \<noteq> None"

definition mode_k :: "cptr \<Rightarrow> string \<Rightarrow> string list \<Rightarrow> mode_acc \<Rightarrow> server \<Rightarrow> (mode_acc \<times> server) option" where
  "mode_k p target params m s =
     (if \<not> ma_paramIndex m < length params then Some (m, s)
      else do {
        let key = params ! ma_paramIndex m;
        let m1 = take_param m;
        ch \<leftarrow> channel_at target s;
        c \<leftarrow> deref p s;
        if ma_isPlus m
        then (if bad_key key
              then do { s1 \<leftarrow> send_to p (cat ['':server 696 '', getNickname c, '' '', target, '' k '', key,
                                '' :Invalid channel key (cannot contain spaces)'', crlf]) s;
                        Some (m1, s1) }
              else if getPassword ch = []
              then do { s1 \<leftarrow> invoke_channel (setPassword key) target s;
                        Some (note_mode CHR ''+'' CHR ''k'' (CHR '' '' # key) m1, s1) }
              else do { s1 \<leftarrow> send_to p (cat ['':server 467 '', getNickname c, '' '', target,
                                '' :Channel key already set'', crlf]) s;
                        Some (m1, s1) })
        else if getPassword ch = key
        then do { s1 \<leftarrow> invoke_channel (setPassword []) target s;
                  Some (note_mode CHR ''-'' CHR ''k'' '' *'' m1, s1) }
        else Some (m1, s) })"

definition mode_l :: "cptr \<Rightarrow> string \<Rightarrow> string list \<Rightarrow> mode_acc \<Rightarrow> server \<Rightarrow> (mode_acc \<times> server) option" where
  "mode_l p target params m s =
     do { ch \<leftarrow> channel_at target s;
          if ma_isPlus m
          then (if \<not> ma_paramIndex m < length params then Some (m, s)
                else do {
                  let limitStr = params ! ma_paramIndex m;
                  let m1 = take_param m;
                  if \<not> list_all is_digit limitStr \<or> limitStr = []
                  then do { c \<leftarrow> deref p s;
                            s1 \<leftarrow> send_to p (cat ['':server 696 '', getNickname c, '' '', target, '' l '', limitStr,
                                '' :Invalid limit mode parameter. Syntax: <limit>.'', crlf]) s;
                            Some (m1, s1) }
                  else do {
                    let limit = atoi limitStr;
                    if limit > 0 \<and> getUserLimit ch \<noteq> nat limit
                    then do { s1 \<leftarrow> invoke_channel (setUserLimit (nat limit)) target s;
                              Some (note_mode CHR ''+'' CHR ''l'' (CHR '' '' # show_nat (nat limit)) m1, s1) }
                    else Some (m1, s) } })
          else if getUserLimit ch > 0
          then do { s1 \<leftarrow> invoke_channel (setUserLimit 0) target s;
                    Some (note_mode CHR ''-'' CHR ''l'' [] m, s1) }
          else Some (m, s) }"

definition mode_o :: "cptr \<Rightarrow> string \<Rightarrow> string list \<Rightarrow> mode_acc \<Rightarrow> server \<Rightarrow> (mode_acc \<times> server) option" where
  "mode_o p target params m s =
     (if \<not> ma_paramIndex m < length params then Some (m, s)
      else do {
        let targetNick = params ! ma_paramIndex m;
        let m1 = take_param m;
        ch \<leftarrow> channel_at target s;
        c \<leftarrow> deref p s;
        targetClient \<leftarrow> findClientByNick targetNick s;
        let notThere = cat ['':server 441 '', getNickname c, '' '', targetNick, '' '', target,
                            '' :They aren''@ [CHR 0x27] @ ''t on that channel'', crlf];
        case targetClient of
          None \<Rightarrow> do { s1 \<leftarrow> send_to p notThere s; Some (m1, s1) }
        | Some q \<Rightarrow>
            if \<not> isMember ch q then do { s1 \<leftarrow> send_to p notThere s; Some (m1, s1) }
            else if isOperator ch q \<noteq> ma_isPlus m
            then do { s1 \<leftarrow> invoke_channel (if ma_isPlus m then addOperator q else removeOperator q) target s;
                      Some (note_mode (plus_minus (ma_isPlus m)) CHR ''o'' (CHR '' '' # targetNick) m1, s1) }
            else Some (m1, s) })"

definition mode_letter :: "cptr \<Rightarrow> string \<Rightarrow> string list \<Rightarrow> char \<Rightarrow> mode_acc \<Rightarrow> server \<Rightarrow> (mode_acc \<times> server) option" where
  "mode_letter p target params c m s =
     (if c = CHR ''+'' then Some (m\<lparr>ma_isPlus := True\<rparr>, s)
      else if c = CHR ''-'' then Some (m\<lparr>ma_isPlus := False\<rparr>, s)
      else if c = CHR ''i'' then mode_i target m s
      else if c = CHR ''t'' then mode_t target m s
      else if c = CHR ''k'' then mode_k p target params m s
      else if c = CHR ''l'' then mode_l p target params m s
      else if c = CHR ''o'' then mode_o p target params m s
      else Some (m, s))"

fun mode_loop :: "cptr \<Rightarrow> string \<Rightarrow> string list \<Rightarrow> string \<Rightarrow> mode_acc \<Rightarrow> server \<Rightarrow> (mode_acc \<times> server) option" where
  "mode_loop p target params [] m s = Some (m, s)"
| "mode_loop p target params (c # modeString) m s =
     do { r \<leftarrow> mode_letter p target params c m s;
          mode_loop p target params modeString (fst r) (snd r) }"

text \<open>The reply to a query.\<close>

definition active_modes :: "cptr channel \<Rightarrow> string" where
  "active_modes ch =
     (let modes = ''+'' @ (if isInviteOnly ch then ''i'' else []) @ (if isTopicRestricted ch then ''t'' else [])
                  @ (if getPassword ch \<noteq> [] then ''k'' else []) @ (if getUserLimit ch > 0 then ''l'' else [])
      in if modes = ''+'' then [] else modes)"

definition mode_arguments :: "cptr channel \<Rightarrow> string" where
  "mode_arguments ch =
     (if getPassword ch \<noteq> [] then CHR '' '' # getPassword ch else []) @
     (if getUserLimit ch > 0 then CHR '' '' # show_nat (getUserLimit ch) else [])"

text \<open>A letter that no mode has; \<open>isalpha\<close> of a negative \<open>char\<close> is taken to be 0.\<close>

definition unknown_mode :: "char \<Rightarrow> bool" where
  "unknown_mode c \<longleftrightarrow> c \<notin> set ''+-itklo'' \<and> is_alpha c"

text \<open>
  \<open>target[0]\<close>, taken to be \<open>NUL\<close> for the empty string (the parameter of \<open>MODE :\<close>). That is what the C++ library at hand and
  C++11 give; for a \<open>std::string\<close> that is not \<open>const\<close> C++98 leaves it undefined.
\<close>

definition first_char :: "string \<Rightarrow> char" where
  "first_char str = (if str = [] then NUL else hd str)"

definition mode_announce :: "cptr \<Rightarrow> string \<Rightarrow> mode_acc \<Rightarrow> server \<Rightarrow> server option" where
  "mode_announce p target m s =
     (if ma_appliedModes m = [] then Some s
      else do { c \<leftarrow> deref p s;
                ch \<leftarrow> channel_at target s;
                broadcastMessage (cat ['':'', getNickname c, ''!~'', getUsername c, ''@localhost MODE '', target, '' '',
                  ma_appliedModes m, ma_appliedParams m, crlf]) None ch s })"

definition mode_execute :: "cptr \<Rightarrow> string list \<Rightarrow> server \<Rightarrow> server option" where
  "mode_execute p params s =
     do { c \<leftarrow> deref p s;
          if params = []
          then send_to p (cat ['':server 461 '', getNickname c, '' MODE :Not enough parameters'', crlf]) s
          else do {
            let target = params ! 0;
            if first_char target \<noteq> CHR ''#'' \<and> first_char target \<noteq> CHR ''&'' then Some s
            else if findChannel target s = None
            then send_to p (cat ['':server 403 '', getNickname c, '' '', target, '' :No such channel'', crlf]) s
            else do {
              ch \<leftarrow> channel_at target s;
              if length params = 1
              then send_to p (cat ['':server 324 '', getNickname c, '' '', target, '' '', active_modes ch,
                                   mode_arguments ch, crlf]) s
              else if \<not> isOperator ch p
              then send_to p (cat ['':server 482 '', getNickname c, '' '', target,
                                   '' :You''@ [CHR 0x27] @ ''re not channel operator'', crlf]) s
              else
                case List.find unknown_mode (params ! 1) of
                  Some ltr \<Rightarrow> send_to p (cat ['':server 472 '', getNickname c, '' '', [ltr],
                                '' :is not a recognised channel mode.'', crlf]) s
                | None \<Rightarrow> do {
                    r \<leftarrow> mode_loop p target params (params ! 1) mode_start s;
                    mode_announce p target (fst r) (snd r) } } } }"

section \<open>The effect of a letter, without the server\<close>

text \<open>
  \<open>q\<close> is what the nickname of an \<open>o\<close> letter resolves to. The functions return the
  locals and the channel after the letter.
\<close>

definition mode_change ::
  "string list \<Rightarrow> cptr option \<Rightarrow> char \<Rightarrow> mode_acc \<Rightarrow> cptr channel \<Rightarrow> mode_acc \<times> cptr channel" where
  "mode_change params q c m ch =
     (let plus = ma_isPlus m; has = ma_paramIndex m < length params;
          arg = params ! ma_paramIndex m; m1 = take_param m
      in if c = CHR ''+'' then (m\<lparr>ma_isPlus := True\<rparr>, ch)
      else if c = CHR ''-'' then (m\<lparr>ma_isPlus := False\<rparr>, ch)
      else if c = CHR ''i'' then
        (if ch_isInviteOnly ch = plus then (m, ch)
         else (note_mode (plus_minus plus) CHR ''i'' [] m, setInviteOnly plus ch))
      else if c = CHR ''t'' then
        (if ch_topicRestricted ch = plus then (m, ch)
         else (note_mode (plus_minus plus) CHR ''t'' [] m, setTopicRestricted plus ch))
      else if c = CHR ''k'' \<and> has then
        (if plus \<and> \<not> bad_key arg \<and> ch_password ch = []
         then (note_mode CHR ''+'' CHR ''k'' (CHR '' '' # arg) m1, setPassword arg ch)
         else if \<not> plus \<and> ch_password ch = arg
         then (note_mode CHR ''-'' CHR ''k'' '' *'' m1, setPassword [] ch)
         else (m1, ch))
      else if c = CHR ''l'' \<and> plus \<and> has then
        (if list_all is_digit arg \<and> arg \<noteq> [] \<and> atoi arg > 0 \<and> ch_userLimit ch \<noteq> nat (atoi arg)
         then (note_mode CHR ''+'' CHR ''l'' (CHR '' '' # show_nat (nat (atoi arg))) m1, setUserLimit (nat (atoi arg)) ch)
         else (m1, ch))
      else if c = CHR ''l'' \<and> \<not> plus \<and> ch_userLimit ch > 0
      then (note_mode CHR ''-'' CHR ''l'' [] m, setUserLimit 0 ch)
      else if c = CHR ''o'' \<and> has then
        (case q of
           None \<Rightarrow> (m1, ch)
         | Some v \<Rightarrow>
             if isMember ch v \<and> isOperator ch v \<noteq> plus
             then (note_mode (plus_minus plus) CHR ''o'' (CHR '' '' # arg) m1,
                   (if plus then addOperator v else removeOperator v) ch)
             else (m1, ch))
      else (m, ch))"

section \<open>What the code changes outside the channel\<close>

lemma handled_pair: "pc m (handled p s) \<Longrightarrow> pc (do { t \<leftarrow> m; Some (a, t) }) (\<lambda>r. handled p s (snd r))"
  by (simp add: pc_def split: Option.bind_splits)

lemmas pair_rules =
  handled_pair pc_read_client pc_read_channel pc_read_pointer pc_if pc_let pc_case_option
  send_to_sent [THEN sent_pc_handled] invoke_channel_handled

text \<open>Whoever gives the command, no object changes except that messages are queued for it.\<close>

lemma mode_letter_frame: "pc (mode_letter p target params c m s) (\<lambda>r. handled q s (snd r))"
proof -
  have unchanged: "pc (Some (a, s)) (\<lambda>r. handled q s (snd r))" for a :: mode_acc by simp
  have "pc (mode_i target m s) (\<lambda>r. handled q s (snd r))"
    unfolding mode_i_def by (intro pair_rules unchanged)
  moreover have "pc (mode_t target m s) (\<lambda>r. handled q s (snd r))"
    unfolding mode_t_def by (intro pair_rules unchanged)
  moreover have "pc (mode_k p target params m s) (\<lambda>r. handled q s (snd r))"
    unfolding mode_k_def by (intro pair_rules unchanged)
  moreover have "pc (mode_l p target params m s) (\<lambda>r. handled q s (snd r))"
    unfolding mode_l_def by (intro pair_rules unchanged)
  moreover have "pc (mode_o p target params m s) (\<lambda>r. handled q s (snd r))"
    unfolding mode_o_def by (intro pair_rules unchanged)
  ultimately show ?thesis unfolding mode_letter_def by (intro pc_if unchanged)
qed

lemma mode_loop_frame: "pc (mode_loop p target params ms m s) (\<lambda>r. handled q s (snd r))"
proof (induction ms arbitrary: m s)
  case (Cons c ms)
  have "pc (mode_letter p target params c m s)
      (\<lambda>r. pc (mode_loop p target params ms (fst r) (snd r)) (\<lambda>u. handled q s (snd u)))"
    by (rule pc_mono [OF mode_letter_frame]) (rule pc_mono [OF Cons.IH], blast intro: handled_trans)
  then show ?case by simp
qed simp

lemma mode_announce_sent: "pc (mode_announce p target m s) (sent s)"
  unfolding mode_announce_def by (intro sent_rules) simp

lemma mode_frame: "pc (mode_execute p params s) (handled q s)"
proof -
  have "pc (do { r \<leftarrow> mode_loop p target params ms mode_start s; mode_announce p target (fst r) (snd r) })
      (handled q s)" for target ms
    unfolding pc_bind
    by (rule pc_mono [OF mode_loop_frame])
      (rule pc_mono [OF mode_announce_sent], blast intro: handled_trans sent_handled)
  then show ?thesis
    unfolding mode_execute_def
    by (intro pc_read_client pc_read_channel pc_if pc_let pc_case_option
        send_to_sent [THEN sent_pc_handled]) simp_all
qed

section \<open>The code computes \<open>mode_change\<close>\<close>

definition letter_post ::
  "cptr \<Rightarrow> string \<Rightarrow> server \<Rightarrow> mode_acc \<times> cptr channel \<Rightarrow> mode_acc \<times> server \<Rightarrow> bool" where
  "letter_post p target s r mt \<longleftrightarrow>
     fst mt = fst r \<and> server_inv (snd mt) \<and> p \<in> dom (sv_heap (snd mt)) \<and>
     chan_update target (Some (snd r)) s (snd mt)"

lemma letter_stay:
  assumes "server_inv s" and "p \<in> dom (sv_heap s)" and "om_find target (sv_channels s) = Some ch"
  shows "letter_post p target s (m, ch) (m, s)"
    and "wp (do { t \<leftarrow> send_to p x s; Some (m, t) }) (letter_post p target s (m, ch))"
proof -
  show "letter_post p target s (m, ch) (m, s)"
    using assms by (simp add: letter_post_def chan_update_def)
  show "wp (do { t \<leftarrow> send_to p x s; Some (m, t) }) (letter_post p target s (m, ch))"
    using assms inv_sent [OF assms(1)]
    by (intro send_then [OF assms(2)]) (auto simp: letter_post_def chan_update_def sent_fields)
qed

lemma letter_put:
  assumes "server_inv s" and "p \<in> dom (sv_heap s)" and "om_find target (sv_channels s) = Some ch"
    and "ch_name (f ch) = ch_name ch"
    and "chan_wf (dom (sv_heap s)) (reg_ptrs s) ch \<Longrightarrow> chan_wf (dom (sv_heap s)) (reg_ptrs s) (f ch)"
  shows "wp (do { t \<leftarrow> invoke_channel f target s; Some (m, t) }) (letter_post p target s (m, f ch))"
proof (rule wp_bindI [OF sent_invoke_channel [where f = f, OF assms(1) sent_refl assms(3-5)]])
  fix t
  assume "server_inv t \<and> sv_heap t = sv_heap s \<and> chan_update target (Some (f ch)) s t"
  then show "wp (Some (m, t)) (letter_post p target s (m, f ch))"
    using assms(2) by (simp add: letter_post_def)
qed

lemma mode_flags_wp:
  assumes "server_inv s" and "p \<in> dom (sv_heap s)" and "om_find target (sv_channels s) = Some ch"
  shows "wp (mode_i target m s) (letter_post p target s (mode_change params q CHR ''i'' m ch))"
    and "wp (mode_t target m s) (letter_post p target s (mode_change params q CHR ''t'' m ch))"
proof -
  have "wp (do { t \<leftarrow> invoke_channel (setInviteOnly b) target s; Some (m', t) })
      (letter_post p target s (m', setInviteOnly b ch))" for b m'
    by (rule letter_put [OF assms]) (use chan_wf_ops(8) in \<open>auto simp: setInviteOnly_def\<close>)
  then show "wp (mode_i target m s) (letter_post p target s (mode_change params q CHR ''i'' m ch))"
    using letter_stay(1) [OF assms] assms(3)
    by (auto simp: mode_i_def channel_at_def mode_change_def Let_def)
  have "wp (do { t \<leftarrow> invoke_channel (setTopicRestricted b) target s; Some (m', t) })
      (letter_post p target s (m', setTopicRestricted b ch))" for b m'
    by (rule letter_put [OF assms]) (use chan_wf_ops(9) in \<open>auto simp: setTopicRestricted_def\<close>)
  then show "wp (mode_t target m s) (letter_post p target s (mode_change params q CHR ''t'' m ch))"
    using letter_stay(1) [OF assms] assms(3)
    by (auto simp: mode_t_def channel_at_def mode_change_def Let_def)
qed

lemma mode_k_wp:
  assumes "server_inv s" and "p \<in> dom (sv_heap s)" and "om_find target (sv_channels s) = Some ch"
    and "list_all clean params"
  shows "wp (mode_k p target params m s) (letter_post p target s (mode_change params q CHR ''k'' m ch))"
proof (cases "ma_paramIndex m < length params")
  case True
  from assms(2) obtain c where c: "sv_heap s p = Some c" by blast
  let ?key = "params ! ma_paramIndex m"
  have key: "clean ?key" using assms(4) True by (simp add: list_all_length)
  have put: "wp (do { t \<leftarrow> invoke_channel (setPassword k) target s; Some (m', t) })
      (letter_post p target s (m', setPassword k ch))" if "clean k" for k m'
    by (rule letter_put [OF assms(1-3)]) (use that chan_wf_ops(10) in \<open>auto simp: setPassword_def\<close>)
  show ?thesis
    using True letter_stay [OF assms(1-3)] put [OF key] put [of "[]"] assms(3) c
    by (auto simp: mode_k_def channel_at_def deref_def mode_change_def Let_def simp del: wp_bind)
next
  case False
  then show ?thesis using letter_stay(1) [OF assms(1-3)] by (simp add: mode_k_def mode_change_def)
qed

lemma mode_l_wp:
  assumes "server_inv s" and "p \<in> dom (sv_heap s)" and "om_find target (sv_channels s) = Some ch"
  shows "wp (mode_l p target params m s) (letter_post p target s (mode_change params q CHR ''l'' m ch))"
proof -
  from assms(2) obtain c where c: "sv_heap s p = Some c" by blast
  have put: "wp (do { t \<leftarrow> invoke_channel (setUserLimit n) target s; Some (m', t) })
      (letter_post p target s (m', setUserLimit n ch))" if "n < 2 ^ 31" for n m'
    by (rule letter_put [OF assms(1-3)]) (use that chan_wf_ops(11) in \<open>auto simp: setUserLimit_def\<close>)
  have bound: "nat (atoi str) < 2 ^ 31" for str using atoi_range [of str]
    by (cases "atoi str \<ge> 0") (simp_all add: nat_less_iff)
  show ?thesis
    unfolding mode_l_def
    by (rule channel_then [OF assms(3)])
      (use letter_stay [OF assms(1-3)] put [OF bound] put [of 0] c in
        \<open>auto simp: mode_change_def Let_def deref_def\<close>)
qed

lemma mode_o_wp:
  assumes "server_inv s" and "p \<in> dom (sv_heap s)" and "om_find target (sv_channels s) = Some ch"
    and q: "findClientByNick (params ! ma_paramIndex m) s = Some q"
  shows "wp (mode_o p target params m s) (letter_post p target s (mode_change params q CHR ''o'' m ch))"
proof -
  from assms(2) obtain c where c: "sv_heap s p = Some c" by blast
  have add: "wp (do { t \<leftarrow> invoke_channel (addOperator v) target s; Some (m', t) })
      (letter_post p target s (m', addOperator v ch))" if "isMember ch v" for v m'
    by (rule letter_put [OF assms(1-3)]) (use that chan_wf_ops(2) in \<open>auto simp: addOperator_def\<close>)
  have del: "wp (do { t \<leftarrow> invoke_channel (removeOperator v) target s; Some (m', t) })
      (letter_post p target s (m', removeOperator v ch))" for v m'
    by (rule letter_put [OF assms(1-3)]) (use chan_wf_ops(3) in \<open>auto simp: removeOperator_def\<close>)
  show ?thesis
  proof (cases "ma_paramIndex m < length params")
    case True
    show ?thesis
    proof (cases q)
      case None
      then show ?thesis
        using True q c assms(3) letter_stay [OF assms(1-3)]
        by (simp add: mode_o_def mode_change_def Let_def irc_simps)
    next
      case (Some v)
      then show ?thesis
        using True q c assms(3) letter_stay [OF assms(1-3)] add [of v] del [of v]
        by (auto simp: mode_o_def mode_change_def Let_def irc_simps)
    qed
  next
    case False
    then show ?thesis using letter_stay(1) [OF assms(1-3)] by (simp add: mode_o_def mode_change_def)
  qed
qed

lemma mode_letter_wp:
  assumes "server_inv s" and "p \<in> dom (sv_heap s)" and "om_find target (sv_channels s) = Some ch"
    and "list_all clean params" and "findClientByNick (params ! ma_paramIndex m) s = Some q"
  shows "wp (mode_letter p target params c m s) (letter_post p target s (mode_change params q c m ch))"
proof -
  note rules = mode_flags_wp [OF assms(1-3), of m params q] mode_k_wp [OF assms(1-4), of m q]
    mode_l_wp [OF assms(1-3), of params m q] mode_o_wp [OF assms(1-3,5)]
  note stay = letter_stay(1) [OF assms(1-3)]
  consider "c = CHR ''i''" | "c = CHR ''t''" | "c = CHR ''k''" | "c = CHR ''l''" | "c = CHR ''o''"
    | "c \<notin> set ''itklo''" by auto
  then show ?thesis
  proof cases
    case 6
    then have "mode_change params q c m ch =
        (if c = CHR ''+'' then m\<lparr>ma_isPlus := True\<rparr> else if c = CHR ''-'' then m\<lparr>ma_isPlus := False\<rparr> else m, ch)"
      by (simp add: mode_change_def Let_def)
    with 6 stay show ?thesis by (simp add: mode_letter_def)
  qed (simp_all add: mode_letter_def rules)
qed

section \<open>Only modes and operators change\<close>

definition same_people :: "cptr channel \<Rightarrow> cptr channel \<Rightarrow> bool" where
  "same_people ch ch' \<longleftrightarrow> ch_name ch' = ch_name ch \<and> ch_topic ch' = ch_topic ch \<and>
     ch_members ch' = ch_members ch \<and> ch_invitedClients ch' = ch_invitedClients ch"

lemma mode_change_people:
  "same_people ch0 ch \<Longrightarrow> same_people ch0 (snd (mode_change params q c m ch))"
proof -
  assume a: "same_people ch0 ch"
  have ops: "same_people ch0 (setInviteOnly b ch)" "same_people ch0 (setTopicRestricted b ch)"
    "same_people ch0 (setPassword k ch)" "same_people ch0 (setUserLimit n ch)"
    "same_people ch0 (addOperator v ch)" "same_people ch0 (removeOperator v ch)" for b k n v
    using a by (simp_all add: same_people_def channel_op_defs)
  show ?thesis
    using a ops by (cases q) (simp_all add: mode_change_def Let_def)
qed

section \<open>The announced modes replayed\<close>

text \<open>
  A reader of the announcement: it carries the sign in force, the parameters not yet
  used and the channel as it knows it; operators are not tracked.
\<close>

definition replay_char :: "char \<Rightarrow> char \<times> string list \<times> 'p channel \<Rightarrow> char \<times> string list \<times> 'p channel" where
  "replay_char c st =
     (case st of (sign, args, ch) \<Rightarrow>
        if c = CHR ''+'' \<or> c = CHR ''-'' then (c, args, ch)
        else if c = CHR ''i'' then (sign, args, setInviteOnly (sign = CHR ''+'') ch)
        else if c = CHR ''t'' then (sign, args, setTopicRestricted (sign = CHR ''+'') ch)
        else if c = CHR ''k'' then (sign, tl args, setPassword (if sign = CHR ''+'' then hd args else []) ch)
        else if c = CHR ''l'' \<and> sign = CHR ''+'' then (sign, tl args, setUserLimit (decimal (hd args)) ch)
        else if c = CHR ''l'' then (sign, args, setUserLimit 0 ch)
        else if c = CHR ''o'' then (sign, tl args, ch)
        else (sign, args, ch))"

definition replay :: "string \<Rightarrow> string list \<Rightarrow> 'p channel \<Rightarrow> char \<times> string list \<times> 'p channel" where
  "replay modes args ch = fold replay_char modes (NUL, args, ch)"

text \<open>
  Every letter tells the reader something new: it changes the channel as the reader knows it. The exception is a
  \<open>k\<close> where the channel has no key: the code announces an empty key that is set there, or taken away.
\<close>

definition makes_news :: "char \<Rightarrow> 'p channel \<Rightarrow> 'p channel \<Rightarrow> bool" where
  "makes_news c ch ch' \<longleftrightarrow> (c \<in> set ''itl'' \<longrightarrow> ch' \<noteq> ch) \<and> (c = CHR ''k'' \<longrightarrow> ch' \<noteq> ch \<or> ch_password ch = [])"

fun telling :: "string \<Rightarrow> char \<times> string list \<times> 'p channel \<Rightarrow> bool" where
  "telling [] st \<longleftrightarrow> True"
| "telling (c # cs) st \<longleftrightarrow>
     makes_news c (snd (snd st)) (snd (snd (replay_char c st))) \<and> telling cs (replay_char c st)"

lemma telling_append: "telling (cs @ ds) st \<longleftrightarrow> telling cs st \<and> telling ds (fold replay_char cs st)"
  by (induction cs arbitrary: st) auto

text \<open>The locals \<open>m\<close> announce how the channel \<open>ch0\<close> became \<open>ch\<close>.\<close>

definition announced :: "cptr channel \<Rightarrow> mode_acc \<Rightarrow> cptr channel \<Rightarrow> bool" where
  "announced ch0 m ch \<longleftrightarrow>
     (\<exists>args. ma_appliedParams m = spaced args \<and>
        (\<forall>extra. telling (ma_appliedModes m) (NUL, args @ extra, ch0) \<and>
           replay (ma_appliedModes m) (args @ extra) ch0 =
             (ma_lastSign m, extra, ch\<lparr>ch_operators := ch_operators ch0\<rparr>)))"

lemma announced_start: "announced ch mode_start ch"
  by (auto simp: announced_def mode_start_def replay_def spaced_def intro: exI [of _ "[]"])

lemma announced_locals [simp]:
  "announced ch0 (take_param m) ch = announced ch0 m ch"
  "announced ch0 (m\<lparr>ma_isPlus := b\<rparr>) ch = announced ch0 m ch"
  by (simp_all add: announced_def take_param_def)

lemma replay_sign:
  "sign \<in> {CHR ''+'', CHR ''-''} \<Longrightarrow>
   fold replay_char (if lastSign \<noteq> sign then [sign] else []) (lastSign, args, ch) = (sign, args, ch)"
  "sign \<in> {CHR ''+'', CHR ''-''} \<Longrightarrow> telling (if lastSign \<noteq> sign then [sign] else []) st"
  by (auto simp: replay_char_def makes_news_def)

lemma announced_note:
  assumes a: "announced ch0 m ch" and sign: "sign \<in> {CHR ''+'', CHR ''-''}"
    and letter: "\<And>extra. replay_char letter (sign, new @ extra, ch\<lparr>ch_operators := ch_operators ch0\<rparr>) =
        (sign, extra, ch'\<lparr>ch_operators := ch_operators ch0\<rparr>)"
    and news: "makes_news letter (ch\<lparr>ch_operators := ch_operators ch0\<rparr>) (ch'\<lparr>ch_operators := ch_operators ch0\<rparr>)"
    and args: "args = spaced new"
  shows "announced ch0 (note_mode sign letter args m) ch'"
proof -
  from a obtain old where old: "ma_appliedParams m = spaced old"
    and r: "\<And>extra. fold replay_char (ma_appliedModes m) (NUL, old @ extra, ch0) =
           (ma_lastSign m, extra, ch\<lparr>ch_operators := ch_operators ch0\<rparr>)"
    and tell: "\<And>extra. telling (ma_appliedModes m) (NUL, old @ extra, ch0)"
    by (auto simp: announced_def replay_def)
  have "ma_appliedParams (note_mode sign letter args m) = spaced (old @ new)"
    by (simp add: note_mode_def old args spaced_def)
  moreover have "replay (ma_appliedModes (note_mode sign letter args m)) ((old @ new) @ extra) ch0 =
      (sign, extra, ch'\<lparr>ch_operators := ch_operators ch0\<rparr>)" for extra
    using sign letter
    by (cases "ma_lastSign m = sign") (auto simp: replay_def note_mode_def r replay_char_def)
  moreover have "telling (ma_appliedModes (note_mode sign letter args m)) (NUL, (old @ new) @ extra, ch0)" for extra
    using tell [of "new @ extra"] news
    by (simp add: note_mode_def telling_append r replay_sign [OF sign] letter del: fold_simps split del: if_split)
  ultimately show ?thesis
    unfolding announced_def by (intro exI [of _ "old @ new"]) (simp add: note_mode_def)
qed

lemma announced_operators: "announced ch0 m (ch\<lparr>ch_operators := v\<rparr>) = announced ch0 m ch"
  by (simp add: announced_def)

lemma mode_change_announced:
  assumes "announced ch0 m ch"
  shows "announced ch0 (fst (mode_change params q c m ch)) (snd (mode_change params q c m ch))"
proof -
  have s: "plus_minus b \<in> {CHR ''+'', CHR ''-''}" "(plus_minus b = CHR ''+'') = b" for b
    by (auto simp: plus_minus_def)
  note a = assms
  have take: "announced ch0 (take_param m) ch" using a by simp
  note news = makes_news_def setInviteOnly_def setTopicRestricted_def setPassword_def setUserLimit_def
  have i: "announced ch0 (note_mode (plus_minus b) CHR ''i'' [] m) (setInviteOnly b ch)" if "ch_isInviteOnly ch \<noteq> b" for b
    by (rule announced_note [OF a s(1), where new = "[]"])
      (use that in \<open>auto simp: replay_char_def spaced_def plus_minus_def news dest: arg_cong [of _ _ ch_isInviteOnly]\<close>)
  have t: "announced ch0 (note_mode (plus_minus b) CHR ''t'' [] m) (setTopicRestricted b ch)" if "ch_topicRestricted ch \<noteq> b" for b
    by (rule announced_note [OF a s(1), where new = "[]"])
      (use that in \<open>auto simp: replay_char_def spaced_def plus_minus_def news dest: arg_cong [of _ _ ch_topicRestricted]\<close>)
  have k: "announced ch0 (note_mode CHR ''+'' CHR ''k'' (CHR '' '' # key) (take_param m)) (setPassword key ch)"
    if "ch_password ch = []" for key
    by (rule announced_note [OF take, where new = "[key]"])
      (use that in \<open>auto simp: replay_char_def spaced_def news\<close>)
  have k': "announced ch0 (note_mode CHR ''-'' CHR ''k'' '' *'' (take_param m)) (setPassword [] ch)"
    by (rule announced_note [OF take, where new = "[''*'']"])
      (auto simp: replay_char_def spaced_def news dest: arg_cong [of _ _ ch_password])
  have l: "announced ch0 (note_mode CHR ''+'' CHR ''l'' (CHR '' '' # show_nat n) (take_param m)) (setUserLimit n ch)"
    if "ch_userLimit ch \<noteq> n" for n
    by (rule announced_note [OF take, where new = "[show_nat n]"])
      (use that in \<open>auto simp: replay_char_def spaced_def decimal_show_nat news dest: arg_cong [of _ _ ch_userLimit]\<close>)
  have l': "announced ch0 (note_mode CHR ''-'' CHR ''l'' [] m) (setUserLimit 0 ch)" if "0 < ch_userLimit ch"
    by (rule announced_note [OF a, where new = "[]"])
      (use that in \<open>auto simp: replay_char_def spaced_def news dest: arg_cong [of _ _ ch_userLimit]\<close>)
  have o: "announced ch0 (note_mode (plus_minus b) CHR ''o'' (CHR '' '' # nick) (take_param m)) ch" for b nick
    by (rule announced_note [OF take s(1), where new = "[nick]"])
      (auto simp: replay_char_def spaced_def plus_minus_def makes_news_def)
  show ?thesis
    using a i t k k' l l' o
    by (cases q)
      (simp_all add: mode_change_def Let_def addOperator_def removeOperator_def announced_operators)
qed

text \<open>Whatever changes the channel is noted.\<close>

definition noted :: "mode_acc \<Rightarrow> 'p channel \<Rightarrow> mode_acc \<times> 'p channel \<Rightarrow> bool" where
  "noted m ch r \<longleftrightarrow> (ma_appliedModes (fst r) = [] \<longrightarrow> ma_appliedModes m = [] \<and> snd r = ch)"

lemma noted_if: "noted m ch r \<Longrightarrow> noted m ch r' \<Longrightarrow> noted m ch (if b then r else r')"
  by simp

lemma noted_option: "noted m ch r \<Longrightarrow> (\<And>v. noted m ch (f v)) \<Longrightarrow> noted m ch (case q of None \<Rightarrow> r | Some v \<Rightarrow> f v)"
  by (cases q) simp_all

lemma noted_simps:
  "noted m ch (note_mode sign letter args m', ch')" "noted m ch (m, ch)" "noted m ch (take_param m, ch)"
  "noted m ch (m\<lparr>ma_isPlus := b\<rparr>, ch)"
  by (simp_all add: noted_def note_mode_def take_param_def)

lemma mode_change_noted: "noted m ch (mode_change params q c m ch)"
  unfolding mode_change_def Let_def by (intro noted_if noted_option noted_simps)

section \<open>The whole command\<close>

definition mode_post ::
  "cptr \<Rightarrow> string \<Rightarrow> cptr channel \<Rightarrow> server \<Rightarrow> mode_acc \<times> server \<Rightarrow> bool" where
  "mode_post p target ch0 s r \<longleftrightarrow>
     server_inv (snd r) \<and> p \<in> dom (sv_heap (snd r)) \<and>
     (\<exists>ch'. chan_update target (Some ch') s (snd r) \<and> same_people ch0 ch' \<and> announced ch0 (fst r) ch' \<and>
        (ma_appliedModes (fst r) = [] \<longrightarrow> ch' = ch0))"

lemma mode_loop_wp:
  assumes "server_inv s" and "p \<in> dom (sv_heap s)" and "om_find target (sv_channels s) = Some ch"
    and "list_all clean params" and "announced ch0 m ch" and "same_people ch0 ch"
    and "ma_appliedModes m = [] \<longrightarrow> ch = ch0"
  shows "wp (mode_loop p target params ms m s) (mode_post p target ch0 s)"
  using assms
proof (induction ms arbitrary: m s ch)
  case Nil
  then show ?case by (auto simp: mode_post_def chan_update_def)
next
  case (Cons c ms)
  obtain q where q: "findClientByNick (params ! ma_paramIndex m) s = Some q"
    by (rule wpE [OF findClientByNick_wp [OF Cons.prems(1)]])
  obtain m2 ch2 where r: "mode_change params q c m ch = (m2, ch2)" by (cases "mode_change params q c m ch")
  have r2: "announced ch0 m2 ch2" "same_people ch0 ch2" "ma_appliedModes m2 = [] \<longrightarrow> ch2 = ch0"
    using mode_change_announced [OF Cons.prems(5), of params q c] mode_change_people [OF Cons.prems(6), of params q c m]
      mode_change_noted [of m ch params q c] Cons.prems(7)
    by (simp_all add: noted_def r)
  have "wp (mode_letter p target params c m s) (letter_post p target s (m2, ch2))"
    unfolding r [symmetric] by (rule mode_letter_wp [OF Cons.prems(1-4) q])
  then show ?case
    unfolding mode_loop.simps
  proof (rule wp_bindI)
    fix mt
    assume mt: "letter_post p target s (m2, ch2) mt"
    then have "wp (mode_loop p target params ms (fst mt) (snd mt)) (mode_post p target ch0 (snd mt))"
      using Cons.prems(4) r2
      by (intro Cons.IH [where ch = ch2]) (simp_all add: letter_post_def chan_update_def)
    then show "wp (mode_loop p target params ms (fst mt) (snd mt)) (mode_post p target ch0 s)"
      by (rule wp_mono) (use mt in \<open>auto simp: mode_post_def letter_post_def chan_update_def\<close>)
  qed
qed

definition mode_message :: "client \<Rightarrow> string \<Rightarrow> mode_acc \<Rightarrow> string" where
  "mode_message c target m =
     cat ['':'', cl_nickname c, ''!~'', cl_username c, ''@localhost MODE '', target, '' '',
          ma_appliedModes m, ma_appliedParams m, crlf]"

lemma mode_announce_eval:
  assumes "server_inv s" and "sv_heap s p = Some c" and "om_find target (sv_channels s) = Some ch"
  shows "mode_announce p target m s = Some
    (if ma_appliedModes m = [] then s else queue (mode_message c target m) (set (ch_members ch)) s)"
  using assms broadcast_queue [OF inv_distinct_members [OF assms(1,3)] inv_members(1) [OF assms(1,3)], where x = None]
  by (simp add: mode_announce_def irc_simps mode_message_def)

lemma queue_sent: "Q \<subseteq> dom (sv_heap s) \<Longrightarrow> sent s (queue m Q s)"
  by (auto simp: sent_def queue_def option.rel_refl option.rel_map)

definition mode_may :: "cptr \<Rightarrow> string list \<Rightarrow> cptr channel \<Rightarrow> bool" where
  "mode_may p params ch \<longleftrightarrow> 2 \<le> length params \<and> isOperator ch p \<and> \<not> list_ex unknown_mode (params ! 1)"

text \<open>A change that is allowed: the loop runs and what it applied is announced to every member.\<close>

lemma find_unknown: "List.find P xs = None \<longleftrightarrow> \<not> list_ex P xs"
  by (auto simp: find_None_iff list_ex_iff)

lemma mode_allowed:
  assumes i: "server_inv s" and p: "p \<in> dom (sv_heap s)" and cl: "list_all clean params"
    and params: "params = target # args"
    and name: "first_char target \<in> {CHR ''#'', CHR ''&''}"
    and ch: "om_find target (sv_channels s) = Some ch" and may: "mode_may p params ch"
  obtains m u c ch' where "mode_loop p target params (params ! 1) mode_start s = Some (m, u)"
    and "sv_heap u p = Some c"
    and "mode_execute p params s = Some
           (if ma_appliedModes m = [] then u else queue (mode_message c target m) (set (ch_members ch)) u)"
    and "server_inv u" and "chan_update target (Some ch') s u"
    and "same_people ch ch'" and "announced ch m ch'" and "ma_appliedModes m = [] \<Longrightarrow> ch' = ch"
proof -
  have "same_people ch ch" by (simp add: same_people_def)
  then have "wp (mode_loop p target params (params ! 1) mode_start s) (mode_post p target ch s)"
    by (intro mode_loop_wp [OF i p ch cl announced_start]) simp_all
  then obtain m u where l: "mode_loop p target params (params ! 1) mode_start s = Some (m, u)"
    and post: "mode_post p target ch s (m, u)"
    by (auto elim: wpE)
  from post obtain c ch' where c: "sv_heap u p = Some c" and iu: "server_inv u"
    and up: "chan_update target (Some ch') s u" and people: "same_people ch ch'" and ann: "announced ch m ch'"
    and quiet: "ma_appliedModes m = [] \<Longrightarrow> ch' = ch"
    by (auto simp: mode_post_def)
  have ch': "om_find target (sv_channels u) = Some ch'" using up by (simp add: chan_update_def)
  from p obtain d where d: "sv_heap s p = Some d" by blast
  have "mode_execute p params s = mode_announce p target m u"
    using params may name ch d l find_unknown [of unknown_mode "params ! 1"]
    by (auto simp: mode_execute_def irc_simps mode_may_def Let_def)
  then show ?thesis
    using that [OF l c _ iu up people ann quiet] mode_announce_eval [OF iu c ch'] people
    by (simp add: same_people_def)
qed

text \<open>A change that is not allowed, and a query: a reply to the client.\<close>

lemma mode_not_allowed:
  assumes c: "sv_heap s p = Some c"
    and no: "\<And>ch. params \<noteq> [] \<Longrightarrow> om_find (hd params) (sv_channels s) = Some ch \<Longrightarrow> \<not> mode_may p params ch"
  shows "replied p s (mode_execute p params s)"
proof (cases "params = [] \<or> om_find (hd params) (sv_channels s) = None")
  case True
  then show ?thesis
    using replied_send c by (cases params) (auto simp: mode_execute_def irc_simps)
next
  case False
  then obtain ch where ch: "om_find (hd params) (sv_channels s) = Some ch" and ne: "params \<noteq> []" by auto
  then have may: "\<not> mode_may p params ch" using no by simp
  show ?thesis
  proof (cases "List.find unknown_mode (params ! 1)")
    case None
    then have "length params = 1 \<or> \<not> isOperator ch p"
      using may ne find_unknown [of unknown_mode "params ! 1"]
      by (cases params) (auto simp: mode_may_def Suc_le_eq)
    then show ?thesis
      using replied_send c ch ne
      by (cases params) (auto simp: mode_execute_def irc_simps Let_def)
  next
    case (Some ltr)
    then show ?thesis
      using replied_send c ch ne
      by (cases params) (auto simp: mode_execute_def irc_simps Let_def)
  qed
qed

lemma mode_refused:
  assumes p: "p \<in> dom (sv_heap s)"
    and no: "\<And>ch. params \<noteq> [] \<Longrightarrow> om_find (hd params) (sv_channels s) = Some ch \<Longrightarrow> \<not> mode_may p params ch"
  shows "wp (mode_execute p params s) (sent s)"
proof -
  from p obtain c where "sv_heap s p = Some c" by blast
  from mode_not_allowed [OF this no] obtain m Q where "Q \<subseteq> {p}" "mode_execute p params s = Some (queue m Q s)"
    by (auto simp: replied_def)
  then show ?thesis using p queue_sent [of Q s m] by auto
qed

lemma mode_safe:
  assumes i: "server_inv s" and p: "p \<in> dom (sv_heap s)" and cl: "list_all clean params"
  shows "wp (mode_execute p params s) server_inv"
proof (cases "\<exists>ch. params \<noteq> [] \<and> om_find (hd params) (sv_channels s) = Some ch \<and> mode_may p params ch")
  case False
  then have "wp (mode_execute p params s) (sent s)" by (intro mode_refused [OF p]) auto
  then show ?thesis by (rule wp_mono) (rule inv_sent [OF i])
next
  case True
  then obtain target args ch where params: "params = target # args"
    and ch: "om_find target (sv_channels s) = Some ch" and may: "mode_may p params ch"
    by (cases params) auto
  have name: "first_char target \<in> {CHR ''#'', CHR ''&''}"
    using inv_channel [OF i ch] valid_channel_isChannel [of target]
    by (auto simp: chan_wf_def isChannel_def first_char_def split: if_splits)
  show ?thesis
  proof (rule mode_allowed [OF i p cl params name ch may])
    fix m u c ch'
    assume e: "mode_execute p params s = Some
        (if ma_appliedModes m = [] then u else queue (mode_message c target m) (set (ch_members ch)) u)"
      and iu: "server_inv u" and up: "chan_update target (Some ch') s u" and people: "same_people ch ch'"
    have "om_find target (sv_channels u) = Some ch'" using up by (simp add: chan_update_def)
    then have "set (ch_members ch) \<subseteq> dom (sv_heap u)"
      using inv_members(1) [OF iu, of target ch'] people by (simp add: same_people_def)
    then show ?thesis using e iu inv_sent [OF iu queue_sent] by simp
  qed
qed

interpretation mode_cmd: command_handler mode_execute True
  by unfold_locales (auto intro: mode_frame mode_safe [OF _ reg_dom])

lemmas mode_frames [irc_frames] =
  mode_cmd.exec_frame

end
