(* ===== verification/Dispatch.thy ===== *)
theory Dispatch
  imports Cmd_Registration Cmd_Mode
begin

text \<open>
  \<open>Server::processLine\<close>, \<open>handleClientRead\<close> and \<open>handleClientWrite\<close> of
  \<open>src/server/Server.cpp\<close>: from the bytes of a socket to the command that is run, and
  from the send buffer back to the socket. What \<open>recv()\<close> and \<open>send()\<close> return is an
  argument. The calls through \<open>Command*\<close> go through the contract \<open>command_handler\<close>,
  which every command's theory has interpreted.
\<close>

section \<open>The system calls\<close>

text \<open>The values of \<open>errno\<close> that the code tells apart; any other carries its \<open>strerror\<close> text.\<close>

datatype errno = EAGAIN | EWOULDBLOCK | EINTR | Errno string

definition transient :: "errno \<Rightarrow> bool" where
  "transient e \<longleftrightarrow> e = EAGAIN \<or> e = EWOULDBLOCK \<or> e = EINTR"

fun strerror :: "errno \<Rightarrow> string" where
  "strerror (Errno txt) = txt"
| "strerror EAGAIN = ''Resource temporarily unavailable''"
| "strerror EWOULDBLOCK = ''Resource temporarily unavailable''"
| "strerror EINTR = ''Interrupted system call''"

definition RECV_CHUNK_SIZE :: nat where
  "RECV_CHUNK_SIZE = 4096"

text \<open>The bytes that wait in the socket; no bytes mean that the peer closed its end.\<close>

datatype recv_result = RecvFailed errno | Pending string

text \<open>The number of bytes that the socket took.\<close>

datatype send_result = SendFailed errno | Sent nat

section \<open>\<open>Server::processLine\<close>\<close>

definition execute :: "command_kind \<Rightarrow> cptr \<Rightarrow> string list \<Rightarrow> server \<Rightarrow> server option" where
  "execute k =
     (case k of
        PassCommand \<Rightarrow> pass_execute | NickCommand \<Rightarrow> nick_execute | UserCommand \<Rightarrow> user_execute
      | JoinCommand \<Rightarrow> join_execute | PrivmsgCommand \<Rightarrow> privmsg_execute | KickCommand \<Rightarrow> kick_execute
      | InviteCommand \<Rightarrow> invite_execute | TopicCommand \<Rightarrow> topic_execute | ModeCommand \<Rightarrow> mode_execute)"

definition processMessage :: "cptr \<Rightarrow> message \<Rightarrow> server \<Rightarrow> server option" where
  "processMessage p message s =
     (let commandName = msg_command message; params = msg_params message
      in if commandName = [] then Some s
      else if commandName = ''CAP''
      then (if params \<noteq> [] \<and> toUpperCase (params ! 0) = ''LS''
            then send_to p (cat ['':server CAP * LS :'', crlf]) s else Some s)
      else if commandName = ''PING''
      then send_to p (cat ['':server PONG server :'', if params = [] then ''ft_irc'' else params ! 0, crlf]) s
      else if commandName = ''QUIT''
      then invoke (markClosing (cat [''Quit: '', if params = [] then ''Client Quit'' else params ! 0])) p s
      else
        case om_find commandName (sv_commands s) of
          None \<Rightarrow> do { c \<leftarrow> deref p s;
                    send_to p (cat ['':server 421 '', displayName c, '' '', commandName, '' :Unknown command'', crlf]) s }
        | Some k \<Rightarrow> do {
            c \<leftarrow> deref p s;
            if commandName \<noteq> ''PASS'' \<and> \<not> hasPassOk c
            then send_to p (cat ['':server 451 * :You have not registered'', crlf]) s
            else if commandName \<noteq> ''PASS'' \<and> commandName \<noteq> ''NICK'' \<and> commandName \<noteq> ''USER'' \<and> \<not> isRegistered c
            then send_to p (cat ['':server 451 '', displayName c, '' :You have not registered'', crlf]) s
            else execute k p params s })"

definition processLine :: "cptr \<Rightarrow> string \<Rightarrow> server \<Rightarrow> server option" where
  "processLine p rawLine s = processMessage p (parse rawLine) s"

section \<open>What a line of one client changes\<close>

lemma execute_frame: "pc (execute k p params s) (handled p s)"
  by (cases k) (simp_all add: execute_def irc_frames)

lemma processMessage_frame: "pc (processMessage p msg s) (handled p s)"
  unfolding processMessage_def
  by (intro pc_let pc_if pc_case_option pc_read_client execute_frame invoke_handled
      send_to_sent [THEN sent_pc_handled]) simp_all

lemma processLine_frame: "pc (processLine p l s) (handled p s)"
  unfolding processLine_def by (rule processMessage_frame)

lemma handled_recvBuffer:
  assumes "handled p s t" and "sv_heap s p = Some c"
  shows "\<exists>c'. sv_heap t p = Some c' \<and> cl_recvBuffer c' = cl_recvBuffer c"
  using handled_own [OF assms] by (auto simp: grown_client_def risen_client_def)

section \<open>\<open>Server::handleClientRead\<close>\<close>

definition put_client :: "cptr \<Rightarrow> client \<Rightarrow> server \<Rightarrow> server" where
  "put_client p c s = s\<lparr>sv_heap := (sv_heap s)(p \<mapsto> c)\<rparr>"

definition pending_input :: "cptr \<Rightarrow> server \<Rightarrow> nat" where
  "pending_input p s = (case sv_heap s p of None \<Rightarrow> 0 | Some c \<Rightarrow> length (cl_recvBuffer c))"

text \<open>\<open>while (client->extractLine(completedLine))\<close>, left as soon as the client is dead or closing.\<close>

function read_loop :: "cptr \<Rightarrow> server \<Rightarrow> server option" where
  "read_loop p s =
     do { c \<leftarrow> deref p s;
          (case extractLine c of
             (None, c') \<Rightarrow> Some (put_client p c' s)
           | (Some completedLine, c') \<Rightarrow> do {
               s1 \<leftarrow> processLine p completedLine (put_client p c' s);
               c1 \<leftarrow> deref p s1;
               if isDead c1 \<or> isClosing c1 then Some s1 else read_loop p s1 }) }"
  by pat_completeness auto

termination
proof (relation "measure (\<lambda>(p, s). pending_input p s)")
  fix p s c r c' l s1 c1
  assume c: "deref p s = Some c" and e: "(r, c') = extractLine c" "r = Some l"
    and s1: "processLine p l (put_client p c' s) = Some s1"
  have c': "sv_heap (put_client p c' s) p = Some c'" by (simp add: put_client_def)
  have "handled p (put_client p c' s) s1" by (rule pcD [OF processLine_frame s1])
  from handled_recvBuffer [OF this c'] obtain d where
    "sv_heap s1 p = Some d" "cl_recvBuffer d = cl_recvBuffer c'" by blast
  moreover have "length (cl_recvBuffer c') < length (cl_recvBuffer c)"
    using e by (intro client_lines.extract_shorter [of c l]) simp
  ultimately show "((p, s1), p, s) \<in> measure (\<lambda>(p, s). pending_input p s)"
    using c by (simp add: pending_input_def deref_def)
qed simp

declare read_loop.simps [simp del]

definition handleClientRead :: "int \<Rightarrow> recv_result \<Rightarrow> server \<Rightarrow> server option" where
  "handleClientRead fd received s =
     (case getClientByFd fd s of
        None \<Rightarrow> Some s
      | Some p \<Rightarrow> do {
          c \<leftarrow> deref p s;
          if isDead c \<or> isClosing c then Some s
          else case received of
            RecvFailed e \<Rightarrow>
              if transient e then Some s
              else invoke (markDead (cat [''recv() failed: '', strerror e])) p s
          | Pending bytes \<Rightarrow>
              let chunk = take RECV_CHUNK_SIZE bytes in
              if chunk = [] then invoke (markClosing ''client closed the connection'') p s
              else case appendToRecvBuffer chunk c of
                (ok, c') \<Rightarrow>
                  if \<not> ok then invoke (markDead ''input flood: recv buffer overflow'') p (put_client p c' s)
                  else read_loop p (put_client p c' s) })"

section \<open>\<open>Server::handleClientWrite\<close>\<close>

definition handleClientWrite :: "int \<Rightarrow> send_result \<Rightarrow> server \<Rightarrow> server option" where
  "handleClientWrite fd result s =
     (case getClientByFd fd s of
        None \<Rightarrow> Some s
      | Some p \<Rightarrow> do {
          c \<leftarrow> deref p s;
          if isDead c then Some s
          else if getSendBuffer c = [] then Some s
          else case result of
            SendFailed e \<Rightarrow>
              if transient e then Some s
              else invoke (markDead (cat [''send() failed: '', strerror e])) p s
          | Sent bytesSent \<Rightarrow>
              if bytesSent = 0 then invoke (markDead ''send() returned zero bytes'') p s
              else invoke (consumeSendBuffer bytesSent \<circ> on_wire bytesSent) p s })"

section \<open>Processing a line keeps the invariant\<close>

lemma commands_table:
  assumes "server_inv s"
  shows "om_find n (sv_commands s) =
    (if n = ''PASS'' then Some PassCommand else if n = ''NICK'' then Some NickCommand
     else if n = ''USER'' then Some UserCommand else if n = ''JOIN'' then Some JoinCommand
     else if n = ''PRIVMSG'' then Some PrivmsgCommand else if n = ''KICK'' then Some KickCommand
     else if n = ''INVITE'' then Some InviteCommand else if n = ''TOPIC'' then Some TopicCommand
     else if n = ''MODE'' then Some ModeCommand else None)"
proof -
  have "sv_commands s = sv_commands (setupCommands (s\<lparr>sv_commands := []\<rparr>))"
    using invD(6) [OF assms] unfolding config_inv_def by blast
  then show ?thesis by (simp add: setupCommands_def del: om_insert.simps)
qed

lemma execute_wp:
  assumes "server_inv s" and "active p s" and "list_all clean params"
    and "k \<notin> {PassCommand, NickCommand, UserCommand} \<Longrightarrow> p \<in> reg_ptrs s"
  shows "wp (execute k p params s) (\<lambda>t. server_inv t \<and> handled p s t)"
  using assms
  by (cases k)
    (simp_all add: execute_def pass_cmd.exec_wp nick_cmd.exec_wp user_cmd.exec_wp
      join_cmd.exec_wp privmsg_cmd.exec_wp kick_cmd.exec_wp invite_cmd.exec_wp
      topic_cmd.exec_wp mode_cmd.exec_wp)

lemma kept_simps [simp]:
  "kept_client c (markDead r c)" "kept_client c (markClosing r c)" "kept_client c (consumeSendBuffer n (on_wire n c))"
  by (auto simp: kept_client_def isRegistered_def client_inv_def identity_wf_def attempts_wf_def
      client_wf_consume) (auto simp: consumeSendBuffer_def)

lemma inv_invoke:
  assumes "server_inv s" and "p \<in> dom (sv_heap s)"
    and "\<And>c. kept_client c (f c)" and "\<And>c. cl_nickname (f c) = cl_nickname c"
  shows "wp (invoke f p s) server_inv"
proof -
  from assms(2) obtain c where "sv_heap s p = Some c" by blast
  then show ?thesis using inv_update [OF assms(1) _ assms(3)] assms(4) by (simp add: invoke_def deref_def)
qed

lemma processMessage_wp:
  assumes i: "server_inv s" and a: "active p s" and cl: "list_all clean (msg_params msg)"
  shows "wp (processMessage p msg s) (\<lambda>t. server_inv t \<and> handled p s t)"
proof -
  from a have p: "p \<in> dom (sv_heap s)" by (rule active_dom)
  then obtain c where c: "sv_heap s p = Some c" by blast
  note send = send_inv [OF i p]
  have quit: "wp (invoke (markClosing r) p s) server_inv" for r
    by (rule inv_invoke [OF i p]) simp_all
  have exec: "wp (execute k p params s) server_inv"
    if "om_find n (sv_commands s) = Some k" "list_all clean params"
      "n = ''PASS'' \<or> n = ''NICK'' \<or> n = ''USER'' \<or> isRegistered c" for n k params
    by (rule wp_mono [OF execute_wp [OF i a that(2)]])
      (use that c in \<open>auto simp: commands_table [OF i] reg_ptrs_def split: if_splits\<close>)
  have "wp (processMessage p msg s) server_inv"
    unfolding processMessage_def Let_def
    by (intro wp_if wp_case_option deref_then [OF c] send quit exec [of "msg_command msg"])
      (use i cl in auto)
  then show ?thesis by (rule wp_pc [OF _ processMessage_frame])
qed

lemma processLine_wp:
  "server_inv s \<Longrightarrow> active p s \<Longrightarrow> clean l \<Longrightarrow> wp (processLine p l s) (\<lambda>t. server_inv t \<and> handled p s t)"
  unfolding processLine_def by (rule processMessage_wp) (simp_all add: clean_params)

section \<open>Serving one client\<close>

text \<open>
  Reading works like a command, but the receive buffer moves too (\<open>fed\<close>); writing takes bytes off the send buffer
  (\<open>served\<close> covers both).
\<close>

definition fed_client :: "client \<Rightarrow> client \<Rightarrow> bool" where
  "fed_client c c' \<longleftrightarrow> grown_client c (c'\<lparr>cl_recvBuffer := cl_recvBuffer c\<rparr>)"

definition input_client :: "client \<Rightarrow> client \<Rightarrow> bool" where
  "input_client c c' \<longleftrightarrow> risen_client c (c'\<lparr>cl_recvBuffer := cl_recvBuffer c\<rparr>)"

abbreviation fed :: "cptr \<Rightarrow> server \<Rightarrow> server \<Rightarrow> bool" where
  "fed \<equiv> touched fed_client"

abbreviation served :: "cptr \<Rightarrow> server \<Rightarrow> server \<Rightarrow> bool" where
  "served \<equiv> touched input_client"

lemma fed_client_refl [simp]: "fed_client c c"
  by (simp add: fed_client_def)

lemma appended_recv [simp]:
  "appended c (d\<lparr>cl_recvBuffer := b\<rparr>) = appended c d" "appended (c\<lparr>cl_recvBuffer := b\<rparr>) d = appended c d"
  by (simp_all add: appended_def)

lemma fed_client_iff: "fed_client c d \<longleftrightarrow> input_client c d \<and> appended c d"
  by (simp add: fed_client_def input_client_def grown_client_def)

lemma input_client_refl [simp]: "input_client c c"
  by (simp add: input_client_def)

lemma input_client_trans: "input_client c d \<Longrightarrow> input_client d e \<Longrightarrow> input_client c e"
  by (simp add: input_client_def risen_client_def)

lemma fed_client_trans: "fed_client c d \<Longrightarrow> fed_client d e \<Longrightarrow> fed_client c e"
  using input_client_trans [of c d e] appended_trans [of c d e]
  by (simp add: fed_client_iff input_client_def risen_client_def)

lemma grown_fed: "grown_client c d \<Longrightarrow> fed_client c d"
  by (simp add: fed_client_def grown_client_def risen_client_def)

lemma fed_refl [simp]: "fed p s s"
  by (simp add: touched_refl)

lemma fed_trans: "fed p s t \<Longrightarrow> fed p t u \<Longrightarrow> fed p s u"
  by (rule touched_trans) (auto elim: fed_client_trans)

lemma handled_fed: "handled p s t \<Longrightarrow> fed p s t"
  by (erule touched_mono) (rule grown_fed)

lemma fed_served: "fed p s t \<Longrightarrow> served p s t"
  by (erule touched_mono) (simp add: fed_client_iff)

lemma served_refl [simp]: "served p s s"
  by (simp add: touched_refl)

lemma served_trans: "served p s t \<Longrightarrow> served p t u \<Longrightarrow> served p s u"
  by (rule touched_trans) (auto elim: input_client_trans)

lemma put_client_wp:
  assumes "server_inv s" and "sv_heap s p = Some c" and "kept_client c c'"
    and "cl_nickname c' = cl_nickname c" and "fed_client c c'"
  shows "server_inv (put_client p c' s)" and "fed p s (put_client p c' s)"
  using inv_update [OF assms(1-4)] touched_update [OF assms(2), of fed_client, OF assms(5)]
  by (simp_all add: put_client_def)

lemma extractLine_kept:
  assumes "extractLine c = (r, c')"
  shows "kept_client c c'" "cl_nickname c' = cl_nickname c" "fed_client c c'"
    "r \<noteq> None \<Longrightarrow> cl_dead c' = cl_dead c"
proof -
  note f = extractLine_fields [OF assms]
  show "cl_nickname c' = cl_nickname c" by (rule f)
  show "kept_client c c'"
    using f client_wf_extractLine [OF _ assms]
    by (auto simp: kept_client_def isRegistered_def client_inv_def identity_wf_def attempts_wf_def)
  show "fed_client c c'" using f by (simp add: fed_client_def grown_client_def risen_client_def)
  show "r \<noteq> None \<Longrightarrow> cl_dead c' = cl_dead c"
    using assms by (auto simp: extractLine_def Let_def split: option.splits if_splits)
qed

lemma append_kept:
  assumes "appendToRecvBuffer d c = (ok, c')"
  shows "kept_client c c'" "cl_nickname c' = cl_nickname c" "fed_client c c'"
proof -
  note f = appendToRecvBuffer_fields [OF assms]
  show "cl_nickname c' = cl_nickname c" by (rule f)
  show "kept_client c c'"
    using f client_wf_append [OF _ assms]
    by (auto simp: kept_client_def isRegistered_def client_inv_def identity_wf_def attempts_wf_def)
  show "fed_client c c'" using f by (simp add: fed_client_def grown_client_def risen_client_def)
qed

lemma read_loop_wp:
  assumes "server_inv s" and "active p s"
  shows "wp (read_loop p s) (\<lambda>t. server_inv t \<and> fed p s t)"
  using assms
proof (induction p s rule: read_loop.induct)
  case (1 p s)
  from "1.prems"(2) obtain c where c: "sv_heap s p = Some c" "\<not> cl_dead c" "\<not> cl_closing c"
    by (auto simp: active_def)
  obtain r c' where e: "extractLine c = (r, c')" by (cases "extractLine c")
  let ?s = "put_client p c' s"
  note k = extractLine_kept [OF e]
  have s: "server_inv ?s" "fed p s ?s" by (rule put_client_wp [OF "1.prems"(1) c(1) k(1-3)])+
  show ?case
  proof (cases r)
    case None
    then show ?thesis using s c e by (subst read_loop.simps) (simp add: deref_def)
  next
    case (Some l)
    have cl: "clean l" using client_lines.extract_Some [of c l c'] e Some by simp
    have "active p ?s"
      using k(4) Some c extractLine_fields(10) [OF e] by (simp add: active_def put_client_def)
    from processLine_wp [OF s(1) this cl] obtain s1 where
      s1: "processLine p l ?s = Some s1" "server_inv s1" "handled p ?s s1"
      by (auto elim: wpE)
    have sv1: "fed p s s1" using s(2) handled_fed [OF s1(3)] by (rule fed_trans)
    have "sv_heap ?s p = Some c'" by (simp add: put_client_def)
    then obtain c1 where c1: "sv_heap s1 p = Some c1" using handled_own [OF s1(3)] by blast
    show ?thesis
    proof (cases "cl_dead c1 \<or> cl_closing c1")
      case True
      then show ?thesis
        using s1 sv1 c1 c e Some by (subst read_loop.simps) (simp add: deref_def)
    next
      case False
      then have act: "active p s1" using c1 by (simp add: active_def)
      have "wp (read_loop p s1) (\<lambda>t. server_inv t \<and> fed p s1 t)"
        using "1.IH" [OF _ e [symmetric] Some s1(1) _ False s1(2) act] c c1 by (simp add: deref_def)
      then have "wp (read_loop p s1) (\<lambda>t. server_inv t \<and> fed p s t)"
        by (rule wp_mono) (use fed_trans [OF sv1] in blast)
      then show ?thesis
        using s1(1) c1 c e Some False by (subst read_loop.simps) (simp add: deref_def)
    qed
  qed
qed


section \<open>The two handlers\<close>

lemma getClientByFd_wp:
  assumes "server_inv s" and "getClientByFd fd s = Some p"
  shows "\<exists>c. sv_heap s p = Some c \<and> cl_fd c = fd"
  using assms by (auto simp: getClientByFd_def server_inv_def heap_inv_def dest!: om_find_mem)

lemma invoke_touched:
  assumes "server_inv s" and "p \<in> dom (sv_heap s)"
    and "\<And>c. kept_client c (f c)" and "\<And>c. cl_nickname (f c) = cl_nickname c"
    and "\<And>c. R c (f c)"
  shows "wp (invoke f p s) (\<lambda>t. server_inv t \<and> touched R p s t)"
proof -
  from assms(2) obtain c where c: "sv_heap s p = Some c" by blast
  show ?thesis
    using inv_update [OF assms(1) c assms(3,4)] touched_update [of s p c R, OF c assms(5)] c
    by (simp add: invoke_def deref_def)
qed

lemma input_simps [simp]:
  "fed_client c (markDead r c)" "fed_client c (markClosing r c)"
  "input_client c (markDead r c)" "input_client c (consumeSendBuffer n (on_wire n c))"
  by (auto simp: fed_client_def grown_client_def input_client_def risen_client_def) (auto simp: consumeSendBuffer_def)

lemmas mark_fed =
  invoke_touched [where f = "markDead r" and R = fed_client for r]
  invoke_touched [where f = "markClosing r" and R = fed_client for r]
lemmas mark_served =
  invoke_touched [where f = "markDead r" and R = input_client for r]
  invoke_touched [where f = "consumeSendBuffer n \<circ> on_wire n" and R = input_client for n]

text \<open>
  The events of one descriptor, in any order: whatever the socket returns, there is no
  undefined behaviour, the invariant holds, and other clients only receive messages.
\<close>

definition hears :: "int \<Rightarrow> server \<Rightarrow> server \<Rightarrow> bool" where
  "hears fd s t \<longleftrightarrow> (case getClientByFd fd s of None \<Rightarrow> t = s | Some p \<Rightarrow> fed p s t)"

definition serves :: "int \<Rightarrow> server \<Rightarrow> server \<Rightarrow> bool" where
  "serves fd s t \<longleftrightarrow> (case getClientByFd fd s of None \<Rightarrow> t = s | Some p \<Rightarrow> served p s t)"

lemma handleClientRead_fed:
  assumes "server_inv s"
  shows "wp (handleClientRead fd received s) (\<lambda>t. server_inv t \<and> hears fd s t)"
proof (cases "getClientByFd fd s")
  case None
  then show ?thesis using assms by (simp add: handleClientRead_def hears_def)
next
  case (Some p)
  from getClientByFd_wp [OF assms Some] obtain c where c: "sv_heap s p = Some c" by blast
  then have p: "p \<in> dom (sv_heap s)" by blast
  show ?thesis
  proof (cases "cl_dead c \<or> cl_closing c")
    case True
    then show ?thesis using assms c Some by (simp add: handleClientRead_def hears_def deref_def)
  next
    case act: False
    note mark = mark_fed [OF assms p]
    show ?thesis
    proof (cases received)
      case (RecvFailed e)
      then show ?thesis
        using mark(1) act assms c Some by (simp add: handleClientRead_def hears_def deref_def)
    next
      case (Pending bytes)
      let ?chunk = "take RECV_CHUNK_SIZE bytes"
      obtain ok c' where app: "appendToRecvBuffer ?chunk c = (ok, c')"
        by (cases "appendToRecvBuffer ?chunk c")
      note s1 = put_client_wp [OF assms c append_kept [OF app]]
      let ?s1 = "put_client p c' s"
      have h1: "sv_heap ?s1 p = Some c'" by (simp add: put_client_def)
      then have p1: "p \<in> dom (sv_heap ?s1)" by blast
      have a1: "active p ?s1"
        using act h1 appendToRecvBuffer_fields(10,11) [OF app] by (simp add: active_def)
      have flood: "wp (invoke (markDead r) p ?s1) (\<lambda>t. server_inv t \<and> fed p s t)" for r
        by (rule wp_mono [OF mark_fed(1) [OF s1(1) p1]]) (use fed_trans [OF s1(2)] in auto)
      have lines: "wp (read_loop p ?s1) (\<lambda>t. server_inv t \<and> fed p s t)"
        by (rule wp_mono [OF read_loop_wp [OF s1(1) a1]]) (use fed_trans [OF s1(2)] in blast)
      show ?thesis
        using mark(2) flood lines Pending app act c Some
        by (cases "?chunk = []") (simp_all add: handleClientRead_def hears_def deref_def Let_def)
    qed
  qed
qed

lemma hears_serves: "hears fd s t \<Longrightarrow> serves fd s t"
  by (auto simp: hears_def serves_def fed_served split: option.splits)

lemma handleClientRead_wp: "server_inv s \<Longrightarrow> wp (handleClientRead fd received s) (\<lambda>t. server_inv t \<and> serves fd s t)"
  by (rule wp_mono [OF handleClientRead_fed]) (auto intro: hears_serves)

lemma handleClientWrite_wp:
  assumes "server_inv s"
  shows "wp (handleClientWrite fd result s) (\<lambda>t. server_inv t \<and> serves fd s t)"
proof (cases "getClientByFd fd s")
  case None
  then show ?thesis using assms by (simp add: handleClientWrite_def serves_def)
next
  case (Some p)
  from getClientByFd_wp [OF assms Some] obtain c where c: "sv_heap s p = Some c" by blast
  then have p: "p \<in> dom (sv_heap s)" by blast
  note mark = mark_served [OF assms p]
  show ?thesis
    using mark assms c Some
    by (cases result) (auto simp: handleClientWrite_def serves_def deref_def)
qed

section \<open>Nothing runs after the end of a session\<close>

text \<open>A QUIT line ends the loop; what follows it in the buffer is not executed.\<close>

lemma quit_ends_read_loop:
  assumes c: "sv_heap s p = Some c" "\<not> cl_dead c" "\<not> cl_closing c"
    and l: "wire_line l" "cl_recvBuffer c = to_wire l @ rest"
    and quit: "msg_command (parse l) = ''QUIT''"
  shows "\<exists>r. read_loop p s = Some (put_client p (markClosing r (c\<lparr>cl_recvBuffer := rest\<rparr>)) s)"
proof -
  have buf: "cl_recvBuffer c = (l @ [CR]) @ LF # rest" using l(2) by (simp add: to_wire_def)
  have lf: "LF \<notin> set (l @ [CR])" and len: "length (l @ [CR]) < MAX_IRC_MESSAGE_SIZE" and cl: "clean l"
    using l(1) by (auto simp: wire_line_def clean_iff)
  have e: "extractLine c = (Some l, c\<lparr>cl_recvBuffer := rest\<rparr>)"
    using extractLine_at_newline [OF buf lf] len cl by (simp add: strip_cr_snoc)
  let ?s = "put_client p (c\<lparr>cl_recvBuffer := rest\<rparr>) s"
  obtain r where "processLine p l ?s = invoke (markClosing r) p ?s"
    using quit by (auto simp: processLine_def processMessage_def Let_def)
  then have "processLine p l ?s = Some (put_client p (markClosing r (c\<lparr>cl_recvBuffer := rest\<rparr>)) s)"
    by (simp add: invoke_def deref_def put_client_def)
  then show ?thesis
    using c e by (subst read_loop.simps) (auto simp: deref_def put_client_def)
qed

text \<open>A client that is closing or dead is not read any more.\<close>

lemma read_inactive:
  assumes "getClientByFd fd s = Some p" and "sv_heap s p = Some c" and "cl_dead c \<or> cl_closing c"
  shows "handleClientRead fd received s = Some s"
  using assms by (simp add: handleClientRead_def deref_def)

end
