(* ===== verification/Access_Control.thy ===== *)
theory Access_Control
  imports Dispatch
begin

text \<open>
  What a line of one client can do to the channels of the server, whatever the command:
  the access rules of JOIN, KICK, INVITE, TOPIC and MODE, a contract that every command
  keeps (\<open>guarded_command\<close>), put together over \<open>Server::processLine\<close>.
\<close>

section \<open>What a client that is not an operator may change\<close>

definition unprivileged :: "cptr \<Rightarrow> cptr channel \<Rightarrow> cptr channel \<Rightarrow> bool" where
  "unprivileged p ch ch' \<longleftrightarrow>
     ch_name ch' = ch_name ch \<and>
     ch_isInviteOnly ch' = ch_isInviteOnly ch \<and> ch_topicRestricted ch' = ch_topicRestricted ch \<and>
     ch_password ch' = ch_password ch \<and> ch_userLimit ch' = ch_userLimit ch \<and>
     set (ch_operators ch') = set (ch_operators ch) \<and>
     set (ch_members ch') - {p} = set (ch_members ch) - {p} \<and>
     (ch_topic ch' \<noteq> ch_topic ch \<longrightarrow> isMember ch p \<and> \<not> ch_topicRestricted ch) \<and>
     (\<not> set (ch_invitedClients ch') \<subseteq> set (ch_invitedClients ch) \<longrightarrow> isMember ch p \<and> \<not> ch_isInviteOnly ch) \<and>
     (isMember ch' p \<and> \<not> isMember ch p \<longrightarrow> (\<exists>key. may_join p key ch))"

text \<open>No entry means that the channel was destroyed: its only member left it.\<close>

definition guarded :: "cptr \<Rightarrow> server \<Rightarrow> server \<Rightarrow> bool" where
  "guarded p s t \<longleftrightarrow>
     (\<forall>n ch. om_find n (sv_channels s) = Some ch \<longrightarrow> \<not> isOperator ch p \<longrightarrow>
        (case om_find n (sv_channels t) of
           None \<Rightarrow> set (ch_members ch) = {p}
         | Some ch' \<Rightarrow> unprivileged p ch ch'))"

lemma unprivileged_refl [simp]: "unprivileged p ch ch"
  by (simp add: unprivileged_def)

lemma guarded_same: "sv_channels t = sv_channels s \<Longrightarrow> guarded p s t"
  by (simp add: guarded_def)

lemma guarded_update:
  assumes "chan_update n r s t"
    and "\<And>ch. om_find n (sv_channels s) = Some ch \<Longrightarrow> \<not> isOperator ch p \<Longrightarrow>
       \<exists>ch'. r = Some ch' \<and> unprivileged p ch ch'"
  shows "guarded p s t"
  unfolding guarded_def
proof (intro allI impI)
  fix m ch
  assume "om_find m (sv_channels s) = Some ch" and "\<not> isOperator ch p"
  then show "case om_find m (sv_channels t) of None \<Rightarrow> set (ch_members ch) = {p} | Some ch' \<Rightarrow> unprivileged p ch ch'"
    using assms by (cases "m = n") (auto simp: chan_update_def)
qed

section \<open>The commands, one by one\<close>

lemma pc_of_wp: "wp m Q \<Longrightarrow> pc m Q"
  by (auto simp: wp_def)

lemma sent_guarded: "pc m (sent s) \<Longrightarrow> pc m (guarded p s)"
  by (erule pc_mono) (auto intro: guarded_same sent_fields(6))

definition same_channels :: "server \<Rightarrow> server \<Rightarrow> bool" where
  "same_channels s t \<longleftrightarrow> sv_channels t = sv_channels s"

lemma same_channels_bind:
  assumes "pc m (same_channels s)" and "\<And>t. pc (f t) (same_channels t)"
  shows "pc (m \<bind> f) (same_channels s)"
proof -
  have "same_channels t = same_channels s" if "same_channels s t" for t
    using that by (simp add: same_channels_def fun_eq_iff)
  then have "pc m (\<lambda>t. pc (f t) (same_channels s))"
    using assms(2) by (intro pc_mono [OF assms(1)]) metis
  then show ?thesis by simp
qed

lemma same_channels_ops:
  "pc (send_to q m s) (same_channels s)"
  "pc (invoke f q s) (same_channels s)"
  "pc (broadcastNicknameChange q old new s) (same_channels s)"
proof -
  show "pc (invoke f q s) (same_channels s)"
    by (cases "deref q s") (simp_all add: invoke_def same_channels_def)
  show "pc (send_to q m s) (same_channels s)" "pc (broadcastNicknameChange q old new s) (same_channels s)"
    by (rule pc_mono [OF send_to_sent] pc_mono [OF nickChange_sent]; simp add: same_channels_def sent_fields)+
qed

lemmas same_channels_rules =
  same_channels_bind same_channels_ops pc_if pc_let pc_case_option pc_read_client pc_read_pointer

lemma registration_channels:
  "pc (pass_execute p params s) (same_channels s)"
  "pc (nick_execute p params s) (same_channels s)"
  "pc (user_execute p params s) (same_channels s)"
  unfolding pass_execute_def nick_execute_def user_execute_def
  by (intro same_channels_rules; simp add: same_channels_def)+

lemma same_channels_guarded: "pc m (same_channels s) \<Longrightarrow> pc m (guarded p s)"
  by (erule pc_mono) (auto simp: same_channels_def intro: guarded_same)

text \<open>JOIN with a list of names: a channel is as it was, or the client has been admitted.\<close>

definition joined :: "cptr \<Rightarrow> cptr channel \<Rightarrow> cptr channel \<Rightarrow> bool" where
  "joined p ch ch' \<longleftrightarrow> ch' = ch \<or>
     \<not> isMember ch p \<and> (\<exists>key. may_join p key ch) \<and> ch' = removeInvited p (addMember p ch)"

lemma joined_trans: "joined p ch ch' \<Longrightarrow> joined p ch' ch'' \<Longrightarrow> joined p ch ch''"
  by (auto simp: joined_def isMember_iff removeInvited_def addMember_def)

lemma joined_result: "\<exists>ch'. join_result p n key (Some ch) = Some ch' \<and> joined p ch ch'"
  by (auto simp: join_result_def joined_def)

lemma joined_unprivileged: "joined p ch ch' \<Longrightarrow> distinct (ch_invitedClients ch) \<Longrightarrow> unprivileged p ch ch'"
  by (auto simp: joined_def unprivileged_def isMember_iff removeInvited_def addMember_def)

lemma join_loop_joined:
  "server_inv s \<Longrightarrow> p \<in> reg_ptrs s \<Longrightarrow> list_all clean ns \<Longrightarrow>
   wp (join_loop p ns keys s) (\<lambda>t. \<forall>m ch. om_find m (sv_channels s) = Some ch \<longrightarrow>
     (\<exists>ch'. om_find m (sv_channels t) = Some ch' \<and> joined p ch ch'))"
proof (induction ns arbitrary: keys s)
  case Nil
  then show ?case by (simp add: joined_def)
next
  case (Cons n ns)
  let ?k = "case keys of [] \<Rightarrow> [] | key # _ \<Rightarrow> key"
  have "wp (join_one p n ?k s) (\<lambda>t. (server_inv t \<and>
      chan_update n (join_result p n ?k (om_find n (sv_channels s))) s t) \<and> reg_ptrs s \<subseteq> reg_ptrs t)"
    using Cons.prems by (intro wp_handled_reg [OF join_one_wp join_one_frame]) simp_all
  then show ?case
    unfolding join_loop.simps
  proof (rule wp_bindI)
    fix t
    assume t: "(server_inv t \<and> chan_update n (join_result p n ?k (om_find n (sv_channels s))) s t) \<and>
        reg_ptrs s \<subseteq> reg_ptrs t"
    have first: "\<exists>ch'. om_find m (sv_channels t) = Some ch' \<and> joined p ch ch'"
      if "om_find m (sv_channels s) = Some ch" for m ch
      using that t joined_result [of p n ?k ch] by (cases "m = n") (auto simp: chan_update_def joined_def)
    have "wp (join_loop p ns (tl keys) t) (\<lambda>u. \<forall>m ch. om_find m (sv_channels t) = Some ch \<longrightarrow>
        (\<exists>ch'. om_find m (sv_channels u) = Some ch' \<and> joined p ch ch'))"
      using t Cons.prems by (intro Cons.IH) auto
    then show "wp (join_loop p ns (tl keys) t) (\<lambda>u. \<forall>m ch. om_find m (sv_channels s) = Some ch \<longrightarrow>
        (\<exists>ch'. om_find m (sv_channels u) = Some ch' \<and> joined p ch ch'))"
      by (rule wp_mono) (use first joined_trans in blast)
  qed
qed

lemma left_unprivileged:
  assumes "distinct (ch_members ch)" and "\<not> isOperator ch p"
  shows "case left_channel p ch of None \<Rightarrow> set (ch_members ch) = {p} | Some ch' \<Rightarrow> unprivileged p ch ch'"
proof -
  have ops: "vec_erase p (ch_operators ch) = ch_operators ch"
    using assms(2) by (simp add: isOperator_iff vec_erase_absent)
  have m: "set (vec_erase p (ch_members ch)) = set (ch_members ch) - {p}"
    using hv.set_remove assms(1) by simp
  have "set (ch_members ch) = {p}" if "isMember ch p" "vec_erase p (ch_members ch) = []"
    using that m by (auto simp: isMember_iff)
  then show ?thesis
    using m by (auto simp: left_channel_def unprivileged_def ops isMember_iff)
qed

lemma join_guarded:
  assumes i: "server_inv s" and p: "p \<in> reg_ptrs s" and cl: "list_all clean params"
  shows "pc (join_execute p params s) (guarded p s)"
proof -
  have pd: "p \<in> dom (sv_heap s)" by (rule reg_dom [OF p])
  have wf: "distinct (ch_members ch)" "distinct (ch_invitedClients ch)"
    if "om_find n (sv_channels s) = Some ch" for n ch
    using inv_channel [OF i that] by (simp_all add: chan_wf_def)
  have leave: "pc (leave_loop p (om_keys (sv_channels s)) s) (guarded p s)"
    by (rule pc_mono [OF pc_of_wp [OF leave_all_wp [OF i pd]]])
      (use left_unprivileged wf in \<open>fastforce simp: guarded_def\<close>)
  have list: "pc (join_loop p ns keys s) (guarded p s)" if "list_all clean ns" for ns keys
    by (rule pc_mono [OF pc_of_wp [OF join_loop_joined [OF i p that]]])
      (use joined_unprivileged wf in \<open>fastforce simp: guarded_def\<close>)
  have names: "list_all clean (splitString (hd params) CHR '','')" if "params \<noteq> []"
    using that cl by (cases params) (simp_all add: clean_split)
  show ?thesis
    unfolding join_execute_def
    by (intro pc_read_client pc_if leave list names sent_guarded [OF send_to_sent])
qed

lemma kick_loop_guarded:
  "server_inv s \<Longrightarrow> p \<in> dom (sv_heap s) \<Longrightarrow>
   wp (kick_loop p channels j users r s) (\<lambda>t. \<forall>m ch. om_find m (sv_channels s) = Some ch \<longrightarrow>
     \<not> isOperator ch p \<longrightarrow> om_find m (sv_channels t) = Some ch)"
proof (induction users arbitrary: j s)
  case (Cons u users)
  let ?n = "if length channels = 1 then channels ! 0 else channels ! j"
  obtain target where t: "findClientByNick u s = Some target"
    by (rule wpE [OF findClientByNick_wp [OF Cons.prems(1)]])
  show ?case
    unfolding kick_loop.simps
  proof (rule wp_bindI [OF wp_pc [OF kick_one_wp [OF Cons.prems t] kick_one_frame [where q = p]]])
    fix t
    assume t: "(server_inv t \<and> chan_update ?n (map_option (kick_result p target) (om_find ?n (sv_channels s))) s t) \<and>
        handled p s t"
    then have "p \<in> dom (sv_heap t)" using Cons.prems(2) handled_fields(9) [of p s t] by simp
    with t have later: "wp (kick_loop p channels (Suc j) users r t) (\<lambda>u. \<forall>m ch. om_find m (sv_channels t) = Some ch \<longrightarrow>
     \<not> isOperator ch p \<longrightarrow> om_find m (sv_channels u) = Some ch)" by (intro Cons.IH) simp_all
    have first: "om_find m (sv_channels t) = Some ch"
      if "om_find m (sv_channels s) = Some ch" "\<not> isOperator ch p" for m ch
      using that t by (auto simp: chan_update_def kick_result_def split: option.splits)
    show "wp (kick_loop p channels (Suc j) users r t) (\<lambda>u. \<forall>m ch. om_find m (sv_channels s) = Some ch \<longrightarrow>
     \<not> isOperator ch p \<longrightarrow> om_find m (sv_channels u) = Some ch)"
      by (rule wp_mono [OF later]) (use first in blast)
  qed
qed simp

lemma kick_guarded:
  assumes i: "server_inv s" and p: "p \<in> dom (sv_heap s)"
  shows "pc (kick_execute p params s) (guarded p s)"
proof -
  have "pc (kick_loop p channels j users r s) (guarded p s)" for channels j users r
    by (rule pc_mono [OF pc_of_wp [OF kick_loop_guarded [OF i p]]]) (auto simp: guarded_def)
  then show ?thesis
    unfolding kick_execute_def by (intro pc_read_client pc_if pc_let sent_guarded [OF send_to_sent])
qed

lemma invite_guarded:
  assumes i: "server_inv s" and p: "p \<in> dom (sv_heap s)"
  shows "pc (invite_execute p params s) (guarded p s)"
proof (cases "length params < 2")
  case True
  then have "pc (invite_execute p params s) (sent s)"
    unfolding invite_execute_def by (intro pc_read_client) (simp add: send_to_sent)
  then show ?thesis by (rule sent_guarded)
next
  case False
  then obtain nick n rest where params: "params = nick # n # rest"
    by (cases params; cases "tl params") auto
  obtain target where "findClientByNick nick s = Some target"
    by (rule wpE [OF findClientByNick_wp [OF i]])
  from pc_of_wp [OF invite_wp [OF i p this params]] show ?thesis
  proof (rule pc_mono)
    fix t
    assume t: "server_inv t \<and> chan_update n (case target of None \<Rightarrow> om_find n (sv_channels s)
        | Some v \<Rightarrow> map_option (invite_result p v) (om_find n (sv_channels s))) s t"
    have "unprivileged p ch (invite_result p v ch)" if "\<not> isOperator ch p" for v ch
      using that by (auto simp: invite_result_def unprivileged_def addInvited_def isMember_iff)
    then show "guarded p s t"
      using t by (cases target) (auto elim!: guarded_update)
  qed
qed

lemma topic_guarded:
  assumes i: "server_inv s" and p: "p \<in> dom (sv_heap s)" and cl: "list_all clean params"
  shows "pc (topic_execute p params s) (guarded p s)"
proof (cases params)
  case Nil
  have "pc (topic_execute p params s) (sent s)"
    unfolding topic_execute_def Nil by (intro pc_read_client) (simp add: send_to_sent)
  then show ?thesis by (rule sent_guarded)
next
  case (Cons n args)
  then have "list_all clean args" using cl by simp
  from pc_of_wp [OF topic_wp [OF i p Cons this]] show ?thesis
  proof (rule pc_mono)
    fix t
    assume t: "server_inv t \<and> chan_update n (map_option (topic_result p args) (om_find n (sv_channels s))) s t"
    have "unprivileged p ch (topic_result p args ch)" if "\<not> isOperator ch p" for ch
      using that by (auto simp: topic_result_def unprivileged_def setTopic_def isMember_iff)
    then show "guarded p s t"
      using t by (intro guarded_update [where n = n]) auto
  qed
qed

lemma mode_guarded:
  assumes i: "server_inv s" and p: "p \<in> dom (sv_heap s)" and cl: "list_all clean params"
  shows "pc (mode_execute p params s) (guarded p s)"
proof (cases "\<exists>ch. params \<noteq> [] \<and> om_find (hd params) (sv_channels s) = Some ch \<and> mode_may p params ch")
  case False
  then have "pc (mode_execute p params s) (sent s)"
    by (intro pc_of_wp [OF mode_refused [OF p]]) auto
  then show ?thesis by (rule sent_guarded)
next
  case True
  then obtain target args ch where params: "params = target # args"
    and ch: "om_find target (sv_channels s) = Some ch" and may: "mode_may p params ch"
    by (cases params) auto
  have name: "first_char target \<in> {CHR ''#'', CHR ''&''}"
    using inv_channel [OF i ch] valid_channel_isChannel [of target]
    by (auto simp: chan_wf_def isChannel_def first_char_def split: if_splits)
  show ?thesis
  proof (rule mode_allowed [OF i p cl params name ch may])
    fix m u c ch'
    assume e: "mode_execute p params s = Some
        (if ma_appliedModes m = [] then u else queue (mode_message c target m) (set (ch_members ch)) u)"
      and up: "chan_update target (Some ch') s u"
    have "chan_update target (Some ch') s (if ma_appliedModes m = [] then u
        else queue (mode_message c target m) (set (ch_members ch)) u)"
      using up by (simp add: chan_update_def)
    then have "guarded p s (if ma_appliedModes m = [] then u
        else queue (mode_message c target m) (set (ch_members ch)) u)"
      by (rule guarded_update) (use ch may in \<open>simp add: mode_may_def\<close>)
    then show ?thesis using e by simp
  qed
qed

section \<open>The contract, with access control\<close>

text \<open>
  What the dispatcher relies on once more, with the access rules of channels: the contract
  \<open>command_handler\<close> extended. Every command keeps it.
\<close>

locale guarded_command = command_handler +
  assumes exec_guarded: "server_inv s \<Longrightarrow> p \<in> dom (sv_heap s) \<Longrightarrow> list_all clean params \<Longrightarrow>
      (registered_only \<longrightarrow> p \<in> reg_ptrs s) \<Longrightarrow> pc (exec p params s) (guarded p s)"
begin

lemma exec_channel:
  assumes "server_inv s" and "p \<in> dom (sv_heap s)" and "list_all clean params"
    and "registered_only \<longrightarrow> p \<in> reg_ptrs s" and "exec p params s = Some t"
    and "om_find n (sv_channels s) = Some ch" and "\<not> isOperator ch p"
  shows "case om_find n (sv_channels t) of None \<Rightarrow> set (ch_members ch) = {p} | Some ch' \<Rightarrow> unprivileged p ch ch'"
  using pcD [OF exec_guarded [OF assms(1-4)] assms(5)] assms(6,7) unfolding guarded_def by blast

text \<open>Nobody becomes an operator of a channel by a command of someone who is none.\<close>

lemma exec_operators:
  assumes "server_inv s" and "p \<in> dom (sv_heap s)" and "list_all clean params"
    and "registered_only \<longrightarrow> p \<in> reg_ptrs s" and "exec p params s = Some t"
    and "om_find n (sv_channels s) = Some ch" and "\<not> isOperator ch p" and "om_find n (sv_channels t) = Some ch'"
  shows "isOperator ch' q \<longleftrightarrow> isOperator ch q"
  using exec_channel [OF assms(1-7)] assms(8) by (simp add: unprivileged_def isOperator_iff)

end

interpretation pass_guard: guarded_command pass_execute False
  by unfold_locales (rule registration_channels [THEN same_channels_guarded])

interpretation nick_guard: guarded_command nick_execute False
  by unfold_locales (rule registration_channels [THEN same_channels_guarded])

interpretation user_guard: guarded_command user_execute False
  by unfold_locales (rule registration_channels [THEN same_channels_guarded])

interpretation join_guard: guarded_command join_execute True
  by unfold_locales (simp add: join_guarded)

interpretation privmsg_guard: guarded_command privmsg_execute True
  by unfold_locales (rule privmsg_sent [THEN sent_guarded])

interpretation kick_guard: guarded_command kick_execute True
  by unfold_locales (rule kick_guarded)

interpretation invite_guard: guarded_command invite_execute True
  by unfold_locales (rule invite_guarded)

interpretation topic_guard: guarded_command topic_execute True
  by unfold_locales (rule topic_guarded)

interpretation mode_guard: guarded_command mode_execute True
  by unfold_locales (rule mode_guarded)

section \<open>Any line\<close>

lemma execute_guarded:
  assumes "server_inv s" and "p \<in> dom (sv_heap s)" and "list_all clean params"
    and "k \<notin> {PassCommand, NickCommand, UserCommand} \<Longrightarrow> p \<in> reg_ptrs s"
  shows "pc (execute k p params s) (guarded p s)"
  using assms
  by (cases k)
    (simp_all add: execute_def pass_guard.exec_guarded nick_guard.exec_guarded user_guard.exec_guarded
      join_guard.exec_guarded privmsg_guard.exec_guarded kick_guard.exec_guarded invite_guard.exec_guarded
      topic_guard.exec_guarded mode_guard.exec_guarded)

lemma processMessage_guarded:
  assumes i: "server_inv s" and p: "p \<in> dom (sv_heap s)" and cl: "list_all clean (msg_params msg)"
  shows "pc (processMessage p msg s) (guarded p s)"
proof -
  from p obtain c where c: "sv_heap s p = Some c" by blast
  have exec: "pc (execute k p (msg_params msg) s) (guarded p s)"
    if "om_find n (sv_commands s) = Some k" "n = ''PASS'' \<or> n = ''NICK'' \<or> n = ''USER'' \<or> isRegistered c" for n k
    by (rule execute_guarded [OF i p cl])
      (use that c in \<open>auto simp: commands_table [OF i] reg_ptrs_def split: if_splits\<close>)
  have send: "pc (send_to q m s) (guarded p s)" for q m by (rule sent_guarded [OF send_to_sent])
  have quit: "pc (invoke f q s) (guarded p s)" for f q
    by (rule same_channels_guarded [OF same_channels_ops(2)])
  have read: "pc (deref p s \<bind> f) Q" if "pc (f c) Q" for f and Q :: "server \<Rightarrow> bool"
    using that c by (simp add: deref_def)
  show ?thesis
    unfolding processMessage_def Let_def
    by (intro pc_if pc_case_option read send quit exec [of "msg_command msg"])
      (auto intro: guarded_same)
qed

lemma processLine_guarded:
  "server_inv s \<Longrightarrow> p \<in> dom (sv_heap s) \<Longrightarrow> clean l \<Longrightarrow> pc (processLine p l s) (guarded p s)"
  unfolding processLine_def by (rule processMessage_guarded) (simp_all add: clean_params)

section \<open>Before registration\<close>

text \<open>What a client that is not registered gets for a line other than QUIT, PASS, NICK and USER.\<close>

lemma processLine_unregistered:
  assumes c: "sv_heap s p = Some c" "\<not> isRegistered c"
    and cmd: "msg_command (parse l) \<notin> {''QUIT'', ''PASS''}"
    and pass: "msg_command (parse l) \<in> {''NICK'', ''USER''} \<Longrightarrow> \<not> cl_passOk c"
  shows "replied p s (processLine p l s)"
proof -
  have "\<not> cl_passOk c \<or> msg_command (parse l) \<notin> {''PASS'', ''NICK'', ''USER''}" using cmd pass by auto
  then show ?thesis
    using c cmd replied_send
    by (auto simp: processLine_def processMessage_def Let_def deref_def split: option.split)
qed

end
