(* ===== verification/Audience.thy ===== *)
theory Audience
  imports Access_Control
begin

text \<open>
  Who can hear a client: a line of one client adds output only to the client itself, to members of the channels that
  the command is about, as far as the client is on them, and to whom it names in PRIVMSG or INVITE. Each command keeps to its own circle
  (\<open>confined_command\<close>, an extension of the contract of the commands); \<open>processLine\<close> puts them together.
\<close>

section \<open>Circles of clients\<close>

text \<open>Those who share with \<open>p\<close> a channel of some names, or any channel, and those who answer to one of some nicknames.\<close>

definition company :: "string set \<Rightarrow> cptr \<Rightarrow> server \<Rightarrow> cptr set" where
  "company N p s = {q. \<exists>n \<in> N. \<exists>ch. om_find n (sv_channels s) = Some ch \<and> isMember ch p \<and> isMember ch q}"

abbreviation friends :: "cptr \<Rightarrow> server \<Rightarrow> cptr set" where
  "friends \<equiv> company UNIV"

text \<open>Those who are, in \<open>t\<close>, on a channel that \<open>p\<close> is on in \<open>t\<close> and was not on in \<open>s\<close>.\<close>

definition entered :: "cptr \<Rightarrow> server \<Rightarrow> server \<Rightarrow> cptr set" where
  "entered p s t = {q. \<exists>n ch. om_find n (sv_channels t) = Some ch \<and> isMember ch p \<and> isMember ch q \<and>
     (\<forall>ch0. om_find n (sv_channels s) = Some ch0 \<longrightarrow> \<not> isMember ch0 p)}"

definition named :: "string list \<Rightarrow> server \<Rightarrow> cptr set" where
  "named nicks s = {q. \<exists>c. sv_heap s q = Some c \<and> \<not> cl_dead c \<and>
     (\<exists>n \<in> set nicks. toIrcLowerCase (cl_nickname c) = toIrcLowerCase n)}"

text \<open>Only clients of the set have changed.\<close>

definition confined :: "cptr set \<Rightarrow> server \<Rightarrow> server \<Rightarrow> bool" where
  "confined A s t \<longleftrightarrow> (\<forall>q. q \<notin> A \<longrightarrow> sv_heap t q = sv_heap s q)"

lemma company_member:
  "om_find n (sv_channels s) = Some ch \<Longrightarrow> isMember ch p \<Longrightarrow> n \<in> N \<Longrightarrow> set (ch_members ch) \<subseteq> company N p s"
  by (auto simp: company_def isMember_iff)

lemmas friends_member = company_member [where N = UNIV, OF _ _ UNIV_I]

lemma company_same: "sv_channels t = sv_channels s \<Longrightarrow> company N p t = company N p s"
  by (simp add: company_def)

text \<open>A client that gains no company keeps its circle.\<close>

lemma company_shrink:
  assumes "\<And>n ch'. om_find n (sv_channels t) = Some ch' \<Longrightarrow> isMember ch' p \<Longrightarrow>
      \<exists>ch. om_find n (sv_channels s) = Some ch \<and> set (ch_members ch') \<subseteq> set (ch_members ch)"
  shows "company N p t \<subseteq> company N p s"
proof
  fix q
  assume "q \<in> company N p t"
  then obtain n ch' where n: "n \<in> N" and ch': "om_find n (sv_channels t) = Some ch'" "isMember ch' p" "isMember ch' q"
    by (auto simp: company_def)
  from assms [OF ch'(1,2)] obtain ch where "om_find n (sv_channels s) = Some ch"
    "set (ch_members ch') \<subseteq> set (ch_members ch)" by blast
  then show "q \<in> company N p s" using n ch'(2,3) by (auto simp: company_def isMember_iff)
qed

lemma named_found: "server_inv s \<Longrightarrow> findClientByNick n s = Some (Some q) \<Longrightarrow> n \<in> set nicks \<Longrightarrow> q \<in> named nicks s"
  by (rule findClientByNick_cases [of s n]) (auto simp: named_def)

lemma named_sent: "sent s t \<Longrightarrow> named nicks t \<subseteq> named nicks s"
proof
  fix q
  assume st: "sent s t" and "q \<in> named nicks t"
  then obtain d where d: "sv_heap t q = Some d" "\<not> cl_dead d"
    "\<exists>n \<in> set nicks. toIrcLowerCase (cl_nickname d) = toIrcLowerCase n"
    by (auto simp: named_def)
  from sent_object_rev [OF st d(1)] obtain c where c: "sv_heap s q = Some c" "sent_client c d" by blast
  note f = sent_client_fields [OF c(2)]
  show "q \<in> named nicks s" using c(1) d(2,3) f(4,11) by (auto simp: named_def)
qed

section \<open>Rules\<close>

lemma confined_refl [simp]: "confined A s s"
  by (simp add: confined_def)

lemma confined_trans: "confined A s t \<Longrightarrow> confined A t u \<Longrightarrow> confined A s u"
  by (simp add: confined_def)

lemma confined_mono: "confined A s t \<Longrightarrow> A \<subseteq> B \<Longrightarrow> confined B s t"
  by (auto simp: confined_def)

lemma confined_channels [simp]: "confined A s (t\<lparr>sv_channels := chs\<rparr>) = confined A s t"
  "confined A (s\<lparr>sv_channels := chs\<rparr>) = confined A s"
  by (simp_all add: confined_def fun_eq_iff)

lemma confined_queue: "Q \<subseteq> A \<Longrightarrow> confined A s (queue m Q s)"
  by (auto simp: confined_def queue_heap)

lemma confined_own: "only_own p s t \<Longrightarrow> p \<in> A \<Longrightarrow> confined A s t"
  by (auto simp: confined_def only_own_def)

lemma confined_bind:
  "pc m (confined A s) \<Longrightarrow> (\<And>t. pc (f t) (confined A t)) \<Longrightarrow> pc (m \<bind> f) (confined A s)"
  by (auto simp: pc_def intro: confined_trans split: Option.bind_splits)

lemma pc_confined_after: "pc m (confined B t) \<Longrightarrow> B \<subseteq> A \<Longrightarrow> confined A s t \<Longrightarrow> pc m (confined A s)"
  by (rule pc_mono, assumption) (rule confined_trans [OF _ confined_mono])

lemma invoke_confined: "q \<in> A \<Longrightarrow> pc (invoke f q s) (confined A s)"
  by (auto simp: pc_def invoke_def confined_def split: Option.bind_splits)

lemma send_confined: "q \<in> A \<Longrightarrow> pc (send_to q m s) (confined A s)"
  unfolding send_to_def by (rule invoke_confined)

lemma for_each_confined:
  assumes "\<And>q t. q \<in> set qs \<Longrightarrow> pc (f q t) (confined A t)"
  shows "pc (for_each f qs s) (confined A s)"
  using assms
proof (induction qs arbitrary: s)
  case (Cons q qs)
  then show ?case unfolding for_each.simps by (intro confined_bind) auto
qed simp

lemma broadcast_confined: "set (ch_members ch) \<subseteq> A \<Longrightarrow> pc (broadcastMessage m x ch s) (confined A s)"
  unfolding broadcastMessage_def by (rule for_each_confined) (auto intro: send_confined)

lemma invoke_channel_confined: "pc (invoke_channel f n s) (confined A s)"
  by (auto simp: pc_def invoke_channel_def confined_def split: Option.bind_splits)

text \<open>A loop whose rounds keep to a circle that never grows keeps to the circle it started with.\<close>

lemma for_each_circle:
  assumes "I s"
    and "\<And>x t. x \<in> set xs \<Longrightarrow> I t \<Longrightarrow> pc (f x t) (\<lambda>u. I u \<and> C u \<subseteq> C t \<and> confined (C t) t u)"
  shows "pc (for_each f xs s) (confined (C s) s)"
  using assms
proof (induction xs arbitrary: s)
  case (Cons x xs)
  have step: "pc (f x s) (\<lambda>u. I u \<and> C u \<subseteq> C s \<and> confined (C s) s u)"
    by (rule Cons.prems(2)) (simp_all add: Cons.prems(1))
  show ?case
    unfolding for_each.simps pc_bind
  proof (rule pc_mono [OF step])
    fix u
    assume u: "I u \<and> C u \<subseteq> C s \<and> confined (C s) s u"
    then have "pc (for_each f xs u) (confined (C u) u)" using Cons.prems(2) by (intro Cons.IH) auto
    then show "pc (for_each f xs u) (confined (C s) s)" by (rule pc_confined_after) (use u in auto)
  qed
qed simp

text \<open>The channel that was found, known to be the one in the map.\<close>

lemma pc_found:
  "(\<And>ch. om_find n (sv_channels s) = Some ch \<Longrightarrow> pc (f ch) Q) \<Longrightarrow> pc (channel_at n s \<bind> f) Q"
  by (cases "om_find n (sv_channels s)") (simp_all add: channel_at_def)

lemmas confined_rules =
  confined_bind pc_read_client pc_found pc_read_pointer pc_read_string pc_if pc_let pc_case_option
  send_confined invoke_confined invoke_channel_confined broadcast_confined

section \<open>The commands\<close>

lemma pass_confined: "pc (pass_execute p params s) (confined {p} s)"
  unfolding pass_execute_def by (intro confined_rules; simp)

lemma user_confined: "pc (user_execute p params s) (confined {p} s)"
  unfolding user_execute_def by (intro confined_rules; simp)

lemma nickChange_confined:
  assumes srt: "om_sorted (sv_channels s)"
  shows "pc (broadcastNicknameChange p old new s) (confined (insert p (friends p s)) s)"
proof -
  have "set (nick_recipients p (sv_channels s)) \<subseteq> insert p (friends p s)"
    using srt om_find_sorted friends_member
    by (fastforce simp: set_nick_recipients peers_def split: if_splits)
  then show ?thesis
    unfolding broadcastNicknameChange_def
    by (intro pc_if pc_read_client for_each_confined send_confined) auto
qed

lemma nick_confined:
  assumes i: "server_inv s"
  shows "pc (nick_execute p params s) (confined (insert p (friends p s)) s)"
proof -
  let ?A = "insert p (friends p s)"
  have srt: "om_sorted (sv_channels s)" using invD(2) [OF i] by (simp add: chan_inv_def)
  have change: "pc (broadcastNicknameChange p old new t) (confined ?A t)"
    if "sv_channels t = sv_channels s" for old new t
    using nickChange_confined [of t p old new] srt that company_same [OF that] by simp
  have rest: "pc (f t) (confined ?A s)"
    if "invoke g p s = Some t" "sv_channels t = sv_channels s \<Longrightarrow> pc (f t) (confined ?A t)" for f g t
  proof -
    have "sv_channels t = sv_channels s" "confined ?A s t"
      using that(1) by (auto simp: invoke_def confined_def split: Option.bind_splits)
    with that(2) show ?thesis by (auto elim: pc_mono intro: confined_trans)
  qed
  have step: "pc (invoke g p s \<bind> f) (confined ?A s)"
    if "\<And>t. sv_channels t = sv_channels s \<Longrightarrow> pc (f t) (confined ?A t)" for f g
    using that rest by (cases "invoke g p s") auto
  show ?thesis
    unfolding nick_execute_def
    by (intro pc_if pc_read_client pc_read_pointer step confined_bind [OF _ pc_read_client] change send_confined) simp_all
qed


text \<open>KICK: within the members of the channels named, which the removals only make fewer.\<close>

lemma kick_one_confined: "n \<in> N \<Longrightarrow> pc (kick_one p n nick r s) (confined (insert p (company N p s)) s)"
  unfolding kick_one_def by (intro confined_rules) (use company_member in blast)+

lemma kick_loop_for_each:
  "kick_loop p chs j us r =
     for_each (\<lambda>(k, u). kick_one p (if length chs = 1 then chs ! 0 else chs ! k) u r) (enumerate j us)"
proof (induction us arbitrary: j)
  case Nil
  show ?case by (rule ext) simp
next
  case (Cons u us)
  show ?case by (rule ext) (simp add: Cons.IH split del: if_split)
qed

lemma kick_one_circle:
  assumes i: "server_inv s" and p: "p \<in> dom (sv_heap s)" and n: "n \<in> N"
  shows "pc (kick_one p n u r s) (\<lambda>t. (server_inv t \<and> p \<in> dom (sv_heap t)) \<and>
    insert p (company N p t) \<subseteq> insert p (company N p s) \<and> confined (insert p (company N p s)) s t)"
proof -
  obtain target where q: "findClientByNick u s = Some target"
    by (rule wpE [OF findClientByNick_wp [OF i]])
  have step: "pc (kick_one p n u r s) (\<lambda>t. ((server_inv t \<and>
      chan_update n (map_option (kick_result p target) (om_find n (sv_channels s))) s t) \<and>
      handled p s t) \<and> confined (insert p (company N p s)) s t)"
    by (rule pc_of_wp [OF wp_pc [OF wp_pc [OF kick_one_wp [OF i p q] kick_one_frame] kick_one_confined [OF n]]])
  show ?thesis
  proof (rule pc_mono [OF step])
    fix t
    assume t: "((server_inv t \<and> chan_update n (map_option (kick_result p target) (om_find n (sv_channels s))) s t) \<and>
      handled p s t) \<and> confined (insert p (company N p s)) s t"
    have m: "set (ch_members (kick_result p target ch)) \<subseteq> set (ch_members ch)" for ch
      by (auto simp: kick_result_def dest: set_vec_erase_subset [THEN subsetD] split: option.splits)
    have "\<exists>ch. om_find k (sv_channels s) = Some ch \<and> set (ch_members ch') \<subseteq> set (ch_members ch)"
      if "om_find k (sv_channels t) = Some ch'" for k ch'
      using that t m by (cases "k = n") (auto simp: chan_update_def)
    then have "company N p t \<subseteq> company N p s" by (intro company_shrink)
    moreover have "p \<in> dom (sv_heap t)" using t p handled_fields(9) [of p s t] by simp
    ultimately show "(server_inv t \<and> p \<in> dom (sv_heap t)) \<and>
        insert p (company N p t) \<subseteq> insert p (company N p s) \<and> confined (insert p (company N p s)) s t"
      using t by blast
  qed
qed

lemma kick_loop_confined:
  assumes "server_inv s" and "p \<in> dom (sv_heap s)" and "length chs = 1 \<or> j + length us \<le> length chs"
  shows "pc (kick_loop p chs j us r s) (confined (insert p (company (set chs) p s)) s)"
  unfolding kick_loop_for_each
proof (rule for_each_circle [where C = "\<lambda>t. insert p (company (set chs) p t)" and I = "\<lambda>t. server_inv t \<and> p \<in> dom (sv_heap t)"])
  fix x t
  assume x: "x \<in> set (enumerate j us)" and t: "server_inv t \<and> p \<in> dom (sv_heap t)"
  obtain k u where ku: "x = (k, u)" by (cases x)
  have "(if length chs = 1 then chs ! 0 else chs ! k) \<in> set chs"
    using assms(3) x ku by (auto simp: in_set_enumerate_eq intro!: nth_mem)
  from kick_one_circle [OF _ _ this] t ku
  show "pc ((\<lambda>(k, u). kick_one p (if length chs = 1 then chs ! 0 else chs ! k) u r) x t)
      (\<lambda>u. (server_inv u \<and> p \<in> dom (sv_heap u)) \<and>
        insert p (company (set chs) p u) \<subseteq> insert p (company (set chs) p t) \<and>
        confined (insert p (company (set chs) p t)) t u)"
    by (simp only: prod.case)
qed (use assms in simp)

text \<open>The first parameter, a list of names or one name.\<close>

definition first_names :: "string list \<Rightarrow> string set" where
  "first_names params = (case params of [] \<Rightarrow> {} | a # _ \<Rightarrow> set (splitString a CHR '',''))"

lemma kick_confined:
  assumes i: "server_inv s" and p: "p \<in> dom (sv_heap s)"
  shows "pc (kick_execute p params s) (confined (insert p (company (first_names params) p s)) s)"
proof (cases params)
  case Nil
  then show ?thesis unfolding kick_execute_def by (intro pc_if pc_read_client send_confined) simp_all
next
  case (Cons a args)
  show ?thesis
    unfolding kick_execute_def Cons Let_def nth_Cons_0 first_names_def list.case
    by (intro pc_if pc_read_client send_confined kick_loop_confined [OF i p]) auto
qed

lemma topic_confined: "pc (topic_execute p params s) (confined (insert p (company (set (take 1 params)) p s)) s)"
proof -
  let ?A = "insert p (company (set (take 1 params)) p s)"
  have change: "pc (do { s1 \<leftarrow> invoke_channel (setTopic topic) n s; ch1 \<leftarrow> channel_at n s1;
      s2 \<leftarrow> broadcastMessage m (Some p) ch1 s1; send_to p m s2 }) (confined ?A s)"
    if ch: "om_find n (sv_channels s) = Some ch" and mem: "isMember ch p" and n: "n \<in> set (take 1 params)"
    for topic n m ch
  proof -
    let ?ch = "setTopic topic ch" and ?s1 = "s\<lparr>sv_channels := om_insert n (setTopic topic ch) (sv_channels s)\<rparr>"
    have "set (ch_members ?ch) \<subseteq> ?A" using company_member [OF ch mem n] by (auto simp: setTopic_def)
    then have "pc (broadcastMessage m (Some p) ?ch ?s1 \<bind> send_to p m) (confined ?A ?s1)"
      by (intro confined_bind broadcast_confined send_confined) simp_all
    then show ?thesis using ch by (simp add: invoke_channel_def channel_at_def)
  qed
  show ?thesis
    unfolding topic_execute_def Let_def
    by (intro pc_if pc_read_client pc_found send_confined change) (cases params; simp)+
qed

lemma mode_letter_confined:
  "pc (mode_letter p target params c m s) (\<lambda>r. confined {p} s (snd r))"
proof -
  have pair: "pc (do { t \<leftarrow> x; Some (a, t) }) (\<lambda>r. confined {p} s (snd r))"
    if "pc x (confined {p} s)" for x and a :: mode_acc
    using that by simp
  show ?thesis
    unfolding mode_letter_def mode_i_def mode_t_def mode_k_def mode_l_def mode_o_def Let_def
    by (intro pc_if pc_read_client pc_read_channel pc_read_pointer pc_case_option pair
        send_confined invoke_channel_confined) (simp_all)
qed

lemma mode_loop_confined:
  "pc (mode_loop p target params ms m s) (\<lambda>r. confined {p} s (snd r))"
proof (induction ms arbitrary: m s)
  case (Cons c ms)
  show ?case
    unfolding mode_loop.simps pc_bind
    by (rule pc_mono [OF mode_letter_confined], rule pc_mono [OF Cons.IH], erule (1) confined_trans)
qed simp

lemma mode_confined:
  assumes i: "server_inv s" and p: "p \<in> dom (sv_heap s)" and cl: "list_all clean params"
  shows "pc (mode_execute p params s) (confined (insert p (company (set (take 1 params)) p s)) s)"
proof (cases "\<exists>ch. params \<noteq> [] \<and> om_find (hd params) (sv_channels s) = Some ch \<and> mode_may p params ch")
  case False
  from p obtain c where "sv_heap s p = Some c" by blast
  from mode_not_allowed [OF this, of params] False have "replied p s (mode_execute p params s)" by blast
  then show ?thesis by (auto simp: replied_def intro!: confined_queue)
next
  case True
  then obtain target args ch where params: "params = target # args"
    and ch: "om_find target (sv_channels s) = Some ch" and may: "mode_may p params ch"
    by (cases params) auto
  have name: "first_char target \<in> {CHR ''#'', CHR ''&''}"
    using inv_channel [OF i ch] valid_channel_isChannel [of target]
    by (auto simp: chan_wf_def isChannel_def first_char_def split: if_splits)
  have "isMember ch p"
    using may inv_members(3) [OF i ch] by (auto simp: mode_may_def isMember_iff isOperator_iff)
  then have mem: "set (ch_members ch) \<subseteq> insert p (company (set (take 1 params)) p s)"
    using company_member [OF ch] params by (simp add: subset_insertI2)
  show ?thesis
  proof (rule mode_allowed [OF i p cl params name ch may])
    fix m u c ch'
    assume l: "mode_loop p target params (params ! 1) mode_start s = Some (m, u)"
      and e: "mode_execute p params s = Some
        (if ma_appliedModes m = [] then u else queue (mode_message c target m) (set (ch_members ch)) u)"
    have "confined {p} s u" using pcD [OF mode_loop_confined l] by simp
    then have "confined (insert p (company (set (take 1 params)) p s)) s u" by (rule confined_mono) simp
    then show ?thesis using e confined_queue [OF mem] confined_trans by simp
  qed
qed


text \<open>INVITE and PRIVMSG: also whom they name.\<close>

lemma pc_named:
  assumes "server_inv s"
    and "\<And>r. (\<And>q. r = Some q \<Longrightarrow> n \<in> set nicks \<Longrightarrow> q \<in> named nicks s) \<Longrightarrow> pc (f r) Q"
  shows "pc (findClientByNick n s \<bind> f) Q"
proof (cases "findClientByNick n s")
  case (Some r)
  have "pc (f r) Q" by (rule assms(2)) (use named_found [OF assms(1)] Some in blast)
  then show ?thesis by (simp add: Some)
qed simp

lemma invite_confined:
  assumes i: "server_inv s"
  shows "pc (invite_execute p params s) (confined (insert p (named (take 1 params) s)) s)"
proof (cases "length params < 2")
  case True
  then show ?thesis
    unfolding invite_execute_def by (intro pc_read_client) (simp add: send_confined)
next
  case False
  then obtain nick n rest where params: "params = nick # n # rest"
    by (cases params; cases "tl params") auto
  show ?thesis
    unfolding invite_execute_def params Let_def
    by (intro pc_read_client pc_if pc_named [OF i, where nicks = "take 1 (nick # n # rest)"] pc_case_option
        confined_bind pc_read_channel send_confined invoke_channel_confined) simp_all
qed

lemma privmsg_one_confined:
  assumes i: "server_inv s" and tg: "tg \<in> set tgs"
  shows "pc (privmsg_one p pre body tg s) (confined (insert p (company (set tgs) p s \<union> named tgs s)) s)"
  unfolding privmsg_one_def Let_def
  by (intro pc_read_client pc_if pc_found pc_named [OF i, where nicks = tgs] pc_case_option
      send_confined broadcast_confined) (use company_member [where N = "set tgs", OF _ _ tg] tg in \<open>auto dest!: subsetD\<close>)

lemma privmsg_loop_confined:
  assumes "server_inv s"
  shows "pc (for_each (privmsg_one p pre body) tgs s) (confined (insert p (company (set tgs) p s \<union> named tgs s)) s)"
proof (rule for_each_circle [where C = "\<lambda>t. insert p (company (set tgs) p t \<union> named tgs t)" and I = server_inv, OF assms])
  fix u t
  assume u: "u \<in> set tgs" and i: "server_inv t"
  have "pc (privmsg_one p pre body u t)
      (\<lambda>v. sent t v \<and> confined (insert p (company (set tgs) p t \<union> named tgs t)) t v)"
    using privmsg_one_sent privmsg_one_confined [OF i u] by (simp add: pc_def)
  then show "pc (privmsg_one p pre body u t) (\<lambda>v. server_inv v \<and>
      insert p (company (set tgs) p v \<union> named tgs v) \<subseteq> insert p (company (set tgs) p t \<union> named tgs t) \<and>
      confined (insert p (company (set tgs) p t \<union> named tgs t)) t v)"
    by (rule pc_mono)
      (use inv_sent [OF i] named_sent company_same [OF sent_fields(6)] in blast)
qed

lemma privmsg_confined:
  assumes i: "server_inv s"
  shows "pc (privmsg_execute p params s)
    (confined (insert p (company (first_names params) p s \<union> named (splitString (hd params) CHR '','') s)) s)"
proof (cases params)
  case Nil
  then show ?thesis
    unfolding privmsg_execute_def by (intro pc_read_client) (simp add: send_confined)
next
  case (Cons tgs rest)
  show ?thesis
    unfolding privmsg_execute_def Cons nth_Cons_0 list.sel first_names_def list.case
    by (intro pc_read_client pc_if send_confined privmsg_loop_confined i) simp_all
qed

text \<open>JOIN: those who are on a channel that the client enters, or, for \<open>JOIN 0\<close>, leaves.\<close>

lemma leave_one_confined: "pc (leave_one p n s) (confined (insert p (friends p s)) s)"
  unfolding leave_one_def leave_loop.simps Let_def
  by (intro pc_found pc_if pc_read_client confined_bind [OF broadcast_confined] confined_bind [OF send_confined]
      confined_bind [OF invoke_channel_confined] pc_read_channel subset_insertI2 friends_member)
    (auto simp: removeChannel_def)

lemma leave_loop_for_each: "leave_loop p it s = for_each (leave_one p) it s"
  by (induction it arbitrary: s) (simp_all add: leave_loop_Cons del: leave_loop.simps(2))

lemma leave_one_circle:
  assumes i: "server_inv s" and p: "p \<in> dom (sv_heap s)"
  shows "pc (leave_one p n s) (\<lambda>t. (server_inv t \<and> p \<in> dom (sv_heap t)) \<and>
    insert p (friends p t) \<subseteq> insert p (friends p s) \<and> confined (insert p (friends p s)) s t)"
proof (cases "om_find n (sv_channels s)")
  case None
  then show ?thesis by (simp add: leave_one_def channel_at_def)
next
  case (Some ch)
  show ?thesis
  proof (rule pc_mono [OF pc_of_wp [OF wp_pc [OF leave_one_wp [OF i p Some] leave_one_confined]]])
    fix t
    assume t: "(server_inv t \<and> p \<in> dom (sv_heap t) \<and> chan_update n (left_channel p ch) s t) \<and>
        confined (insert p (friends p s)) s t"
    have m: "set (ch_members ch') \<subseteq> set (ch_members ch)" if "left_channel p ch = Some ch'" for ch'
      using that set_vec_erase_subset [of p "ch_members ch"] by (auto simp: left_channel_def split: if_splits)
    have "\<exists>ch. om_find k (sv_channels s) = Some ch \<and> set (ch_members ch') \<subseteq> set (ch_members ch)"
      if "om_find k (sv_channels t) = Some ch'" for k ch'
      using that t m Some by (cases "k = n") (auto simp: chan_update_def)
    then have "friends p t \<subseteq> friends p s" by (intro company_shrink)
    then show "(server_inv t \<and> p \<in> dom (sv_heap t)) \<and>
        insert p (friends p t) \<subseteq> insert p (friends p s) \<and> confined (insert p (friends p s)) s t"
      using t by blast
  qed
qed

lemma leave_loop_confined:
  assumes "server_inv s" and "p \<in> dom (sv_heap s)"
  shows "pc (leave_loop p it s) (confined (insert p (friends p s)) s)"
  unfolding leave_loop_for_each
  by (rule for_each_circle [where C = "\<lambda>t. insert p (friends p t)" and I = "\<lambda>t. server_inv t \<and> p \<in> dom (sv_heap t)"])
    (use assms in simp, use leave_one_circle in \<open>simp only: conj_assoc\<close>)

text \<open>The channels that are entered keep the client and everyone that was there, whatever follows.\<close>

definition only_joins :: "cptr \<Rightarrow> server \<Rightarrow> server \<Rightarrow> bool" where
  "only_joins p s t \<longleftrightarrow> (\<forall>m ch. om_find m (sv_channels s) = Some ch \<longrightarrow>
     (\<exists>ch'. om_find m (sv_channels t) = Some ch' \<and> joined p ch ch'))"

lemma joined_members: "joined p ch ch' \<Longrightarrow> isMember ch q \<Longrightarrow> isMember ch' q"
  by (auto simp: joined_def isMember_iff channel_op_defs)

lemma entered_before:
  assumes "only_joins p t u" and "only_joins p s t"
  shows "entered p s t \<subseteq> entered p s u" and "entered p t u \<subseteq> entered p s u"
proof -
  have later: "\<exists>ch'. om_find n (sv_channels b) = Some ch' \<and> (\<forall>q. isMember ch q \<longrightarrow> isMember ch' q)"
    if "only_joins p a b" "om_find n (sv_channels a) = Some ch" for a b n ch
    using that joined_members unfolding only_joins_def by blast
  show "entered p s t \<subseteq> entered p s u"
    unfolding entered_def using later [OF assms(1)] by blast
  show "entered p t u \<subseteq> entered p s u"
    unfolding entered_def using later [OF assms(2)] by blast
qed

lemma join_one_confined:
  assumes i: "server_inv s" and p: "p \<in> reg_ptrs s" and n: "clean n"
  shows "pc (join_one p n key s) (\<lambda>t. confined (insert p (entered p s t)) s t)"
proof -
  from p obtain c where c: "sv_heap s p = Some c" by (auto simp: reg_ptrs_def)
  let ?Q = "join_audience p n key (om_find n (sv_channels s))"
  have "pc (join_one p n key s) (\<lambda>t. (server_inv t \<and>
      chan_update n (join_result p n key (om_find n (sv_channels s))) s t) \<and>
      only_own p (queue (join_message c n) ?Q s) t)"
    by (rule pc_of_wp [OF wp_pc [OF join_one_wp [OF i p n] join_one_others [OF i c p n]]])
  then show ?thesis
  proof (rule pc_mono)
    fix t
    assume t: "(server_inv t \<and> chan_update n (join_result p n key (om_find n (sv_channels s))) s t) \<and>
      only_own p (queue (join_message c n) ?Q s) t"
    have "?Q \<subseteq> entered p s t"
    proof (cases "?Q = {}")
      case False
      then obtain ch where ch: "om_find n (sv_channels s) = Some ch" "isValidChannelName n" "\<not> isMember ch p"
        "may_join p key ch" "?Q = set (ch_members ch)"
        by (auto simp: join_audience_def split: option.splits if_splits)
      let ?ch = "removeInvited p (addMember p ch)"
      have "om_find n (sv_channels t) = Some ?ch" using t ch by (simp add: chan_update_def join_result_def)
      moreover have "isMember ?ch p" "\<forall>q \<in> set (ch_members ch). isMember ?ch q"
        by (simp_all add: isMember_iff channel_op_defs)
      ultimately show ?thesis
        unfolding entered_def using ch(1,3,5) by (intro subsetI CollectI exI [of _ n] exI [of _ ?ch]) simp
    qed simp
    then have "confined (insert p (entered p s t)) s (queue (join_message c n) ?Q s)" by (intro confined_queue) auto
    moreover have "confined (insert p (entered p s t)) (queue (join_message c n) ?Q s) t"
      by (rule confined_own) (use t in auto)
    ultimately show "confined (insert p (entered p s t)) s t" by (rule confined_trans)
  qed
qed

lemma join_loop_confined:
  "server_inv s \<Longrightarrow> p \<in> reg_ptrs s \<Longrightarrow> list_all clean ns \<Longrightarrow>
   pc (join_loop p ns keys s) (\<lambda>t. confined (insert p (entered p s t)) s t)"
proof (induction ns arbitrary: keys s)
  case (Cons n ns)
  let ?k = "case keys of [] \<Rightarrow> [] | key # _ \<Rightarrow> key"
  have "wp (join_one p n ?k s) (\<lambda>t. (server_inv t \<and>
      chan_update n (join_result p n ?k (om_find n (sv_channels s))) s t) \<and> reg_ptrs s \<subseteq> reg_ptrs t)"
    using Cons.prems by (intro wp_handled_reg [OF join_one_wp join_one_frame]) simp_all
  moreover have "wp (join_loop p [n] [?k] s) (only_joins p s)"
    using Cons.prems join_loop_joined [of s p "[n]" "[?k]"] by (simp add: only_joins_def)
  ultimately have step: "pc (join_one p n ?k s) (\<lambda>t. server_inv t \<and> reg_ptrs s \<subseteq> reg_ptrs t \<and> only_joins p s t \<and>
      confined (insert p (entered p s t)) s t)"
    using join_one_confined [OF Cons.prems(1,2), of n ?k] Cons.prems(3) by (auto simp: wp_def pc_def)
  show ?case
    unfolding join_loop.simps pc_bind
  proof (rule pc_mono [OF step])
    fix t
    assume t: "server_inv t \<and> reg_ptrs s \<subseteq> reg_ptrs t \<and> only_joins p s t \<and> confined (insert p (entered p s t)) s t"
    have later: "pc (join_loop p ns (tl keys) t) (\<lambda>u. confined (insert p (entered p t u)) t u)"
      using t Cons.prems by (intro Cons.IH) auto
    have joins: "pc (join_loop p ns (tl keys) t) (only_joins p t)"
      unfolding only_joins_def by (rule pc_of_wp [OF join_loop_joined]) (use t Cons.prems in auto)
    show "pc (join_loop p ns (tl keys) t) (\<lambda>u. confined (insert p (entered p s u)) s u)"
      unfolding pc_def
    proof (intro allI impI)
      fix u
      assume u: "join_loop p ns (tl keys) t = Some u"
      have "entered p s t \<subseteq> entered p s u" "entered p t u \<subseteq> entered p s u"
        using entered_before [OF pcD [OF joins u]] t by blast+
      moreover have "confined (insert p (entered p t u)) t u" by (rule pcD [OF later u])
      ultimately show "confined (insert p (entered p s u)) s u"
        using t by (blast intro: confined_trans confined_mono)
    qed
  qed
qed simp

text \<open>\<open>JOIN 0\<close> leaves every channel that the client is on.\<close>

lemma leave_all_confined:
  assumes i: "server_inv s" and p: "p \<in> dom (sv_heap s)"
  shows "pc (leave_loop p (om_keys (sv_channels s)) s) (\<lambda>t. confined (insert p (entered p t s)) s t)"
  unfolding pc_def
proof (intro allI impI)
  fix t
  assume t: "leave_loop p (om_keys (sv_channels s)) s = Some t"
  have left: "\<not> isMember ch p" if n: "om_find n (sv_channels t) = Some ch" for n ch
  proof -
    obtain ch0 where ch0: "om_find n (sv_channels s) = Some ch0" "left_channel p ch0 = Some ch"
      using leave_all_wp [OF i p] t n by (cases "om_find n (sv_channels s)") auto
    then show ?thesis
      using removeMember_not_member [OF inv_channel [OF i ch0(1), THEN conjunct2], of p]
      by (auto simp: left_channel_def split: if_splits)
  qed
  then have "friends p s \<subseteq> entered p t s" by (auto simp: company_def entered_def)
  then show "confined (insert p (entered p t s)) s t"
    using pcD [OF leave_loop_confined [OF i p] t] confined_mono by blast
qed

lemma join_confined:
  assumes i: "server_inv s" and p: "p \<in> reg_ptrs s" and cl: "list_all clean params"
  shows "pc (join_execute p params s) (\<lambda>t. confined (insert p (entered p s t \<union> entered p t s)) s t)"
proof -
  have list: "pc (join_loop p ns keys s) (\<lambda>t. confined (insert p (entered p s t \<union> entered p t s)) s t)"
    if "list_all clean ns" for ns keys
    by (rule pc_mono [OF join_loop_confined [OF i p that]]) (auto elim: confined_mono)
  have leave: "pc (leave_loop p (om_keys (sv_channels s)) s) (\<lambda>t. confined (insert p (entered p s t \<union> entered p t s)) s t)"
    by (rule pc_mono [OF leave_all_confined [OF i reg_dom [OF p]]]) (auto elim: confined_mono)
  have send: "pc (send_to p m s) (\<lambda>t. confined (insert p (entered p s t \<union> entered p t s)) s t)" for m
    by (rule pc_mono [OF send_confined [of p "{p}"]]) (auto elim: confined_mono)
  have names: "list_all clean (splitString (hd params) CHR '','')" if "params \<noteq> []"
    using that cl by (cases params) (simp_all add: clean_split)
  show ?thesis
    unfolding join_execute_def by (intro pc_read_client pc_if leave list names send)
qed

section \<open>The contract, with the circle of each command\<close>

text \<open>Whom a command may reach, beside the client itself; \<open>t\<close> is the state after it.\<close>

definition circle :: "command_kind \<Rightarrow> cptr \<Rightarrow> string list \<Rightarrow> server \<Rightarrow> server \<Rightarrow> cptr set" where
  "circle k p params s t =
     (case k of
        PassCommand \<Rightarrow> {} | UserCommand \<Rightarrow> {}
      | NickCommand \<Rightarrow> friends p s
      | JoinCommand \<Rightarrow> entered p s t \<union> entered p t s
      | KickCommand \<Rightarrow> company (first_names params) p s
      | TopicCommand \<Rightarrow> company (set (take 1 params)) p s | ModeCommand \<Rightarrow> company (set (take 1 params)) p s
      | InviteCommand \<Rightarrow> named (take 1 params) s
      | PrivmsgCommand \<Rightarrow> company (first_names params) p s \<union> named (splitString (hd params) CHR '','') s)"

locale confined_command = command_handler +
  fixes kind :: command_kind
  assumes exec_confined: "server_inv s \<Longrightarrow> p \<in> dom (sv_heap s) \<Longrightarrow> list_all clean params \<Longrightarrow>
      (registered_only \<longrightarrow> p \<in> reg_ptrs s) \<Longrightarrow>
      pc (exec p params s) (\<lambda>t. confined (insert p (circle kind p params s t)) s t)"
begin

text \<open>Whoever is not of the circle notices nothing.\<close>

lemma exec_unheard:
  assumes "server_inv s" and "p \<in> dom (sv_heap s)" and "list_all clean params"
    and "registered_only \<longrightarrow> p \<in> reg_ptrs s" and "exec p params s = Some t"
    and "q \<noteq> p" and "q \<notin> circle kind p params s t"
  shows "sv_heap t q = sv_heap s q"
  using pcD [OF exec_confined [OF assms(1-4)] assms(5)] assms(6,7) by (simp add: confined_def)

end

interpretation pass_circle: confined_command pass_execute False PassCommand
  by unfold_locales (simp add: circle_def pass_confined)

interpretation user_circle: confined_command user_execute False UserCommand
  by unfold_locales (simp add: circle_def user_confined)

interpretation nick_circle: confined_command nick_execute False NickCommand
  by unfold_locales (simp add: circle_def nick_confined)

interpretation join_circle: confined_command join_execute True JoinCommand
  by unfold_locales (simp add: circle_def join_confined)

interpretation privmsg_circle: confined_command privmsg_execute True PrivmsgCommand
  by unfold_locales (simp add: circle_def privmsg_confined)

interpretation kick_circle: confined_command kick_execute True KickCommand
  by unfold_locales (simp add: circle_def kick_confined)

interpretation invite_circle: confined_command invite_execute True InviteCommand
  using invite_confined by unfold_locales (simp add: circle_def)

interpretation topic_circle: confined_command topic_execute True TopicCommand
  using topic_confined by unfold_locales (simp add: circle_def)

interpretation mode_circle: confined_command mode_execute True ModeCommand
  using mode_confined by unfold_locales (simp add: circle_def)

section \<open>Any line\<close>

lemma execute_confined:
  assumes "server_inv s" and "p \<in> dom (sv_heap s)" and "list_all clean params"
    and "k \<notin> {PassCommand, NickCommand, UserCommand} \<Longrightarrow> p \<in> reg_ptrs s"
  shows "pc (execute k p params s) (\<lambda>t. confined (insert p (circle k p params s t)) s t)"
  using assms
  by (cases k)
    (simp_all add: execute_def pass_circle.exec_confined nick_circle.exec_confined user_circle.exec_confined
      join_circle.exec_confined privmsg_circle.exec_confined kick_circle.exec_confined
      invite_circle.exec_confined topic_circle.exec_confined mode_circle.exec_confined)

lemma processMessage_confined:
  assumes i: "server_inv s" and p: "p \<in> dom (sv_heap s)" and cl: "list_all clean (msg_params msg)"
  shows "pc (processMessage p msg s) (\<lambda>t. confined (insert p
     (case om_find (msg_command msg) (sv_commands s) of
        None \<Rightarrow> {} | Some k \<Rightarrow> circle k p (msg_params msg) s t)) s t)"
proof -
  let ?Q = "\<lambda>t. confined (insert p (case om_find (msg_command msg) (sv_commands s) of
      None \<Rightarrow> {} | Some k \<Rightarrow> circle k p (msg_params msg) s t)) s t"
  from p obtain c where c: "sv_heap s p = Some c" by blast
  have own: "pc m (confined {p} s) \<Longrightarrow> pc m ?Q" for m
    by (erule pc_mono) (auto elim: confined_mono)
  have exec: "pc (execute k p (msg_params msg) s) ?Q"
    if "om_find (msg_command msg) (sv_commands s) = Some k"
      "msg_command msg = ''PASS'' \<or> msg_command msg = ''NICK'' \<or> msg_command msg = ''USER'' \<or> isRegistered c" for k
  proof -
    have "pc (execute k p (msg_params msg) s) (\<lambda>t. confined (insert p (circle k p (msg_params msg) s t)) s t)"
      by (rule execute_confined [OF i p cl])
        (use that c in \<open>auto simp: commands_table [OF i] reg_ptrs_def split: if_splits\<close>)
    then show ?thesis by (simp add: that(1))
  qed
  have read: "pc (deref p s \<bind> f) Q" if "pc (f c) Q" for f and Q :: "server \<Rightarrow> bool"
    using that c by (simp add: deref_def)
  have send: "pc (send_to p m s) ?Q" and quit: "pc (invoke f p s) ?Q" for m f
    by (rule own [OF send_confined], simp, rule own [OF invoke_confined], simp)
  show ?thesis
    unfolding processMessage_def Let_def
    by (intro pc_if pc_case_option read send quit exec) auto
qed

lemma processLine_confined:
  "server_inv s \<Longrightarrow> p \<in> dom (sv_heap s) \<Longrightarrow> clean l \<Longrightarrow>
   pc (processLine p l s) (\<lambda>t. confined (insert p
     (case om_find (msg_command (parse l)) (sv_commands s) of
        None \<Rightarrow> {} | Some k \<Rightarrow> circle k p (msg_params (parse l)) s t)) s t)"
  unfolding processLine_def by (rule processMessage_confined) (simp_all add: clean_params)

end
