(* ===== verification/Bot.thy ===== *)
theory Bot
  imports Dispatch
begin

text \<open>
  \<open>include/Bot.hpp\<close> and \<open>src/bot/Bot.cpp\<close>: the bot that connects
  as an ordinary client and greets those who join its channel. An exception is a value
  \<open>Inl\<close>: its text and the bot as it was thrown, which the destructor will find. The answers of \<open>send()\<close> still to come are part of the state (\<open>bt_sends\<close>),
  and so are the bytes the socket has taken (\<open>bt_sent\<close>), the descriptors the bot has
  open (\<open>bt_fds\<close>), the answers of \<open>close()\<close> still to come (\<open>bt_closes\<close>, a failure or \<open>None\<close>; when the list has ended \<open>close()\<close> succeeds) and the lines that \<open>Bot.cpp\<close> itself has
  written to \<open>std::cerr\<close> (\<open>bt_cerr\<close>); a computation that needs an
  answer when there is none is blocked in the system call and has no result (\<open>None\<close>).
\<close>

section \<open>The state\<close>

record bot =
  bt_host :: string
  bt_port :: int
  bt_password :: string
  bt_channel :: string
  bt_socketFd :: int
  bt_receiveBuffer :: string
  bt_sends :: "send_result list"
  bt_sent :: string
  bt_fds :: "int set"
  bt_closes :: "errno option list"
  bt_cerr :: "string list"

type_synonym 'a bot_result = "((string \<times> bot) + 'a) option"

definition MAX_RECEIVE_BUFFER_SIZE :: nat where
  "MAX_RECEIVE_BUFFER_SIZE = 8192"

definition RECEIVE_CHUNK_SIZE :: nat where
  "RECEIVE_CHUNK_SIZE = 4096"

definition BOT_NICKNAME :: string where
  "BOT_NICKNAME = ''ft_bot''"

definition new_Bot ::
  "string \<Rightarrow> int \<Rightarrow> string \<Rightarrow> string \<Rightarrow> send_result list \<Rightarrow> errno option list \<Rightarrow> string + bot" where
  "new_Bot host port password channel sends closes =
     (if host = [] \<or> password = [] \<or> channel = [] then Inl ''bot arguments must not be empty''
      else if port < 1 \<or> port > 65535 then Inl ''bot port must be between 1 and 65535''
      else Inr \<lparr>bt_host = host, bt_port = port, bt_password = password, bt_channel = channel,
                bt_socketFd = -1, bt_receiveBuffer = [], bt_sends = sends, bt_sent = [], bt_fds = {},
                bt_closes = closes, bt_cerr = []\<rparr>)"

definition close_warning :: "errno \<Rightarrow> string" where
  "close_warning e = cat [''Warning: bot close() failed: '', strerror e, ''.'']"

text \<open>The descriptor is gone also when \<open>close()\<close> fails, as it is on Linux.\<close>

definition closeBotSocket :: "int \<Rightarrow> bot \<Rightarrow> bot" where
  "closeBotSocket fd b =
     (if fd \<ge> 0
      then let b1 = b\<lparr>bt_fds := bt_fds b - {fd}, bt_closes := tl (bt_closes b)\<rparr>
           in (case bt_closes b of
                 Some e # _ \<Rightarrow> b1\<lparr>bt_cerr := bt_cerr b @ [close_warning e]\<rparr>
               | _ \<Rightarrow> b1)
      else b)"

definition destroy_Bot :: "bot \<Rightarrow> bot" where
  "destroy_Bot b =
     (if bt_socketFd b \<ge> 0 then (closeBotSocket (bt_socketFd b) b)\<lparr>bt_socketFd := -1\<rparr> else b)"

text \<open>Sequencing: an exception ends the computation.\<close>

definition bot_then :: "'a bot_result \<Rightarrow> ('a \<Rightarrow> 'b bot_result) \<Rightarrow> 'b bot_result" where
  "bot_then m f = do { r \<leftarrow> m; (case r of Inl e \<Rightarrow> Some (Inl e) | Inr x \<Rightarrow> f x) }"

lemma bot_then_simps [simp]:
  "bot_then None f = None" "bot_then (Some (Inl e)) f = Some (Inl e)" "bot_then (Some (Inr x)) f = f x"
  by (simp_all add: bot_then_def)

section \<open>\<open>Bot::sendLine\<close>\<close>

text \<open>The loop over \<open>sentBytes\<close>: what is left of the message, the answers to come, what went out.\<close>

fun send_loop ::
  "string \<Rightarrow> send_result list \<Rightarrow> string \<Rightarrow> ((string \<times> send_result list \<times> string) + (send_result list \<times> string)) option" where
  "send_loop [] answers out = Some (Inr (answers, out))"
| "send_loop (b # left) [] out = None"
| "send_loop (b # left) (SendFailed e # answers) out =
     (if e = EINTR then send_loop (b # left) answers out
      else Some (Inl (cat [''bot send() failed: '', strerror e], answers, out)))"
| "send_loop (b # left) (Sent n # answers) out =
     (if n = 0 then Some (Inl (''bot send() returned zero bytes'', answers, out))
      else send_loop (drop n (b # left)) answers (out @ take n (b # left)))"

definition bot_sendLine :: "string \<Rightarrow> bot \<Rightarrow> bot bot_result" where
  "bot_sendLine line b =
     (if line = [] \<or> length line + 2 > MAX_IRC_MESSAGE_SIZE then Some (Inl (''bot refused an invalid IRC line'', b))
      else if list_ex (\<lambda>ch. ch = NUL \<or> ch = CR \<or> ch = LF) line
      then Some (Inl (''bot refused an IRC control byte'', b))
      else let sent = (\<lambda>(answers, out). b\<lparr>bt_sends := answers, bt_sent := bt_sent b @ out\<rparr>)
           in map_option (map_sum (map_prod id sent) sent) (send_loop (line @ crlf) (bt_sends b) []))"

section \<open>\<open>Bot::extractLine\<close>\<close>

definition bot_extractLine :: "bot \<Rightarrow> (string \<times> bot) + string option \<times> bot" where
  "bot_extractLine b =
     (case str_find [LF] (bt_receiveBuffer b) of
        None \<Rightarrow>
          if length (bt_receiveBuffer b) \<ge> MAX_IRC_MESSAGE_SIZE then Inl (''bot received an oversized IRC line'', b)
          else Inr (None, b)
      | Some newlinePosition \<Rightarrow>
          if newlinePosition + 1 > MAX_IRC_MESSAGE_SIZE then Inl (''bot received an oversized IRC line'', b)
          else let line = strip_cr (take newlinePosition (bt_receiveBuffer b));
                   b' = b\<lparr>bt_receiveBuffer := drop (newlinePosition + 1) (bt_receiveBuffer b)\<rparr>
               in if list_ex (\<lambda>ch. ch = NUL \<or> ch = CR) line then Inl (''bot received an IRC control byte'', b')
                  else Inr (Some line, b'))"

section \<open>\<open>Bot::processLine\<close>\<close>

definition greetJoinedUser :: "string \<Rightarrow> bot \<Rightarrow> bot bot_result" where
  "greetJoinedUser line b =
     (if line = [] \<or> hd line \<noteq> CHR '':'' then Some (Inr b)
      else case (str_find '' JOIN '' line, str_find ''!'' line) of
        (Some joinPosition, Some nicknameEnd) \<Rightarrow>
          if nicknameEnd > joinPosition then Some (Inr b)
          else let nickname = take (nicknameEnd - 1) (drop 1 line) in
            if nickname = [] \<or> nickname = BOT_NICKNAME then Some (Inr b)
            else let rest = drop (joinPosition + 6) line;
                     joinedChannel = (if rest \<noteq> [] \<and> hd rest = CHR '':'' then tl rest else rest)
              in if joinedChannel \<noteq> bt_channel b then Some (Inr b)
                 else bot_sendLine (cat [''PRIVMSG '', bt_channel b, '' :Hello @'', nickname]) b
      | _ \<Rightarrow> Some (Inr b))"

definition bot_processLine :: "string \<Rightarrow> bot \<Rightarrow> bot bot_result" where
  "bot_processLine line b =
     (if take 5 line = ''PING '' then bot_sendLine (cat [''PONG '', drop 5 line]) b
      else if str_find '' 001 '' line \<noteq> None then bot_sendLine (cat [''JOIN '', bt_channel b]) b
      else if str_find '' 433 '' line \<noteq> None then Some (Inl (''bot nickname is already in use'', b))
      else if str_find '' 464 '' line \<noteq> None then Some (Inl (''bot password was rejected'', b))
      else greetJoinedUser line b)"

section \<open>What the operations keep\<close>

text \<open>The bot as a computation leaves it, by an exception or not.\<close>

definition bot_end :: "bot bot_result \<Rightarrow> bot option" where
  "bot_end r = map_option (case_sum snd id) r"

lemma bot_end_simps [simp]:
  "bot_end None = None" "bot_end (Some (Inl x)) = Some (snd x)" "bot_end (Some (Inr b)) = Some b"
  by (simp_all add: bot_end_def)

text \<open>Only the bytes sent and the answers used up change.\<close>

definition only_sends :: "bot \<Rightarrow> bot bot_result \<Rightarrow> bool" where
  "only_sends b r \<longleftrightarrow> (\<forall>b'. bot_end r = Some b' \<longrightarrow>
     b' = b\<lparr>bt_sends := bt_sends b', bt_sent := bt_sent b'\<rparr>)"

lemma only_sends_Inr [simp]: "only_sends b (Some (Inr b))" "only_sends b (Some (Inl (e, b)))"
  by (simp_all add: only_sends_def)

lemma only_sends_sendLine [simp]: "only_sends b (bot_sendLine line b)"
proof (cases "send_loop (line @ crlf) (bt_sends b) []")
  case (Some r)
  then show ?thesis by (cases r) (auto simp: only_sends_def bot_sendLine_def Let_def)
qed (auto simp: only_sends_def bot_sendLine_def)

lemma only_sends_processLine: "only_sends b (bot_processLine line b)"
  by (auto simp: bot_processLine_def greetJoinedUser_def Let_def split: option.splits)

lemma only_sends_fields:
  assumes "only_sends b r" and "bot_end r = Some b'"
  shows "bt_receiveBuffer b' = bt_receiveBuffer b" "bt_fds b' = bt_fds b" "bt_socketFd b' = bt_socketFd b"
    "bt_channel b' = bt_channel b" "bt_password b' = bt_password b"
    "bt_closes b' = bt_closes b" "bt_cerr b' = bt_cerr b"
proof -
  have b': "b' = b\<lparr>bt_sends := bt_sends b', bt_sent := bt_sent b'\<rparr>" using assms by (simp add: only_sends_def)
  show "bt_receiveBuffer b' = bt_receiveBuffer b" "bt_fds b' = bt_fds b" "bt_socketFd b' = bt_socketFd b"
    "bt_channel b' = bt_channel b" "bt_password b' = bt_password b"
    "bt_closes b' = bt_closes b" "bt_cerr b' = bt_cerr b"
    by (subst b', simp)+
qed

lemma processLine_buffer:
  "bot_processLine line b = Some (Inr b') \<Longrightarrow> bt_receiveBuffer b' = bt_receiveBuffer b"
  using only_sends_fields(1) [OF only_sends_processLine [of b line]] by simp

lemma bot_extract_shorter:
  "bot_extractLine b = Inr (Some l, b') \<Longrightarrow> length (bt_receiveBuffer b') < length (bt_receiveBuffer b)"
  by (auto simp: bot_extractLine_def Let_def str_find_char_Some split: option.splits if_splits)

section \<open>\<open>Bot::receiveMessages\<close> and \<open>Bot::run\<close>\<close>

function bot_lines :: "bot \<Rightarrow> bot bot_result" where
  "bot_lines b =
     (case bot_extractLine b of
        Inl e \<Rightarrow> Some (Inl e)
      | Inr (None, b') \<Rightarrow> Some (Inr b')
      | Inr (Some line, b') \<Rightarrow>
          (case bot_processLine line b' of
             None \<Rightarrow> None
           | Some (Inl e) \<Rightarrow> Some (Inl e)
           | Some (Inr b'') \<Rightarrow> bot_lines b''))"
  by pat_completeness auto
termination
  by (relation "measure (\<lambda>b. length (bt_receiveBuffer b))")
    (auto dest!: bot_extract_shorter processLine_buffer)

declare bot_lines.simps [simp del]

text \<open>The loop over \<open>recv()\<close>: it returns when the server closes, and blocks while nothing comes.\<close>

fun receiveMessages :: "recv_result list \<Rightarrow> bot \<Rightarrow> bot bot_result" where
  "receiveMessages [] b = None"
| "receiveMessages (RecvFailed e # answers) b =
     (if e = EINTR then receiveMessages answers b
      else Some (Inl (cat [''bot recv() failed: '', strerror e], b)))"
| "receiveMessages (Pending bytes # answers) b =
     (let chunk = take RECEIVE_CHUNK_SIZE bytes in
      if chunk = [] then Some (Inr b)
      else if length (bt_receiveBuffer b) > MAX_RECEIVE_BUFFER_SIZE \<or>
              length chunk > MAX_RECEIVE_BUFFER_SIZE - length (bt_receiveBuffer b)
      then Some (Inl (''bot receive buffer limit exceeded'', b))
      else bot_then (bot_lines (b\<lparr>bt_receiveBuffer := bt_receiveBuffer b @ chunk\<rparr>)) (receiveMessages answers))"

text \<open>
  \<open>connectToServer\<close>: each address gives what \<open>socket()\<close> returned and whether
  \<open>connect()\<close> succeeded; \<open>Inl\<close> is a failure of \<open>getaddrinfo()\<close>.
\<close>

fun try_addresses :: "(int \<times> bool) list \<Rightarrow> bot \<Rightarrow> bot" where
  "try_addresses [] b = b"
| "try_addresses ((candidateFd, connected) # addresses) b =
     (if candidateFd < 0 then try_addresses addresses b
      else let b1 = b\<lparr>bt_fds := insert candidateFd (bt_fds b)\<rparr>
        in if connected then b1\<lparr>bt_socketFd := candidateFd\<rparr>
           else try_addresses addresses (closeBotSocket candidateFd b1))"

definition connectToServer :: "string + (int \<times> bool) list \<Rightarrow> bot \<Rightarrow> bot bot_result" where
  "connectToServer resolved b =
     (case resolved of
        Inl e \<Rightarrow> Some (Inl (cat [''getaddrinfo() failed: '', e], b))
      | Inr addresses \<Rightarrow>
          let b' = try_addresses addresses b
          in if bt_socketFd b' < 0 then Some (Inl (''bot could not connect to the IRC server'', b'))
             else Some (Inr b'))"

text \<open>The first argument is the failure of \<open>signal()\<close>, if any.\<close>

definition bot_run :: "errno option \<Rightarrow> string + (int \<times> bool) list \<Rightarrow> recv_result list \<Rightarrow> bot \<Rightarrow> bot bot_result" where
  "bot_run ignored resolved received b =
     (case ignored of Some e \<Rightarrow> Some (Inl (cat [''bot signal(SIGPIPE) failed: '', strerror e], b)) | None \<Rightarrow>
     bot_then (connectToServer resolved b) (\<lambda>b1.
     bot_then (bot_sendLine (cat [''PASS :'', bt_password b1]) b1) (\<lambda>b2.
     bot_then (bot_sendLine (cat [''NICK '', BOT_NICKNAME]) b2) (\<lambda>b3.
     bot_then (bot_sendLine ''USER ftbot 0 * :ft_irc bonus bot'' b3) (\<lambda>b4.
     receiveMessages received b4)))))"

section \<open>The descriptors of the bot\<close>

text \<open>Nothing but warnings of failed calls of \<open>close()\<close> has been written to \<open>std::cerr\<close>.\<close>

definition warned :: "errno option list \<Rightarrow> bot \<Rightarrow> bool" where
  "warned closes b \<longleftrightarrow> set (bt_closes b) \<subseteq> set closes \<and>
     (\<forall>w \<in> set (bt_cerr b). \<exists>e. Some e \<in> set closes \<and> w = close_warning e)"

lemma warned_close: "warned closes b \<Longrightarrow> warned closes (closeBotSocket fd b)"
  by (cases "bt_closes b") (auto simp: warned_def closeBotSocket_def Let_def split: option.split)

lemma close_fields [simp]:
  "bt_fds (closeBotSocket fd b) = (if fd \<ge> 0 then bt_fds b - {fd} else bt_fds b)"
  "bt_socketFd (closeBotSocket fd b) = bt_socketFd b"
  by (auto simp: closeBotSocket_def Let_def split: list.split option.split)

text \<open>No candidate socket is left open but the connected one, and the destructor closes that.\<close>

definition owns_socket :: "errno option list \<Rightarrow> bot \<Rightarrow> bool" where
  "owns_socket closes b \<longleftrightarrow> warned closes b \<and> bt_fds b = (if bt_socketFd b < 0 then {} else {bt_socketFd b})"

lemma destroy_owned: "owns_socket closes b \<Longrightarrow> bt_fds (destroy_Bot b) = {} \<and> warned closes (destroy_Bot b)"
  using warned_close [of closes b "bt_socketFd b"]
  by (auto simp: owns_socket_def destroy_Bot_def warned_def split: if_splits)

lemma try_addresses_fds:
  "bt_fds b = {} \<Longrightarrow> bt_socketFd b < 0 \<Longrightarrow> warned closes b \<Longrightarrow> owns_socket closes (try_addresses addresses b)"
proof (induction addresses b rule: try_addresses.induct)
  case (2 fd connected addresses b)
  let ?b = "b\<lparr>bt_fds := insert fd (bt_fds b)\<rparr>"
  have "warned closes ?b" using "2.prems" by (simp add: warned_def)
  then show ?case
    using 2 warned_close [of closes ?b fd] by (auto simp: Let_def owns_socket_def warned_def)
qed (simp add: owns_socket_def)

definition ends_owned :: "errno option list \<Rightarrow> bot bot_result \<Rightarrow> bool" where
  "ends_owned closes r \<longleftrightarrow> (\<forall>b. bot_end r = Some b \<longrightarrow> owns_socket closes b)"

lemma ends_owned_simps [simp]:
  "ends_owned closes None" "ends_owned closes (Some (Inr b)) \<longleftrightarrow> owns_socket closes b" "ends_owned closes (Some (Inl x)) \<longleftrightarrow> owns_socket closes (snd x)"
  by (simp_all add: ends_owned_def)

lemma ends_owned_then:
  assumes "ends_owned closes m" and "\<And>b. owns_socket closes b \<Longrightarrow> ends_owned closes (f b)"
  shows "ends_owned closes (bot_then m f)"
proof (cases m)
  case (Some r)
  then show ?thesis using assms by (cases r) auto
qed simp

lemma only_sends_owned: "owns_socket closes b \<Longrightarrow> only_sends b r \<Longrightarrow> ends_owned closes r"
  using only_sends_fields(2,3,6,7) [of b r] by (simp add: ends_owned_def owns_socket_def warned_def)

lemma connect_owned:
  "bt_fds b = {} \<Longrightarrow> bt_socketFd b < 0 \<Longrightarrow> warned closes b \<Longrightarrow> ends_owned closes (connectToServer resolved b)"
  using try_addresses_fds by (cases resolved) (auto simp: connectToServer_def Let_def owns_socket_def)

lemma extract_owned:
  "owns_socket closes b \<Longrightarrow> (case bot_extractLine b of Inl x \<Rightarrow> owns_socket closes (snd x) | Inr x \<Rightarrow> owns_socket closes (snd x))"
  by (auto simp: bot_extractLine_def owns_socket_def warned_def Let_def split: option.splits)

lemma bot_lines_owned: "owns_socket closes b \<Longrightarrow> ends_owned closes (bot_lines b)"
proof (induction b rule: bot_lines.induct)
  case (1 b)
  show ?case
  proof (cases "bot_extractLine b")
    case (Inl x)
    then show ?thesis using extract_owned [OF "1.prems"] by (subst bot_lines.simps) simp
  next
    case (Inr r)
    obtain l b1 where r: "r = (l, b1)" by (cases r)
    have b1: "owns_socket closes b1" using extract_owned [OF "1.prems"] Inr r by simp
    show ?thesis
    proof (cases l)
      case None
      then show ?thesis using Inr r b1 by (subst bot_lines.simps) simp
    next
      case (Some line)
      have p: "ends_owned closes (bot_processLine line b1)" by (rule only_sends_owned [OF b1 only_sends_processLine])
      show ?thesis
      proof (cases "bot_processLine line b1")
        case None
        then show ?thesis using Inr r Some by (subst bot_lines.simps) simp
      next
        case y: (Some y)
        show ?thesis
          using "1.IH" [OF Inr r [symmetric] Some y] p y Inr r Some
          by (cases y) (subst bot_lines.simps, simp)+
      qed
    qed
  qed
qed

lemma receive_owned: "owns_socket closes b \<Longrightarrow> ends_owned closes (receiveMessages received b)"
proof (induction received b rule: receiveMessages.induct)
  case (3 bytes answers b)
  have "owns_socket closes (b\<lparr>bt_receiveBuffer := x\<rparr>)" for x using "3.prems" by (simp add: owns_socket_def warned_def)
  then show ?case
    using "3.IH" "3.prems" by (auto simp: Let_def intro!: ends_owned_then bot_lines_owned)
qed auto

lemma bot_run_owned:
  assumes "new_Bot host port pw ch sends closes = Inr b"
  shows "ends_owned closes (bot_run ignored resolved received b)"
proof -
  have b: "bt_fds b = {}" "bt_socketFd b < 0" "warned closes b"
    using assms by (auto simp: new_Bot_def warned_def split: if_splits)
  then have "owns_socket closes b" by (simp add: owns_socket_def)
  moreover have "ends_owned closes (bot_sendLine line b')" if "owns_socket closes b'" for line b'
    by (rule only_sends_owned [OF that]) simp
  ultimately show ?thesis
    by (auto simp: bot_run_def intro!: ends_owned_then connect_owned receive_owned b split: option.split)
qed

section \<open>What goes out\<close>

lemma send_loop_all: "send_loop m answers out = Some (Inr (rest, out')) \<Longrightarrow> out' = out @ m"
  by (induction m answers out rule: send_loop.induct) (auto split: if_splits)

text \<open>A line is sent whole, in order and with its line end, however the socket splits it.\<close>

lemma sendLine_wire:
  assumes "bot_sendLine line b = Some (Inr b')"
  shows "wire_line line" and "line \<noteq> []" and "bt_sent b' = bt_sent b @ to_wire line"
    and "bt_receiveBuffer b' = bt_receiveBuffer b" and "bt_channel b' = bt_channel b"
    and "bt_password b' = bt_password b"
proof -
  obtain r where r: "send_loop (line @ crlf) (bt_sends b) [] = Some r"
    using assms by (cases "send_loop (line @ crlf) (bt_sends b) []") (auto simp: bot_sendLine_def split: if_splits)
  then obtain rest out where out: "send_loop (line @ crlf) (bt_sends b) [] = Some (Inr (rest, out))"
    using assms by (cases r) (auto simp: bot_sendLine_def split: if_splits)
  show "wire_line line" "line \<noteq> []"
    using assms
    by (auto simp: bot_sendLine_def wire_line_def clean_def list_ex_iff list_all_iff split: if_splits)
  have b': "b' = b\<lparr>bt_sends := rest, bt_sent := bt_sent b @ out\<rparr>"
    using assms out by (auto simp: bot_sendLine_def split: if_splits)
  show "bt_sent b' = bt_sent b @ to_wire line"
    using send_loop_all [OF out] by (simp add: b' to_wire_def)
  show "bt_receiveBuffer b' = bt_receiveBuffer b" "bt_channel b' = bt_channel b" "bt_password b' = bt_password b"
    by (simp_all add: b')
qed

lemma send_loop_part:
  "send_loop m answers out = Some (Inl (e, rest, out')) \<Longrightarrow> \<exists>part. prefix part m \<and> out' = out @ part"
proof (induction m answers out rule: send_loop.induct)
  case (3 b left e' answers out)
  then show ?case by (cases "e' = EINTR") auto
next
  case (4 b left n answers out)
  show ?case
  proof (cases "n = 0")
    case False
    with 4 obtain part where "prefix part (drop n (b # left))" "out' = (out @ take n (b # left)) @ part" by auto
    then have "prefix (take n (b # left) @ part) (b # left)" "out' = out @ take n (b # left) @ part"
      by (metis append_take_drop_id same_prefix_prefix, simp)
    then show ?thesis by blast
  qed (use 4 in auto)
qed auto

lemma sendLine_part:
  assumes "bot_sendLine line b = Some (Inl (e, b'))"
  shows "\<exists>part. prefix part (to_wire line) \<and> bt_sent b' = bt_sent b @ part"
proof (cases "send_loop (line @ crlf) (bt_sends b) []")
  case (Some r)
  show ?thesis
  proof (cases r)
    case (Inl x)
    obtain e' rest out where x: "x = (e', rest, out)" by (cases x) auto
    from send_loop_part [of "line @ crlf" "bt_sends b" "[]" e' rest out] Some Inl x
    have "prefix out (to_wire line)" by (auto simp: to_wire_def)
    with assms Some Inl x show ?thesis
      by (auto simp: bot_sendLine_def Let_def split: if_splits)
  qed (use assms Some in \<open>auto simp: bot_sendLine_def Let_def split: if_splits\<close>)
qed (use assms in \<open>auto simp: bot_sendLine_def split: if_splits\<close>)

text \<open>A socket that always takes something: at most one call for each byte.\<close>

lemma send_loop_progress:
  "list_all (\<lambda>r. \<exists>n. r = Sent (Suc n)) answers \<Longrightarrow> length m \<le> length answers \<Longrightarrow>
   \<exists>rest. send_loop m answers out = Some (Inr (rest, out @ m)) \<and> list_all (\<lambda>r. \<exists>n. r = Sent (Suc n)) rest \<and>
     length answers \<le> length rest + length m"
proof (induction m answers out rule: send_loop.induct)
  case (4 b left n answers out)
  then obtain k where k: "n = Suc k" by auto
  have "\<exists>rest. send_loop (drop n (b # left)) answers (out @ take n (b # left)) =
      Some (Inr (rest, (out @ take n (b # left)) @ drop n (b # left))) \<and>
      list_all (\<lambda>r. \<exists>n. r = Sent (Suc n)) rest \<and> length answers \<le> length rest + length (drop n (b # left))"
    using 4 k by (intro "4.IH") auto
  then show ?case using k by auto
qed auto

lemma sendLine_succeeds:
  assumes "wire_line line" and "line \<noteq> []"
    and "list_all (\<lambda>r. \<exists>n. r = Sent (Suc n)) (bt_sends b)" and "length line + 2 \<le> length (bt_sends b)"
  shows "\<exists>b'. bot_sendLine line b = Some (Inr b') \<and> list_all (\<lambda>r. \<exists>n. r = Sent (Suc n)) (bt_sends b') \<and>
    length (bt_sends b) \<le> length (bt_sends b') + length line + 2"
  using send_loop_progress [OF assms(3), of "line @ crlf" "[]"] assms
  by (auto simp: bot_sendLine_def wire_line_def clean_def list_ex_iff list_all_iff)

section \<open>The bot is a line source\<close>

definition bot_next_line :: "bot \<Rightarrow> string option \<times> bot" where
  "bot_next_line b = (case bot_extractLine b of Inl e \<Rightarrow> (None, b) | Inr r \<Rightarrow> r)"

lemma bot_extract_at_newline:
  assumes buf: "bt_receiveBuffer b = l @ LF # r" and l: "LF \<notin> set l"
  shows "bot_extractLine b =
     (if length l \<ge> MAX_IRC_MESSAGE_SIZE then Inl (''bot received an oversized IRC line'', b)
      else if clean (strip_cr l) then Inr (Some (strip_cr l), b\<lparr>bt_receiveBuffer := r\<rparr>)
      else Inl (''bot received an IRC control byte'', b\<lparr>bt_receiveBuffer := r\<rparr>))"
proof -
  have "clean (strip_cr l) \<longleftrightarrow> \<not> list_ex (\<lambda>ch. ch = NUL \<or> ch = CR) (strip_cr l)"
    using l set_strip_cr [of l] by (auto simp: list_ex_control clean_iff)
  then show ?thesis
    using str_find_char_append [OF l, of r] buf by (simp add: bot_extractLine_def Let_def)
qed

lemma bot_extract_no_newline:
  "LF \<notin> set (bt_receiveBuffer b) \<Longrightarrow> bot_extractLine b =
     (if length (bt_receiveBuffer b) \<ge> MAX_IRC_MESSAGE_SIZE then Inl (''bot received an oversized IRC line'', b)
      else Inr (None, b))"
  by (simp add: bot_extractLine_def)

lemma bot_buffer_cases:
  obtains "LF \<notin> set (bt_receiveBuffer b)" | l r where "bt_receiveBuffer b = l @ LF # r" "LF \<notin> set l"
  by (meson split_list_first)

interpretation bot_lines: line_source bot_next_line bt_receiveBuffer
proof
  fix b :: bot and l b'
  assume e: "bot_next_line b = (Some l, b')"
  then show "clean l \<and> length l < MAX_IRC_MESSAGE_SIZE \<and> (\<exists>w. bt_receiveBuffer b = w @ LF # bt_receiveBuffer b')"
  proof (cases rule: bot_buffer_cases [of b])
    case (2 k r)
    have "length (strip_cr k) \<le> length k" by (simp add: strip_cr_def)
    with e show ?thesis
      by (auto simp: bot_next_line_def bot_extract_at_newline [OF 2] 2 split: if_splits)
  qed (simp add: bot_next_line_def bot_extract_no_newline split: if_splits)
qed (auto simp: bot_next_line_def bot_extract_at_newline bot_extract_no_newline)

section \<open>The receive buffer\<close>

text \<open>After the lines have been taken, less than a line is left.\<close>

definition short_buffer :: "bot \<Rightarrow> bool" where
  "short_buffer b \<longleftrightarrow> length (bt_receiveBuffer b) < MAX_IRC_MESSAGE_SIZE"

lemma bot_lines_short: "bot_lines b = Some (Inr b') \<Longrightarrow> short_buffer b'"
proof (induction b rule: bot_lines.induct)
  case (1 b)
  show ?case
  proof (cases "bot_extractLine b")
    case (Inl e)
    then show ?thesis using "1.prems" by (subst (asm) bot_lines.simps) simp
  next
    case (Inr r)
    obtain x b1 where x: "r = (x, b1)" by (cases r)
    show ?thesis
    proof (cases x)
      case None
      then have "b' = b1" using "1.prems" Inr x by (subst (asm) bot_lines.simps) simp
      moreover have "b1 = b \<and> \<not> length (bt_receiveBuffer b) \<ge> MAX_IRC_MESSAGE_SIZE"
        using Inr x None by (auto simp: bot_extractLine_def Let_def split: option.splits if_splits)
      ultimately show ?thesis by (simp add: short_buffer_def)
    next
      case (Some line)
      obtain y where y: "bot_processLine line b1 = Some y"
        using "1.prems" Inr x Some
        by (cases "bot_processLine line b1") (subst (asm) bot_lines.simps, simp)+
      then obtain b2 where b2: "y = Inr b2"
        using "1.prems" Inr x Some by (cases y) (subst (asm) bot_lines.simps, simp)+
      have "bot_lines b2 = Some (Inr b')"
        using "1.prems" Inr x Some y b2 by (subst (asm) bot_lines.simps) simp
      then show ?thesis using "1.IH" [OF Inr x [symmetric] Some y b2] by simp
    qed
  qed
qed

definition limit_exceeded :: "'a bot_result \<Rightarrow> bool" where
  "limit_exceeded r \<longleftrightarrow> (\<exists>b. r = Some (Inl (''bot receive buffer limit exceeded'', b)))"

lemma limit_sendLine: "\<not> limit_exceeded (bot_sendLine line b)"
proof -
  have "send_loop m answers out \<noteq> Some (Inl (''bot receive buffer limit exceeded'', x))" for m answers out x
    by (induction m answers out rule: send_loop.induct) (auto simp: cat_def)
  then show ?thesis
    by (cases "send_loop (line @ crlf) (bt_sends b) []"; cases "the (send_loop (line @ crlf) (bt_sends b) [])")
      (auto simp: limit_exceeded_def bot_sendLine_def)
qed

lemma limit_processLine: "\<not> limit_exceeded (bot_processLine line b)"
  using limit_sendLine
  by (auto simp: bot_processLine_def greetJoinedUser_def Let_def limit_exceeded_def split: option.splits)

lemma limit_lines: "\<not> limit_exceeded (bot_lines b)"
proof (induction b rule: bot_lines.induct)
  case (1 b)
  show ?case
    using 1 limit_processLine
    by (subst bot_lines.simps)
      (auto simp: limit_exceeded_def bot_extractLine_def Let_def split: sum.splits option.splits prod.splits if_splits)
qed

text \<open>
  Whatever the server sends, the bot never fails with "receive buffer limit exceeded": less
  than a line is left after each read, and a read adds at most 4096 bytes to it.
\<close>

lemma receive_limit: "short_buffer b \<Longrightarrow> \<not> limit_exceeded (receiveMessages received b)"
proof (induction received b rule: receiveMessages.induct)
  case (2 e answers b)
  then show ?case by (auto simp: limit_exceeded_def cat_def)
next
  case (3 bytes answers b)
  let ?chunk = "take RECEIVE_CHUNK_SIZE bytes"
  let ?b = "b\<lparr>bt_receiveBuffer := bt_receiveBuffer b @ ?chunk\<rparr>"
  have fits: "length (bt_receiveBuffer b) + length ?chunk \<le> MAX_RECEIVE_BUFFER_SIZE"
    using 3(2) by (auto simp: short_buffer_def MAX_RECEIVE_BUFFER_SIZE_def RECEIVE_CHUNK_SIZE_def MAX_IRC_MESSAGE_SIZE_def)
  show ?case
  proof (cases "?chunk = []")
    case False
    have e: "receiveMessages (Pending bytes # answers) b = bot_then (bot_lines ?b) (receiveMessages answers)"
      using False fits by (auto simp: Let_def)
    show ?thesis
    proof (cases "bot_lines ?b")
      case (Some r)
      show ?thesis
      proof (cases r)
        case (Inl x)
        then show ?thesis using limit_lines [of ?b] Some e by (simp add: limit_exceeded_def)
      next
        case (Inr b')
        have nb: "\<not> (length (bt_receiveBuffer b) > MAX_RECEIVE_BUFFER_SIZE \<or>
            length ?chunk > MAX_RECEIVE_BUFFER_SIZE - length (bt_receiveBuffer b))" using fits by linarith
        have "\<not> limit_exceeded (receiveMessages answers b')"
          by (rule "3.IH" [OF refl False nb]) (use bot_lines_short Some Inr in auto)
        then show ?thesis using Some Inr e by simp
      qed
    qed (use e in \<open>simp add: limit_exceeded_def\<close>)
  qed (simp add: limit_exceeded_def)
qed (simp add: limit_exceeded_def)

lemma receive_limit_witness:
  "\<exists>b. new_Bot ''localhost'' 6667 ''pw'' ''#c'' [] [] = Inr b \<and>
     \<not> limit_exceeded (receiveMessages [Pending ''PI'', Pending [], RecvFailed EAGAIN] b)"
proof -
  obtain b where b: "new_Bot ''localhost'' 6667 ''pw'' ''#c'' [] [] = Inr b" by (simp add: new_Bot_def)
  then have "short_buffer b" by (auto simp: new_Bot_def short_buffer_def MAX_IRC_MESSAGE_SIZE_def)
  from receive_limit [OF this] b show ?thesis by blast
qed

text \<open>
  C37. \<open>Bot::sendLine\<close>, however the socket cuts the message: when it returns, the bytes
  sent are the line with its CR LF and nothing else, and what went out is a line that the
  server accepts; when it throws, what went out is a first part of that; with a socket that
  always takes something it does return.
\<close>

theorem bot_sends_whole_lines:
  "(\<forall>b'. bot_sendLine line b = Some (Inr b') \<longrightarrow> wire_line line \<and> bt_sent b' = bt_sent b @ to_wire line) \<and>
   (\<forall>e b'. bot_sendLine line b = Some (Inl (e, b')) \<longrightarrow>
      (\<exists>part. prefix part (to_wire line) \<and> bt_sent b' = bt_sent b @ part)) \<and>
   (wire_line line \<and> line \<noteq> [] \<and> list_all (\<lambda>r. \<exists>n. r = Sent (Suc n)) (bt_sends b) \<and>
      length line + 2 \<le> length (bt_sends b) \<longrightarrow> (\<exists>b'. bot_sendLine line b = Some (Inr b')))"
  using sendLine_wire(1,3) sendLine_part sendLine_succeeds by blast

lemma bot_sends_whole_lines_witness:
  "\<exists>b b'. new_Bot ''localhost'' 6667 ''pw'' ''#c'' (replicate 9 (Sent 3)) [] = Inr b \<and>
     bot_sendLine ''NICK x'' b = Some (Inr b') \<and> bt_sent b' = ''NICK x'' @ crlf"
proof -
  obtain b where b: "new_Bot ''localhost'' 6667 ''pw'' ''#c'' (replicate 9 (Sent 3)) [] = Inr b"
    by (simp add: new_Bot_def)
  then have f: "bt_sends b = replicate 9 (Sent 3)" "bt_sent b = []" by (auto simp: new_Bot_def)
  have "wire_line ''NICK x''" by (simp add: wire_line_def MAX_IRC_MESSAGE_SIZE_def)
  moreover have "list_all (\<lambda>r. \<exists>n. r = Sent (Suc n)) (bt_sends b)"
    by (simp add: f list_all_iff)
  ultimately obtain b' where "bot_sendLine ''NICK x'' b = Some (Inr b')" "bt_sent b' = bt_sent b @ to_wire ''NICK x''"
    using bot_sends_whole_lines [of "''NICK x''" b] f(1) by auto
  with b f(2) show ?thesis by (auto simp: to_wire_def)
qed

end
