(* ===== verification/Lifecycle.thy ===== *)
theory Lifecycle
  imports Dispatch
begin

text \<open>
  The life of a connection in \<open>src/server/Server.cpp\<close>: \<open>acceptNewClient\<close>,
  \<open>refreshPollEvents\<close>, \<open>reapDeadClients\<close> and \<open>disconnectClient\<close>. Each keeps the
  server invariant; the invariant ties the map of clients, the heap, the poll vector and
  the open descriptors together, so nothing leaks and nothing dangles.
\<close>

section \<open>The code\<close>

text \<open>
  Which of the three calls that make the client known runs out of memory, if one does: the
  \<open>new\<close>, the insertion into the map, the \<open>push_back\<close> into the poll vector.
\<close>

datatype memory = Memory_ok | New_throws | Insert_throws | Push_throws

text \<open>
  What \<open>accept()\<close>, \<open>fcntl()\<close> and \<open>inet_ntop()\<close> return for one connection: the
  descriptor, whether it could be made non-blocking, and the text of the address; and
  how the allocations for it end.
\<close>

datatype accept_result = AcceptFailed errno | Accepted int bool "string option" memory

definition POLLIN :: "16 word" where "POLLIN = 1"
definition POLLOUT :: "16 word" where "POLLOUT = 4"
definition POLLERR :: "16 word" where "POLLERR = 8"
definition POLLHUP :: "16 word" where "POLLHUP = 16"
definition POLLNVAL :: "16 word" where "POLLNVAL = 32"

definition closeSocket :: "int \<Rightarrow> server \<Rightarrow> server" where
  "closeSocket fd s = (if fd < 0 then s else s\<lparr>os_fds := os_fds s - {fd}\<rparr>)"

text \<open>\<open>delete client\<close>: the destructor closes the socket, then the object is gone.\<close>

definition delete_client :: "cptr \<Rightarrow> client \<Rightarrow> server \<Rightarrow> server" where
  "delete_client p c s = (closeSocket (cl_fd c) s)\<lparr>sv_heap := (sv_heap s)(p := None)\<rparr>"

text \<open>The client object, its entry in the map and its entry in the poll vector.\<close>

definition register_client :: "int \<Rightarrow> client \<Rightarrow> server \<Rightarrow> server" where
  "register_client fd c s =
     s\<lparr>sv_heap := (sv_heap s)(sv_next s \<mapsto> c), sv_next := Suc (sv_next s),
       sv_clients := om_insert fd (sv_next s) (sv_clients s),
       sv_pollFds := sv_pollFds s @ [\<lparr>pfd_fd = fd, pfd_events = POLLIN, pfd_revents = 0\<rparr>]\<rparr>"

text \<open>
  The \<open>catch\<close> block: the entry is erased, if the map got it, and the object deleted; without
  an object the socket is closed. The address of an object that is rolled back was never stored outside
  the map, so it may be handed out again.
\<close>

definition roll_back :: "int \<Rightarrow> (cptr \<times> client) option \<Rightarrow> server \<Rightarrow> server" where
  "roll_back fd newClient s =
     (case newClient of
        Some (p, c) \<Rightarrow> delete_client p c (s\<lparr>sv_clients := om_erase fd (sv_clients s)\<rparr>)
      | None \<Rightarrow> closeSocket fd s)"

text \<open>The \<open>try\<close> block: \<open>Inl\<close> of the constructor is its exception.\<close>

definition try_register :: "memory \<Rightarrow> int \<Rightarrow> string \<Rightarrow> server \<Rightarrow> server" where
  "try_register memory fd ip s =
     (case new_Client fd ip of
        Inl _ \<Rightarrow> roll_back fd None s
      | Inr c \<Rightarrow>
          let p = sv_next s;
              s1 = s\<lparr>sv_heap := (sv_heap s)(p \<mapsto> c)\<rparr>;
              s2 = s1\<lparr>sv_clients := om_insert fd p (sv_clients s1)\<rparr>
          in case memory of
               New_throws \<Rightarrow> roll_back fd None s
             | Insert_throws \<Rightarrow> roll_back fd (Some (p, c)) s1
             | Push_throws \<Rightarrow> roll_back fd (Some (p, c)) s2
             | Memory_ok \<Rightarrow> register_client fd c s)"

definition acceptNewClient :: "accept_result \<Rightarrow> server \<Rightarrow> server option" where
  "acceptNewClient r s =
     (case r of
        AcceptFailed e \<Rightarrow> Some s
      | Accepted clientFd nonblocking ipText memory \<Rightarrow>
          let s0 = s\<lparr>os_fds := insert clientFd (os_fds s)\<rparr> in
          if length (sv_clients s0) \<ge> MAX_TOTAL_CLIENTS then Some (closeSocket clientFd s0)
          else if \<not> nonblocking then Some (closeSocket clientFd s0)
          else case ipText of
            None \<Rightarrow> Some (closeSocket clientFd s0)
          | Some clientIp \<Rightarrow> do {
              n \<leftarrow> countClientsFromIp clientIp s0;
              if n \<ge> MAX_CLIENTS_PER_IP then Some (closeSocket clientFd s0)
              else Some (try_register memory clientFd clientIp s0) })"

text \<open>
  An exception that leaves a member function: its text, and the server as it was thrown,
  which the destructor will find.
\<close>

type_synonym 'a thrown = "(string \<times> server) + 'a"

definition refresh_entry :: "pollfd \<Rightarrow> server \<Rightarrow> (string + pollfd) option" where
  "refresh_entry e s =
     (let e0 = e\<lparr>pfd_revents := 0\<rparr>
      in if pfd_fd e0 = sv_listenFd s then Some (Inr (e0\<lparr>pfd_events := POLLIN\<rparr>))
         else case getClientByFd (pfd_fd e0) s of
           None \<Rightarrow> Some (Inl ''poll state contains a client fd with no Client object'')
         | Some p \<Rightarrow> do {
             c \<leftarrow> deref p s;
             Some (Inr (e0\<lparr>pfd_events :=
               (if isClosing c then (if hasPendingOutput c then POLLOUT else 0)
                else if hasPendingOutput c then or POLLIN POLLOUT else POLLIN)\<rparr>)) })"

fun refresh_loop :: "pollfd list \<Rightarrow> server \<Rightarrow> ((string \<times> pollfd list) + pollfd list) option" where
  "refresh_loop [] s = Some (Inr [])"
| "refresh_loop (e # es) s =
     do { r \<leftarrow> refresh_entry e s;
          (case r of
             Inl err \<Rightarrow> Some (Inl (err, e\<lparr>pfd_revents := 0\<rparr> # es))
           | Inr e' \<Rightarrow> do { rs \<leftarrow> refresh_loop es s; Some (map_sum (map_prod id (Cons e')) (Cons e') rs) }) }"

definition refreshPollEvents :: "server \<Rightarrow> server thrown option" where
  "refreshPollEvents s =
     do { r \<leftarrow> refresh_loop (sv_pollFds s) s;
          let refreshed = (\<lambda>es. s\<lparr>sv_pollFds := es\<rparr>);
          Some (map_sum (map_prod id refreshed) refreshed r) }"

text \<open>Everyone who shares a channel with the client but the client itself, each once.\<close>

fun add_others :: "cptr \<Rightarrow> string \<times> cptr channel \<Rightarrow> cptr list \<Rightarrow> cptr list" where
  "add_others p (name, ch) recipients =
     (if \<not> isMember ch p then recipients
      else fold (\<lambda>q rs. if q \<noteq> p then vec_add q rs else rs) (getMembers ch) recipients)"

definition quit_recipients :: "cptr \<Rightarrow> (string, cptr channel) omap \<Rightarrow> cptr list" where
  "quit_recipients p channels = fold (add_others p) channels []"

fun erase_poll :: "int \<Rightarrow> pollfd list \<Rightarrow> pollfd list" where
  "erase_poll fd [] = []"
| "erase_poll fd (e # es) = (if pfd_fd e = fd then es else e # erase_poll fd es)"

definition forget_client :: "cptr \<Rightarrow> (string, cptr channel) omap \<Rightarrow> (string, cptr channel) omap" where
  "forget_client p channels = map (\<lambda>(name, ch). (name, removeInvited p (removeMember p ch))) channels"

definition quit_message :: "client \<Rightarrow> string" where
  "quit_message c =
     cat [user_prefix c, '' QUIT :'', if getDeadReason c = [] then ''Client Quit'' else getDeadReason c, crlf]"

definition disconnectClient :: "int \<Rightarrow> server \<Rightarrow> server option" where
  "disconnectClient fd s =
     (case om_find fd (sv_clients s) of
        None \<Rightarrow> Some s
      | Some p \<Rightarrow> do {
          c \<leftarrow> deref p s;
          s1 \<leftarrow> (if isRegistered c
                 then for_each (\<lambda>q. send_to q (quit_message c)) (quit_recipients p (sv_channels s)) s
                 else Some s);
          let s2 = s1\<lparr>sv_channels := forget_client p (sv_channels s1)\<rparr>;
          let s3 = s2\<lparr>sv_pollFds := erase_poll fd (sv_pollFds s2)\<rparr>;
          let s4 = s3\<lparr>sv_clients := om_erase fd (sv_clients s3)\<rparr>;
          Some (delete_client p c s4) })"

text \<open>The first loop of \<open>reapDeadClients\<close>: the descriptors to drop.\<close>

fun reap_mark :: "(int \<times> cptr) list \<Rightarrow> server \<Rightarrow> (int list \<times> server) option" where
  "reap_mark [] s = Some ([], s)"
| "reap_mark ((fd, p) # it) s =
     do { c \<leftarrow> deref p s;
          let s1 = (if isClosing c \<and> \<not> hasPendingOutput c
                    then put_client p (markDead (getDeadReason c) c) s else s);
          c1 \<leftarrow> deref p s1;
          r \<leftarrow> reap_mark it s1;
          Some (if isDead c1 then fd # fst r else fst r, snd r) }"

definition reapDeadClients :: "server \<Rightarrow> server option" where
  "reapDeadClients s =
     do { r \<leftarrow> reap_mark (sv_clients s) s;
          for_each disconnectClient (fst r) (snd r) }"

section \<open>A new connection\<close>

lemma om_values_insert_fresh:
  assumes "om_find k m = None"
  shows "set (om_values (om_insert k v m)) = insert v (set (om_values m))"
    and "distinct (om_values m) \<Longrightarrow> v \<notin> set (om_values m) \<Longrightarrow> distinct (om_values (om_insert k v m))"
    and "length (filter P (om_values (om_insert k v m))) =
      length (filter P (om_values m)) + (if P v then 1 else 0)"
  using assms by (induction k v m rule: om_insert.induct) (auto split: if_splits)

lemma count_ip_eq:
  "\<forall>(fd, p) \<in> set it. p \<in> dom (sv_heap s) \<Longrightarrow>
   count_ip_loop ip it s = Some (length (filter (from_ip ip s) (map snd it)))"
  by (induction it) (auto simp: deref_def from_ip_def)

lemma inv_entries_live: "server_inv s \<Longrightarrow> \<forall>(fd, p) \<in> set (sv_clients s). p \<in> dom (sv_heap s)"
  using invD(1) [of s] by (force simp: heap_inv_def)

lemma countClientsFromIp_eq:
  "server_inv s \<Longrightarrow> ip \<noteq> [] \<Longrightarrow> countClientsFromIp ip s = Some (ip_load ip s)"
  using count_ip_eq [OF inv_entries_live] by (simp add: countClientsFromIp_def ip_load_def)

lemma countClientsFromIp_fds [simp]: "countClientsFromIp ip (s\<lparr>os_fds := F\<rparr>) = countClientsFromIp ip s"
proof -
  have "count_ip_loop ip it (s\<lparr>os_fds := F\<rparr>) = count_ip_loop ip it s" for it
    by (induction it) (auto simp: deref_def)
  then show ?thesis by (simp add: countClientsFromIp_def)
qed

lemma new_Client_simps:
  assumes "new_Client fd ip = Inr c"
  shows "cl_fd c = fd" "cl_ip c = ip" "\<not> cl_dead c" "\<not> isRegistered c" "cl_nickname c = []"
    "client_inv c" "0 \<le> fd" "ip \<noteq> []"
  using assms new_Client_wf [OF assms]
  by (auto simp: new_Client_def isRegistered_def client_inv_def identity_wf_def attempts_wf_def split: if_splits)

text \<open>\<open>admitted fd ip s t\<close>: \<open>t\<close> is \<open>s\<close> with one more client, in its first state.\<close>

definition admitted :: "int \<Rightarrow> string \<Rightarrow> server \<Rightarrow> server \<Rightarrow> bool" where
  "admitted fd ip s t \<longleftrightarrow>
     (\<exists>c. new_Client fd ip = Inr c \<and>
        t = register_client fd c (s\<lparr>os_fds := insert fd (os_fds s)\<rparr>))"

text \<open>Each part of the invariant; the facts they share come first.\<close>

lemma admitted_facts:
  assumes i: "server_inv s" and c: "new_Client fd ip = Inr c" and fresh: "fd \<notin> os_fds s"
  shows "om_find fd (sv_clients s) = None" and "sv_heap s (sv_next s) = None"
    and "sv_next s \<notin> set (om_values (sv_clients s))"
    and "set (om_insert fd (sv_next s) (sv_clients s)) = insert (fd, sv_next s) (set (sv_clients s))"
    and "sv_heap (register_client fd c t) = (sv_heap t)(sv_next t \<mapsto> c)"
    and "reg_ptrs (register_client fd c (s\<lparr>os_fds := F\<rparr>)) = reg_ptrs s"
proof -
  note H = invD(1) [OF i, unfolded heap_inv_def]
  have srt: "om_sorted (sv_clients s)" using H by blast
  show fd: "om_find fd (sv_clients s) = None"
    using fresh invD(4) [OF i] by (auto simp: poll_inv_def om_find_None)
  have lt: "\<forall>p \<in> dom (sv_heap s). p < sv_next s" using H by blast
  then show np: "sv_heap s (sv_next s) = None" by (metis domI less_irrefl not_None_eq)
  show "sv_next s \<notin> set (om_values (sv_clients s))" using H lt by (metis less_irrefl)
  show "set (om_insert fd (sv_next s) (sv_clients s)) = insert (fd, sv_next s) (set (sv_clients s))"
    using om.set_entries_insert [OF srt, of fd "sv_next s"] fd by (force simp: om_find_None)
  show heap: "sv_heap (register_client fd c t) = (sv_heap t)(sv_next t \<mapsto> c)" for t
    by (simp add: register_client_def)
  show "reg_ptrs (register_client fd c (s\<lparr>os_fds := F\<rparr>)) = reg_ptrs s"
    using np new_Client_simps(4) [OF c] by (auto simp: reg_ptrs_def heap)
qed

lemma admitted_heap_inv:
  assumes i: "server_inv s" and c: "new_Client fd ip = Inr c" and fresh: "fd \<notin> os_fds s"
  shows "heap_inv (register_client fd c (s\<lparr>os_fds := F\<rparr>))" (is "heap_inv ?t")
proof -
  note H = invD(1) [OF i, unfolded heap_inv_def] and new = new_Client_simps [OF c]
    and new_facts = admitted_facts [OF i c fresh]
  have E: "\<forall>(fd, p) \<in> set (sv_clients s). \<exists>c. sv_heap s p = Some c \<and> cl_fd c = fd"
    and lt: "\<forall>p \<in> dom (sv_heap s). p < sv_next s" using H by blast+
  have cl: "set (sv_clients ?t) = insert (fd, sv_next s) (set (sv_clients s))"
    and heap: "sv_heap ?t = (sv_heap s)(sv_next s \<mapsto> c)" and next': "sv_next ?t = Suc (sv_next s)"
    using new_facts(4,5) by (simp_all add: register_client_def)
  show ?thesis
    unfolding heap_inv_def
  proof (intro conjI)
    show "om_sorted (sv_clients ?t)" using H by (simp add: register_client_def)
    show "distinct (om_values (sv_clients ?t))" "set (om_values (sv_clients ?t)) = dom (sv_heap ?t)"
      using om_values_insert_fresh(1,2) [OF new_facts(1)] new_facts(3) H by (simp_all add: register_client_def)
    show "\<forall>(fd, p) \<in> set (sv_clients ?t). \<exists>c. sv_heap ?t p = Some c \<and> cl_fd c = fd"
    proof (rule ballI)
      fix e
      assume "e \<in> set (sv_clients ?t)"
      then consider "e = (fd, sv_next s)" | "e \<in> set (sv_clients s)" using cl by auto
      then show "case e of (fd, p) \<Rightarrow> \<exists>c. sv_heap ?t p = Some c \<and> cl_fd c = fd"
        using bspec [OF E, of e] new(1) new_facts(2) by cases (auto simp: heap)
    qed
    show "\<forall>p \<in> dom (sv_heap ?t). p < sv_next ?t" using lt by (auto simp: heap next' intro: less_SucI)
    show "\<forall>p d. sv_heap ?t p = Some d \<longrightarrow> client_inv d" using H new(6) by (auto simp: heap)
  qed
qed

lemma admitted_nick_inv:
  assumes i: "server_inv s" and c: "new_Client fd ip = Inr c"
  shows "nick_inv (register_client fd c (s\<lparr>os_fds := F\<rparr>))" (is "nick_inv ?t")
  unfolding nick_inv_def
proof (intro allI impI)
  fix p q a d
  assume h: "sv_heap ?t p = Some a" "sv_heap ?t q = Some d" "\<not> cl_dead a" "\<not> cl_dead d"
    "cl_nickname a \<noteq> []" "toIrcLowerCase (cl_nickname a) = toIrcLowerCase (cl_nickname d)"
  have "cl_nickname d \<noteq> []" using h(5,6) by (metis toIrcLowerCase_Nil_iff)
  then have "sv_heap s p = Some a" "sv_heap s q = Some d"
    using h(1,2,5) new_Client_simps(5) [OF c] by (auto simp: register_client_def split: if_splits)
  from invD(3) [OF i, unfolded nick_inv_def, rule_format, OF this h(3-6)] show "p = q" .
qed

lemma admitted_quota_inv:
  assumes i: "server_inv s" and c: "new_Client fd ip = Inr c" and fresh: "fd \<notin> os_fds s"
    and total: "length (sv_clients s) < MAX_TOTAL_CLIENTS" and load: "ip_load ip s < MAX_CLIENTS_PER_IP"
  shows "quota_inv (register_client fd c (s\<lparr>os_fds := F\<rparr>))" (is "quota_inv ?t")
proof -
  note new_facts = admitted_facts [OF i c fresh]
  have heap: "sv_heap ?t = (sv_heap s)(sv_next s \<mapsto> c)" by (simp add: register_client_def)
  have "from_ip a ?t p = from_ip a s p" if "p \<in> set (om_values (sv_clients s))" for a p
  proof -
    have "p \<noteq> sv_next s" using that new_facts(3) by blast
    then show ?thesis by (simp add: from_ip_def heap)
  qed
  then have "filter (from_ip a ?t) (om_values (sv_clients s)) = filter (from_ip a s) (om_values (sv_clients s))" for a
    by (intro filter_cong) simp_all
  moreover have "from_ip a ?t (sv_next s) \<longleftrightarrow> a = ip" for a
    using new_Client_simps(2,3) [OF c] by (auto simp: from_ip_def heap)
  ultimately have "ip_load a ?t = ip_load a s + (if a = ip then 1 else 0)" for a
    using om_values_insert_fresh(3) [OF new_facts(1), of "from_ip a ?t" "sv_next s"]
    by (simp add: ip_load_def register_client_def [THEN arg_cong, of sv_clients])
  moreover have "length (sv_clients ?t) = Suc (length (sv_clients s))"
    using om.length_insert_fresh [OF _ new_facts(1)] invD(1) [OF i]
    by (simp add: heap_inv_def register_client_def)
  ultimately show ?thesis
    using total load invD(5) [OF i] by (auto simp: quota_inv_def)
qed

lemma admitted_inv:
  assumes i: "server_inv s" and c: "new_Client fd ip = Inr c" and fresh: "fd \<notin> os_fds s"
    and total: "length (sv_clients s) < MAX_TOTAL_CLIENTS" and load: "ip_load ip s < MAX_CLIENTS_PER_IP"
  shows "server_inv (register_client fd c (s\<lparr>os_fds := insert fd (os_fds s)\<rparr>))" (is "server_inv ?t")
proof -
  note new_facts = admitted_facts [OF i c fresh]
  have heap: "sv_heap ?t = (sv_heap s)(sv_next s \<mapsto> c)" by (simp add: register_client_def)
  have "dom (sv_heap s) \<subseteq> dom (sv_heap ?t)" "reg_ptrs s \<subseteq> dom (sv_heap ?t)"
    using reg_dom by (auto simp: heap reg_ptrs_def)
  then have "chan_inv ?t"
    using invD(2) [OF i] chan_wf_mono [of "dom (sv_heap s)" "reg_ptrs s"]
    unfolding chan_inv_def new_facts(6) by (fastforce simp: register_client_def)
  moreover have P: "sv_listenFd s \<notin> fst ` set (sv_clients s)" "distinct (map pfd_fd (sv_pollFds s))"
    "set (map pfd_fd (sv_pollFds s)) = insert (sv_listenFd s) (fst ` set (sv_clients s))"
    "os_fds s = insert (sv_listenFd s) (fst ` set (sv_clients s))"
    using invD(4) [OF i] unfolding poll_inv_def by blast+
  then have "poll_inv ?t"
    using fresh by (auto simp: poll_inv_def register_client_def new_facts(4))
  moreover have "config_inv ?t"
    using invD(6) [OF i] by (simp add: config_inv_def register_client_def setupCommands_def)
  ultimately show ?thesis
    using admitted_heap_inv [OF i c fresh] admitted_nick_inv [OF i c] admitted_quota_inv [OF assms]
    by (simp add: server_inv_def)
qed

text \<open>
  The registration either succeeds or is undone: then the server is as it was before \<open>accept\<close>.
\<close>

lemma om_erase_absent: "om_find k m = None \<Longrightarrow> om_erase k m = m"
  by (induction k m rule: om_erase.induct) (auto split: if_splits)

lemma om_erase_insert: "om_find k m = None \<Longrightarrow> om_erase k (om_insert k v m) = m"
  by (induction k v m rule: om_insert.induct) (auto split: if_splits)

lemma closeSocket_fresh: "0 \<le> fd \<Longrightarrow> fd \<notin> os_fds s \<Longrightarrow> closeSocket fd (s\<lparr>os_fds := insert fd (os_fds s)\<rparr>) = s"
  by (simp add: closeSocket_def)

lemma try_register_eval:
  assumes i: "server_inv s" and fd: "0 \<le> fd" "fd \<notin> os_fds s"
  shows "try_register memory fd ip (s\<lparr>os_fds := insert fd (os_fds s)\<rparr>) =
    (case new_Client fd ip of
       Inl _ \<Rightarrow> s
     | Inr c \<Rightarrow> if memory = Memory_ok then register_client fd c (s\<lparr>os_fds := insert fd (os_fds s)\<rparr>) else s)"
proof (cases "new_Client fd ip")
  case (Inl e)
  then show ?thesis using closeSocket_fresh [OF fd] by (simp add: try_register_def roll_back_def)
next
  case (Inr c)
  note facts = admitted_facts(1,2) [OF i Inr fd(2)]
  have "(sv_heap s)(sv_next s := None) = sv_heap s" using facts(2) by auto
  then show ?thesis
    using Inr fd facts(1) new_Client_simps(1) [OF Inr]
    by (cases memory)
      (simp_all add: try_register_def roll_back_def delete_client_def closeSocket_def
        om_erase_absent om_erase_insert)
qed

text \<open>The connection is admitted in one case, and leaves no trace in all others.\<close>

definition admits :: "accept_result \<Rightarrow> server \<Rightarrow> (int \<times> client) option" where
  "admits r s =
     (case r of
        Accepted fd True (Some ip) Memory_ok \<Rightarrow>
          (if length (sv_clients s) < MAX_TOTAL_CLIENTS \<and> ip_load ip s < MAX_CLIENTS_PER_IP
           then case new_Client fd ip of Inr c \<Rightarrow> Some (fd, c) | Inl _ \<Rightarrow> None
           else None)
      | _ \<Rightarrow> None)"

lemma accept_eval:
  assumes i: "server_inv s"
    and kernel: "\<And>fd nb ip m. r = Accepted fd nb ip m \<Longrightarrow> 0 \<le> fd \<and> fd \<notin> os_fds s"
  shows "acceptNewClient r s = Some
    (case admits r s of
       None \<Rightarrow> s
     | Some (fd, c) \<Rightarrow> register_client fd c (s\<lparr>os_fds := insert fd (os_fds s)\<rparr>))"
proof (cases r)
  case (AcceptFailed e)
  then show ?thesis by (simp add: acceptNewClient_def admits_def)
next
  case (Accepted fd nb ip m)
  then have fd: "0 \<le> fd" "fd \<notin> os_fds s" using kernel by auto
  note closed = closeSocket_fresh [OF fd]
  show ?thesis
  proof (cases ip)
    case None
    then show ?thesis using Accepted closed by (simp add: acceptNewClient_def admits_def Let_def)
  next
    case (Some a)
    have "\<exists>n. countClientsFromIp a s = Some n \<and> (a \<noteq> [] \<longrightarrow> n = ip_load a s)"
      using countClientsFromIp_eq [OF i, of a] by (cases "a = []") (auto simp: countClientsFromIp_def)
    then obtain n where n: "countClientsFromIp a s = Some n" "a \<noteq> [] \<longrightarrow> n = ip_load a s" by blast
    show ?thesis
    proof (cases "new_Client fd a")
      case (Inl e)
      then show ?thesis
        using Accepted Some n(1) closed try_register_eval [OF i fd, of m a]
        by (cases nb; cases m) (simp_all add: acceptNewClient_def admits_def Let_def)
    next
      case (Inr c)
      then have "n = ip_load a s" using n(2) new_Client_simps(8) by blast
      then show ?thesis
        using Accepted Some n(1) closed Inr try_register_eval [OF i fd, of m a]
        by (cases nb; cases m) (simp_all add: acceptNewClient_def admits_def Let_def)
    qed
  qed
qed

lemma accept_wp:
  assumes i: "server_inv s"
    and kernel: "\<And>fd nb ip m. r = Accepted fd nb ip m \<Longrightarrow> 0 \<le> fd \<and> fd \<notin> os_fds s"
  shows "wp (acceptNewClient r s) (\<lambda>t. server_inv t \<and>
    (t = s \<or> (\<exists>fd ip. r = Accepted fd True (Some ip) Memory_ok \<and> length (sv_clients s) < MAX_TOTAL_CLIENTS \<and>
       ip_load ip s < MAX_CLIENTS_PER_IP \<and> admitted fd ip s t)))"
proof (cases "admits r s")
  case None
  then show ?thesis using accept_eval [OF i kernel] i by simp
next
  case (Some e)
  then obtain fd ip c where r: "r = Accepted fd True (Some ip) Memory_ok" and e: "e = (fd, c)"
    and ok: "length (sv_clients s) < MAX_TOTAL_CLIENTS" "ip_load ip s < MAX_CLIENTS_PER_IP"
    and c: "new_Client fd ip = Inr c"
    by (auto simp: admits_def split: accept_result.splits bool.splits option.splits memory.splits
        sum.splits if_splits)
  have "fd \<notin> os_fds s" using kernel r by blast
  from admitted_inv [OF i c this ok] have inv: "server_inv (register_client fd c (s\<lparr>os_fds := insert fd (os_fds s)\<rparr>))" .
  have "acceptNewClient r s = Some (register_client fd c (s\<lparr>os_fds := insert fd (os_fds s)\<rparr>))"
    using accept_eval [OF i kernel] Some e by simp
  then show ?thesis using inv r ok c by (auto simp: admitted_def)
qed

section \<open>Refreshing the poll vector\<close>

text \<open>The events a descriptor is polled for.\<close>

definition wanted_events :: "server \<Rightarrow> int \<Rightarrow> 16 word" where
  "wanted_events s fd =
     (if fd = sv_listenFd s then POLLIN
      else case getClientByFd fd s \<bind> sv_heap s of
        None \<Rightarrow> 0
      | Some c \<Rightarrow> or (if cl_closing c then 0 else POLLIN) (if hasPendingOutput c then POLLOUT else 0))"

definition refreshed :: "server \<Rightarrow> pollfd \<Rightarrow> pollfd" where
  "refreshed s e = \<lparr>pfd_fd = pfd_fd e, pfd_events = wanted_events s (pfd_fd e), pfd_revents = 0\<rparr>"

lemma refresh_entry_eq:
  assumes "pfd_fd e = sv_listenFd s \<or> getClientByFd (pfd_fd e) s \<bind> sv_heap s \<noteq> None"
  shows "refresh_entry e s = Some (Inr (refreshed s e))"
proof -
  have eta: "e\<lparr>pfd_revents := 0, pfd_events := x\<rparr> = \<lparr>pfd_fd = pfd_fd e, pfd_events = x, pfd_revents = 0\<rparr>" for x
    by (cases e) simp
  show ?thesis
    using assms
    by (cases "getClientByFd (pfd_fd e) s \<bind> sv_heap s"; cases "getClientByFd (pfd_fd e) s")
      (auto simp: refresh_entry_def refreshed_def wanted_events_def Let_def deref_def eta)
qed

lemma poll_entry_known:
  assumes i: "server_inv s" and e: "e \<in> set (sv_pollFds s)"
  shows "pfd_fd e = sv_listenFd s \<or> getClientByFd (pfd_fd e) s \<bind> sv_heap s \<noteq> None"
proof (rule disjCI)
  assume unknown: "\<not> getClientByFd (pfd_fd e) s \<bind> sv_heap s \<noteq> None"
  show "pfd_fd e = sv_listenFd s"
  proof (rule ccontr)
    assume no: "pfd_fd e \<noteq> sv_listenFd s"
    have "set (map pfd_fd (sv_pollFds s)) = insert (sv_listenFd s) (fst ` set (sv_clients s))"
      using invD(4) [OF i] unfolding poll_inv_def by blast
    then have "pfd_fd e \<in> fst ` set (sv_clients s)" using e no by (metis imageI insertE set_map)
    then obtain p where "getClientByFd (pfd_fd e) s = Some p"
      by (cases "om_find (pfd_fd e) (sv_clients s)") (auto simp: getClientByFd_def om_find_None)
    with getClientByFd_wp [OF i this] show False
      using unknown \<open>getClientByFd (pfd_fd e) s = Some p\<close> by auto
  qed
qed

lemma refresh_loop_eq:
  "(\<And>e. e \<in> set es \<Longrightarrow> pfd_fd e = sv_listenFd s \<or> getClientByFd (pfd_fd e) s \<bind> sv_heap s \<noteq> None) \<Longrightarrow>
   refresh_loop es s = Some (Inr (map (refreshed s) es))"
  by (induction es) (simp_all add: refresh_entry_eq)

text \<open>The exception of \<open>refreshPollEvents\<close> is never thrown.\<close>

lemma refresh_eq:
  "server_inv s \<Longrightarrow> refreshPollEvents s = Some (Inr (s\<lparr>sv_pollFds := map (refreshed s) (sv_pollFds s)\<rparr>))"
  using refresh_loop_eq [OF poll_entry_known] by (simp add: refreshPollEvents_def)

lemma inv_pollFds:
  assumes "server_inv s" and "map pfd_fd es = map pfd_fd (sv_pollFds s)"
  shows "server_inv (s\<lparr>sv_pollFds := es\<rparr>)"
proof -
  have "set (map pfd_fd es) = set (map pfd_fd (sv_pollFds s))"
    "distinct (map pfd_fd es) = distinct (map pfd_fd (sv_pollFds s))" using assms(2) by simp_all
  moreover have "from_ip ip (s\<lparr>sv_pollFds := es\<rparr>) = from_ip ip s" for ip
    by (simp add: from_ip_def fun_eq_iff)
  moreover have "reg_ptrs (s\<lparr>sv_pollFds := es\<rparr>) = reg_ptrs s" by (simp add: reg_ptrs_def)
  ultimately show ?thesis
    using assms(1)
    by (simp add: server_inv_def heap_inv_def chan_inv_def nick_inv_def poll_inv_def quota_inv_def
        config_inv_def setupCommands_def ip_load_def del: set_map)
qed

lemma refresh_inv: "server_inv s \<Longrightarrow> server_inv (s\<lparr>sv_pollFds := map (refreshed s) (sv_pollFds s)\<rparr>)"
  by (erule inv_pollFds) (simp add: refreshed_def comp_def)

section \<open>A disconnection\<close>

text \<open>\<open>drop_client\<close>: what is left of \<open>disconnectClient\<close> after the QUIT messages.\<close>

definition drop_client :: "int \<Rightarrow> cptr \<Rightarrow> client \<Rightarrow> server \<Rightarrow> server" where
  "drop_client fd p c s = delete_client p c
     (s\<lparr>sv_channels := forget_client p (sv_channels s), sv_pollFds := erase_poll fd (sv_pollFds s),
        sv_clients := om_erase fd (sv_clients s)\<rparr>)"

lemma drop_client_fields [simp]:
  "sv_port (drop_client fd p c s) = sv_port s" "sv_password (drop_client fd p c s) = sv_password s"
  "sv_listenFd (drop_client fd p c s) = sv_listenFd s"
  "sv_pollFds (drop_client fd p c s) = erase_poll fd (sv_pollFds s)"
  "sv_clients (drop_client fd p c s) = om_erase fd (sv_clients s)"
  "sv_channels (drop_client fd p c s) = forget_client p (sv_channels s)"
  "sv_commands (drop_client fd p c s) = sv_commands s" "sv_next (drop_client fd p c s) = sv_next s"
  "sv_heap (drop_client fd p c s) = (sv_heap s)(p := None)"
  "os_fds (drop_client fd p c s) = (if cl_fd c < 0 then os_fds s else os_fds s - {cl_fd c})"
  by (simp_all add: drop_client_def delete_client_def closeSocket_def)

lemma om_values_erase:
  fixes m :: "('k, 'v) omap"
  assumes "om_find k m = Some v" and "distinct (om_values m)"
  shows "set (om_values (om_erase k m)) = set (om_values m) - {v}" "distinct (om_values (om_erase k m))"
proof -
  have val: "om_find l m = Some w \<Longrightarrow> w \<in> snd ` set m" for l :: 'k and w :: 'v and m
    by (force dest: om_find_mem)
  show "set (om_values (om_erase k m)) = set (om_values m) - {v}" "distinct (om_values (om_erase k m))"
    using assms by (induction k m rule: om_erase.induct) (auto dest: val split: if_splits)
qed

lemma length_om_erase_filter:
  fixes m :: "('a, 'b) omap"
  shows "(\<And>x. P x \<Longrightarrow> Q x) \<Longrightarrow>
   length (filter P (om_values (om_erase k m))) \<le> length (filter Q (om_values m))"
proof (induction k m rule: om_erase.induct)
  case (2 k a b m)
  have "length (filter (P \<circ> snd) xs) \<le> length (filter (Q \<circ> snd) xs)" for xs :: "('a \<times> 'b) list"
    using "2.prems" by (induction xs) (auto intro: le_SucI)
  with 2 show ?case by (auto intro: le_SucI)
qed simp

lemma map_erase_poll: "map pfd_fd (erase_poll fd es) = remove1 fd (map pfd_fd es)"
  by (induction es) auto

lemma forget_keys [simp]: "om_keys (forget_client p m) = om_keys m"
  by (induction m) (auto simp: forget_client_def)

lemma om_find_forget: "om_find n (forget_client p m) = map_option (\<lambda>ch. removeInvited p (removeMember p ch)) (om_find n m)"
  by (induction n m rule: om_find.induct) (auto simp: forget_client_def)

lemma drop_heap_inv:
  assumes i: "server_inv s" and f: "om_find fd (sv_clients s) = Some p" and c: "sv_heap s p = Some c"
  shows "heap_inv (drop_client fd p c s)" (is "heap_inv ?t")
proof -
  have srt: "om_sorted (sv_clients s)" and dv: "distinct (om_values (sv_clients s))"
    and own: "set (om_values (sv_clients s)) = dom (sv_heap s)"
    and ent: "\<forall>(fd, p) \<in> set (sv_clients s). \<exists>c. sv_heap s p = Some c \<and> cl_fd c = fd"
    and lt: "\<forall>p \<in> dom (sv_heap s). p < sv_next s"
    and ci: "\<forall>p c. sv_heap s p = Some c \<longrightarrow> client_inv c"
    using invD(1) [OF i] by (simp_all add: heap_inv_def)
  have cfd: "cl_fd c = fd" using bspec [OF ent om_find_mem [OF f]] c by simp
  show ?thesis
    unfolding heap_inv_def
  proof (intro conjI)
    show "om_sorted (sv_clients ?t)" using srt by simp
    show "distinct (om_values (sv_clients ?t))" "set (om_values (sv_clients ?t)) = dom (sv_heap ?t)"
      using om_values_erase [OF f dv] own by simp_all
    show "\<forall>(a, q) \<in> set (sv_clients ?t). \<exists>d. sv_heap ?t q = Some d \<and> cl_fd d = a"
    proof (rule ballI)
      fix e
      assume "e \<in> set (sv_clients ?t)"
      then have e: "e \<in> set (sv_clients s)" "fst e \<noteq> fd" by (simp_all add: om.set_entries_erase [OF srt])
      have "snd e \<noteq> p" using bspec [OF ent e(1)] e(2) c cfd by (auto split: prod.splits)
      then show "case e of (a, q) \<Rightarrow> \<exists>d. sv_heap ?t q = Some d \<and> cl_fd d = a"
        using bspec [OF ent e(1)] by (auto split: prod.splits)
    qed
    show "\<forall>q \<in> dom (sv_heap ?t). q < sv_next ?t" using lt by simp
    show "\<forall>q d. sv_heap ?t q = Some d \<longrightarrow> client_inv d" using ci by simp
  qed
qed

lemma drop_chan_inv:
  assumes i: "server_inv s"
  shows "chan_inv (drop_client fd p c s)" (is "chan_inv ?t")
proof -
  have reg: "reg_ptrs ?t = reg_ptrs s - {p}" by (auto simp: reg_ptrs_def split: if_splits)
  have "om_sorted (sv_channels ?t)" using invD(2) [OF i] by (simp add: chan_inv_def om_sorted_def)
  moreover have "ch_name ch = n \<and> chan_wf (dom (sv_heap ?t)) (reg_ptrs ?t) ch"
    if "(n, ch) \<in> set (sv_channels ?t)" for n ch
  proof -
    from that obtain d where d: "(n, d) \<in> set (sv_channels s)" "ch = removeInvited p (removeMember p d)"
      by (auto simp: forget_client_def)
    then have "ch_name d = n" "chan_wf (dom (sv_heap s)) (reg_ptrs s) d"
      using invD(2) [OF i] by (auto simp: chan_inv_def)
    then show ?thesis
      using chan_wf_forget [of "dom (sv_heap s)" "reg_ptrs s" d p] d(2)
      by (simp add: reg removeInvited_def)
  qed
  ultimately show ?thesis unfolding chan_inv_def by blast
qed

lemma drop_poll_inv:
  assumes i: "server_inv s" and f: "om_find fd (sv_clients s) = Some p" and c: "sv_heap s p = Some c"
  shows "poll_inv (drop_client fd p c s)" (is "poll_inv ?t")
proof -
  have srt: "om_sorted (sv_clients s)" using invD(1) [OF i] by (simp add: heap_inv_def)
  have P: "sv_listenFd s \<notin> fst ` set (sv_clients s)" "distinct (map pfd_fd (sv_pollFds s))"
    "set (map pfd_fd (sv_pollFds s)) = insert (sv_listenFd s) (fst ` set (sv_clients s))"
    "os_fds s = insert (sv_listenFd s) (fst ` set (sv_clients s))"
    using invD(4) [OF i] by (simp_all add: poll_inv_def)
  have im: "fst ` set (om_erase fd (sv_clients s)) = fst ` set (sv_clients s) - {fd}"
    by (rule om.keys_erase [OF srt])
  have ne: "fd \<noteq> sv_listenFd s" using P(1) om_find_mem [OF f] by force
  have "cl_fd c = fd" using getClientByFd_wp [OF i, of fd p] f c by (simp add: getClientByFd_def)
  moreover have "0 \<le> cl_fd c" using inv_client [OF i c] by (simp add: client_inv_def client_wf_def)
  ultimately have os: "os_fds ?t = os_fds s - {fd}" by simp
  have polls: "set (map pfd_fd (sv_pollFds ?t)) = set (map pfd_fd (sv_pollFds s)) - {fd}"
    "distinct (map pfd_fd (sv_pollFds ?t))"
    using P(2) by (simp_all only: drop_client_fields map_erase_poll set_remove1_eq distinct_remove1)
  show ?thesis
    unfolding poll_inv_def os polls(1)
    using P(1,3,4) polls(2) ne im by auto
qed

lemma drop_quota_inv:
  assumes i: "server_inv s"
  shows "quota_inv (drop_client fd p c s)" (is "quota_inv ?t")
proof -
  have mono: "from_ip ip ?t q \<Longrightarrow> from_ip ip s q" for ip q
    by (auto simp: from_ip_def split: option.splits if_splits)
  have "ip_load ip ?t \<le> ip_load ip s" for ip
    using length_om_erase_filter [of "from_ip ip ?t" "from_ip ip s"] mono by (simp add: ip_load_def)
  moreover have "length (om_erase fd (sv_clients s)) \<le> length (sv_clients s)"
    using length_om_erase_filter [of "\<lambda>_. True" "\<lambda>_. True" fd "sv_clients s"] by simp
  ultimately show ?thesis
    using invD(5) [OF i] by (auto simp: quota_inv_def intro: order_trans)
qed

lemma drop_inv:
  assumes i: "server_inv s" and f: "om_find fd (sv_clients s) = Some p" and c: "sv_heap s p = Some c"
  shows "server_inv (drop_client fd p c s)" (is "server_inv ?t")
proof -
  have "nick_inv ?t" using invD(3) [OF i] unfolding nick_inv_def by simp
  moreover have "config_inv ?t" using invD(6) [OF i] by (simp add: config_inv_def setupCommands_def)
  ultimately show ?thesis
    using drop_heap_inv [OF assms] drop_chan_inv [OF i] drop_poll_inv [OF assms] drop_quota_inv [OF i]
    by (simp add: server_inv_def)
qed

subsection \<open>Who hears of it\<close>

lemma fold_others:
  "set (fold (\<lambda>q rs. if q \<noteq> p then vec_add q rs else rs) xs rs) = set rs \<union> (set xs - {p})"
  "distinct rs \<Longrightarrow> distinct (fold (\<lambda>q rs. if q \<noteq> p then vec_add q rs else rs) xs rs)"
  by (induction xs arbitrary: rs) auto

lemma quit_recipients_set:
  "set (quit_recipients p chs) = (\<Union>e \<in> set chs. peers p e) - {p}"
  "distinct (quit_recipients p chs)"
proof -
  have one: "set (add_others p e rs) = set rs \<union> (peers p e - {p})"
    "distinct rs \<Longrightarrow> distinct (add_others p e rs)" for e rs
    by (cases e; simp add: peers_def fold_others)+
  have "set (fold (add_others p) chs rs) = set rs \<union> ((\<Union>e \<in> set chs. peers p e) - {p})" for rs
    by (induction chs arbitrary: rs) (auto simp: one)
  then show "set (quit_recipients p chs) = (\<Union>e \<in> set chs. peers p e) - {p}"
    by (simp add: quit_recipients_def)
  have "distinct rs \<Longrightarrow> distinct (fold (add_others p) chs rs)" for rs
    by (induction chs arbitrary: rs) (simp_all add: one)
  then show "distinct (quit_recipients p chs)" by (simp add: quit_recipients_def)
qed

text \<open>The members of the client's channels, without the client.\<close>

definition neighbours :: "cptr \<Rightarrow> server \<Rightarrow> cptr set" where
  "neighbours p s = (\<Union>e \<in> set (sv_channels s). peers p e) - {p}"

lemma neighbours_live: "server_inv s \<Longrightarrow> neighbours p s \<subseteq> dom (sv_heap s)"
  using inv_entries_members(1) [of s] by (force simp: neighbours_def peers_def split: if_splits)

lemma disconnect_eval:
  assumes i: "server_inv s" and f: "om_find fd (sv_clients s) = Some p" and c: "sv_heap s p = Some c"
  shows "disconnectClient fd s = Some (drop_client fd p c
    (if isRegistered c then queue (quit_message c) (neighbours p s) s else s))"
proof -
  let ?R = "quit_recipients p (sv_channels s)"
  have R: "set ?R = neighbours p s" by (simp add: quit_recipients_set neighbours_def)
  have "for_each (\<lambda>q. send_to q m) ?R s = Some (queue m (neighbours p s) s)" for m
    using for_each_queue [OF quit_recipients_set(2), of p "sv_channels s" s "\<lambda>_. False" m]
      neighbours_live [OF i, of p] by (simp add: R)
  then show ?thesis
    using f c by (simp add: disconnectClient_def deref_def drop_client_def)
qed

text \<open>What may happen to those who stay.\<close>

definition outlives :: "int set \<Rightarrow> server \<Rightarrow> server \<Rightarrow> bool" where
  "outlives F s t \<longleftrightarrow>
     (\<forall>fd. om_find fd (sv_clients t) = (if fd \<in> F then None else om_find fd (sv_clients s))) \<and>
     (\<forall>q c'. sv_heap t q = Some c' \<longrightarrow> (\<exists>c. sv_heap s q = Some c \<and> sent_client c c')) \<and>
     sv_listenFd t = sv_listenFd s \<and> os_fds t = os_fds s - (F \<inter> fst ` set (sv_clients s)) \<and>
     sv_password t = sv_password s \<and> sv_port t = sv_port s \<and> sv_next t = sv_next s"

lemma disconnect_wp:
  assumes i: "server_inv s"
  shows "wp (disconnectClient fd s) (\<lambda>t. server_inv t \<and> outlives {fd} s t)"
proof (cases "om_find fd (sv_clients s)")
  case None
  then have "disconnectClient fd s = Some s" by (simp add: disconnectClient_def)
  moreover have "fd \<notin> fst ` set (sv_clients s)" using None by (simp add: om_find_None)
  ultimately show ?thesis using i None by (auto simp: outlives_def)
next
  case (Some p)
  then obtain c where c: "sv_heap s p = Some c" "cl_fd c = fd"
    using getClientByFd_wp [OF i, of fd p] by (auto simp: getClientByFd_def)
  have srt: "om_sorted (sv_clients s)" using invD(1) [OF i] by (simp add: heap_inv_def)
  have sends: "sent s (queue m (neighbours p s) s)" for m
    by (rule queue_sent [OF neighbours_live [OF i]])
  let ?u = "if isRegistered c then queue (quit_message c) (neighbours p s) s else s"
  have u: "sent s ?u" using sends by simp
  have iu: "server_inv ?u" by (rule inv_sent [OF i u])
  obtain d where d: "sv_heap ?u p = Some d" "sent_client c d" using sent_object [OF u c(1)] by blast
  have f: "sv_clients ?u = sv_clients s" "os_fds ?u = os_fds s" "sv_listenFd ?u = sv_listenFd s"
    "sv_password ?u = sv_password s" "sv_port ?u = sv_port s" "sv_next ?u = sv_next s"
    using sent_fields [OF u] by blast+
  have fd0: "0 \<le> fd" using inv_client [OF i c(1)] c(2) by (simp add: client_inv_def client_wf_def)
  have same: "drop_client fd p c ?u = drop_client fd p d ?u"
    using sent_client_fields(1) [OF d(2)] by (simp add: drop_client_def delete_client_def)
  have "server_inv (drop_client fd p d ?u)"
    by (rule drop_inv [OF iu _ d(1)]) (simp only: f Some)
  then have "server_inv (drop_client fd p c ?u)" by (simp only: same)
  moreover have "outlives {fd} s (drop_client fd p c ?u)"
    unfolding outlives_def
  proof (intro conjI allI impI)
    fix q e
    assume "sv_heap (drop_client fd p c ?u) q = Some e"
    then have "sv_heap ?u q = Some e" by (simp split: if_splits)
    from sent_object_rev [OF u this] show "\<exists>c. sv_heap s q = Some c \<and> sent_client c e" .
  qed (use f fd0 c om_find_mem [OF Some] om_find_erase [OF srt] in \<open>auto simp: rev_image_eqI\<close>)
  ultimately show ?thesis using disconnect_eval [OF i Some c(1)] by simp
qed

lemma outlives_trans:
  "outlives F s t \<Longrightarrow> outlives G t u \<Longrightarrow> outlives (F \<union> G) s u"
proof -
  assume st: "outlives F s t" and tu: "outlives G t u"
  have keys: "fst ` set (sv_clients t) = fst ` set (sv_clients s) - F"
  proof -
    have "fd \<in> fst ` set (sv_clients t) \<longleftrightarrow> fd \<in> fst ` set (sv_clients s) - F" for fd
      using st om_find_None [of fd "sv_clients t"] om_find_None [of fd "sv_clients s"]
      by (auto simp: outlives_def split: if_splits)
    then show ?thesis by blast
  qed
  show ?thesis
    unfolding outlives_def
  proof (intro conjI allI impI)
    fix q e
    assume "sv_heap u q = Some e"
    with tu obtain d where "sv_heap t q = Some d" "sent_client d e" unfolding outlives_def by blast
    with st obtain c where "sv_heap s q = Some c" "sent_client c d" unfolding outlives_def by blast
    with \<open>sent_client d e\<close> show "\<exists>c. sv_heap s q = Some c \<and> sent_client c e"
      using sent_client_trans by blast
  next
    show "os_fds u = os_fds s - (F \<union> G) \<inter> fst ` set (sv_clients s)"
      using st tu keys by (auto simp: outlives_def)
  qed (use st tu in \<open>auto simp: outlives_def\<close>)
qed

lemma disconnect_all_wp:
  "server_inv s \<Longrightarrow> wp (for_each disconnectClient fds s) (\<lambda>t. server_inv t \<and> outlives (set fds) s t)"
proof (induction fds arbitrary: s)
  case Nil
  then show ?case by (simp add: outlives_def)
next
  case (Cons fd fds)
  show ?case
    unfolding for_each.simps
  proof (rule wp_bindI [OF disconnect_wp [OF Cons.prems, of fd]])
    fix t
    assume t: "server_inv t \<and> outlives {fd} s t"
    then show "wp (for_each disconnectClient fds t) (\<lambda>u. server_inv u \<and> outlives (set (fd # fds)) s u)"
      by (intro wp_mono [OF Cons.IH]) (use outlives_trans [of "{fd}" s t] in auto)
  qed
qed

section \<open>Reaping\<close>

text \<open>A client that leaves at the next reaping.\<close>

definition leaving :: "client \<Rightarrow> bool" where
  "leaving c \<longleftrightarrow> cl_dead c \<or> cl_closing c \<and> \<not> hasPendingOutput c"

definition settle :: "client \<Rightarrow> client" where
  "settle c = (if cl_closing c \<and> \<not> hasPendingOutput c then markDead (cl_deadReason c) c else c)"

lemma settle_dead [simp]: "cl_dead (settle c) \<longleftrightarrow> leaving c"
  by (auto simp: settle_def leaving_def)

lemma settle_kept: "kept_client c (settle c)" "cl_nickname (settle c) = cl_nickname c" "cl_fd (settle c) = cl_fd c"
proof -
  have "kept_client c c" by (simp add: kept_client_def)
  then show "kept_client c (settle c)" by (simp add: settle_def)
qed (simp_all add: settle_def)

definition leavers :: "server \<Rightarrow> int list" where
  "leavers s = map fst (filter (\<lambda>(fd, p). case sv_heap s p of None \<Rightarrow> False | Some c \<Rightarrow> leaving c) (sv_clients s))"

definition settled :: "cptr set \<Rightarrow> server \<Rightarrow> server" where
  "settled P s = s\<lparr>sv_heap := \<lambda>q. if q \<in> P then map_option settle (sv_heap s q) else sv_heap s q\<rparr>"

lemma reap_mark_eq:
  assumes "distinct (map snd it)" and "\<forall>(fd, p) \<in> set it. p \<in> dom (sv_heap s)"
  shows "reap_mark it s = Some
    (map fst (filter (\<lambda>(fd, p). case sv_heap s p of None \<Rightarrow> False | Some c \<Rightarrow> leaving c) it),
     settled (snd ` set it) s)"
  using assms
proof (induction it arbitrary: s)
  case Nil
  show ?case by (simp add: settled_def)
next
  case (Cons e it)
  obtain fd p where e: "e = (fd, p)" by (cases e)
  from Cons.prems(2) obtain c where c: "sv_heap s p = Some c" by (auto simp: e)
  let ?s1 = "put_client p (settle c) s"
  have s1: "(if cl_closing c \<and> \<not> hasPendingOutput c then put_client p (markDead (cl_deadReason c) c) s else s) = ?s1"
    using c by (auto simp: settle_def put_client_def intro!: server.equality)
  have np: "p \<notin> snd ` set it" using Cons.prems(1) by (simp add: e)
  have heap: "sv_heap ?s1 q = (if q = p then Some (settle c) else sv_heap s q)" for q
    by (simp add: put_client_def)
  have IH: "reap_mark it ?s1 = Some
      (map fst (filter (\<lambda>(fd, p). case sv_heap ?s1 p of None \<Rightarrow> False | Some c \<Rightarrow> leaving c) it),
       settled (snd ` set it) ?s1)"
    by (rule Cons.IH) (use Cons.prems in \<open>auto simp: heap\<close>)
  have same: "filter (\<lambda>(fd, p). case sv_heap ?s1 p of None \<Rightarrow> False | Some c \<Rightarrow> leaving c) it =
      filter (\<lambda>(fd, p). case sv_heap s p of None \<Rightarrow> False | Some c \<Rightarrow> leaving c) it"
  proof (rule filter_cong [OF refl])
    fix x
    assume "x \<in> set it"
    then have "snd x \<noteq> p" using np by auto
    then show "(case x of (fd, p) \<Rightarrow> case sv_heap ?s1 p of None \<Rightarrow> False | Some c \<Rightarrow> leaving c) =
        (case x of (fd, p) \<Rightarrow> case sv_heap s p of None \<Rightarrow> False | Some c \<Rightarrow> leaving c)"
      by (cases x) (simp add: heap)
  qed
  have set': "settled (snd ` set it) ?s1 = settled (snd ` set (e # it)) s"
    using c np by (auto simp: settled_def put_client_def e fun_eq_iff intro!: server.equality)
  show ?case
  proof -
    have "deref p s = Some c" "deref p ?s1 = Some (settle c)" by (simp_all add: deref_def c heap)
    then show ?thesis
      using c by (simp add: e Let_def s1 IH [unfolded same] set' [unfolded e])
  qed
qed

lemma settled_inv:
  assumes "server_inv s"
  shows "server_inv (settled P s)"
  unfolding settled_def
proof (rule inv_heap_change [OF assms])
  have refl: "kept_client c c" for c by (simp add: kept_client_def)
  show "rel_option kept_client (sv_heap s q)
      (if q \<in> P then map_option settle (sv_heap s q) else sv_heap s q)" for q
    using settle_kept(1) refl by (cases "sv_heap s q") simp_all
  show "nick_inv (s\<lparr>sv_heap := \<lambda>q. if q \<in> P then map_option settle (sv_heap s q) else sv_heap s q\<rparr>)"
  proof (rule nick_inv_same [OF invD(3) [OF assms]])
    fix q
    show "rel_option (\<lambda>c c'. (cl_dead c \<longrightarrow> cl_dead c') \<and> cl_nickname c' = cl_nickname c) (sv_heap s q)
        (if q \<in> P then map_option settle (sv_heap s q) else sv_heap s q)"
      by (cases "sv_heap s q") (simp_all add: settle_kept leaving_def)
  qed
qed

text \<open>
  Exactly the clients that are leaving are disconnected; their descriptors are closed
  and the others only receive messages.
\<close>

lemma reap_wp:
  assumes i: "server_inv s"
  shows "wp (reapDeadClients s) (\<lambda>t. server_inv t \<and>
    (\<exists>u. outlives (set (leavers s)) u t \<and> u = settled (dom (sv_heap s)) s))"
proof -
  have d: "distinct (map snd (sv_clients s))" and own: "snd ` set (sv_clients s) = dom (sv_heap s)"
    using invD(1) [OF i] by (simp_all add: heap_inv_def)
  let ?u = "settled (dom (sv_heap s)) s"
  have "reap_mark (sv_clients s) s = Some (leavers s, ?u)"
    using reap_mark_eq [OF d inv_entries_live [OF i]] by (simp add: leavers_def own)
  then show ?thesis
    using disconnect_all_wp [OF settled_inv [OF i], of "leavers s" "dom (sv_heap s)"]
    by (simp add: reapDeadClients_def)
qed

lemma leaver_iff:
  assumes "server_inv s" and "om_find fd (sv_clients s) = Some p" and "sv_heap s p = Some c"
  shows "fd \<in> set (leavers s) \<longleftrightarrow> leaving c"
proof -
  have srt: "om_sorted (sv_clients s)" using invD(1) [OF assms(1)] by (simp add: heap_inv_def)
  have entry: "(fd, q) \<in> set (sv_clients s) \<longleftrightarrow> q = p" for q
    using om_find_iff [OF srt, of fd q] assms(2) by auto
  have "fd \<in> set (leavers s) \<longleftrightarrow>
      (\<exists>q. (fd, q) \<in> set (sv_clients s) \<and> (case sv_heap s q of None \<Rightarrow> False | Some c \<Rightarrow> leaving c))"
    unfolding leavers_def by (auto intro!: rev_image_eqI)
  then show ?thesis by (simp add: entry assms(3))
qed

lemma no_entry_no_object:
  assumes i: "server_inv t" and none: "\<And>fd. om_find fd (sv_clients t) \<noteq> Some p"
  shows "sv_heap t p = None"
proof (rule ccontr)
  assume "sv_heap t p \<noteq> None"
  then have "p \<in> dom (sv_heap t)" by blast
  moreover have "set (om_values (sv_clients t)) = dom (sv_heap t)"
    using invD(1) [OF i] unfolding heap_inv_def by blast
  ultimately obtain e where "e \<in> set (sv_clients t)" "snd e = p" by (metis imageE set_map)
  then have "(fst e, p) \<in> set (sv_clients t)" by (metis prod.collapse)
  then have "om_find (fst e) (sv_clients t) = Some p"
    using invD(1) [OF i] by (intro om_find_sorted) (simp_all add: heap_inv_def)
  with none show False by blast
qed

text \<open>What reaping does to one client.\<close>

lemma reap_one:
  assumes i: "server_inv s" and f: "om_find fd (sv_clients s) = Some p" and c: "sv_heap s p = Some c"
    and r: "reapDeadClients s = Some t"
  shows "server_inv t"
    and "leaving c \<Longrightarrow> om_find fd (sv_clients t) = None \<and> fd \<notin> os_fds t \<and> sv_heap t p = None"
    and "\<not> leaving c \<Longrightarrow> om_find fd (sv_clients t) = Some p \<and> (\<exists>d. sv_heap t p = Some d \<and> sent_client c d)"
proof -
  let ?u = "settled (dom (sv_heap s)) s"
  from reap_wp [OF i] r show it: "server_inv t" by simp
  from reap_wp [OF i] r have t: "outlives (set (leavers s)) ?u t" by simp
  have u: "sv_clients ?u = sv_clients s" "os_fds ?u = os_fds s" by (simp_all add: settled_def)
  have out: "om_find a (sv_clients t) = (if a \<in> set (leavers s) then None else om_find a (sv_clients s))"
    "os_fds t = os_fds s - (set (leavers s) \<inter> fst ` set (sv_clients s))" for a
    using t u by (simp_all add: outlives_def)
  have gone: "om_find a (sv_clients t) \<noteq> Some p" if "fd \<in> set (leavers s)" for a
  proof
    assume "om_find a (sv_clients t) = Some p"
    then have a: "om_find a (sv_clients s) = Some p" "a \<noteq> fd" using out(1) [of a] that by (auto split: if_splits)
    then show False
      using getClientByFd_wp [OF i, of a p] getClientByFd_wp [OF i, of fd p] f
      by (auto simp: getClientByFd_def)
  qed
  show "om_find fd (sv_clients t) = None \<and> fd \<notin> os_fds t \<and> sv_heap t p = None" if "leaving c"
  proof -
    have l: "fd \<in> set (leavers s)" using leaver_iff [OF i f c] that by simp
    have "sv_heap t p = None" by (rule no_entry_no_object [OF it gone [OF l]])
    moreover have "fd \<in> fst ` set (sv_clients s)" using om_find_mem [OF f] by (simp add: rev_image_eqI)
    ultimately show ?thesis using l out(1) [of fd] out(2) by simp
  qed
  show "om_find fd (sv_clients t) = Some p \<and> (\<exists>d. sv_heap t p = Some d \<and> sent_client c d)" if "\<not> leaving c"
  proof -
    have ft: "om_find fd (sv_clients t) = Some p" using leaver_iff [OF i f c] that out f by simp
    then obtain d where d: "sv_heap t p = Some d"
      using inv_entries_live [OF it] om_find_mem [OF ft] by blast
    have "sv_heap ?u p = Some c" using c that by (auto simp: settled_def settle_def leaving_def)
    moreover obtain e where "sv_heap ?u p = Some e" "sent_client e d"
      using t d unfolding outlives_def by blast
    ultimately show ?thesis using ft d by simp
  qed
qed

end
