(* ===== verification/Event_Loop.thy ===== *)
theory Event_Loop
  imports Lifecycle "HOL-Library.Stream"
begin

text \<open>
  \<open>Server::run\<close> (\<open>src/server/Server.cpp\<close>). One round of the loop is a function of the
  server and of what the kernel answers in that round (\<open>environment\<close>); rounds follow
  each other as a step relation, and \<open>reachable\<close> collects the states that any sequence
  of rounds can produce. The invariant holds in all of them, no round runs into undefined
  behaviour, and the loop ends by an exception only when \<open>poll()\<close> or the listening
  socket fails.
\<close>

section \<open>The code\<close>

record environment =
  en_poll :: "errno option"
  en_revents :: "int \<Rightarrow> 16 word"
  en_accept :: accept_result
  en_recv :: "int \<Rightarrow> recv_result"
  en_send :: "int \<Rightarrow> send_result"
  en_signal :: bool

text \<open>\<open>poll()\<close> fills in the returned events.\<close>

definition polled :: "environment \<Rightarrow> server \<Rightarrow> server" where
  "polled env s = s\<lparr>sv_pollFds := map (\<lambda>e. e\<lparr>pfd_revents := en_revents env (pfd_fd e)\<rparr>) (sv_pollFds s)\<rparr>"

definition has_event :: "16 word \<Rightarrow> 16 word \<Rightarrow> bool" where
  "has_event returned evs \<longleftrightarrow> and returned evs \<noteq> 0"

text \<open>One descriptor with events; an exception here ends \<open>run\<close>.\<close>

definition serve_fd :: "environment \<Rightarrow> int \<Rightarrow> 16 word \<Rightarrow> server \<Rightarrow> server thrown option" where
  "serve_fd env currentFd returned s =
     (if currentFd = sv_listenFd s
      then (if has_event returned POLLIN
            then do { t \<leftarrow> acceptNewClient (en_accept env) s; Some (Inr t) }
            else Some (Inl (''listening socket failed (POLLERR/POLLHUP)'', s)))
      else do {
        s1 \<leftarrow> (if has_event returned POLLIN then handleClientRead currentFd (en_recv env currentFd) s else Some s);
        s2 \<leftarrow> (if has_event returned POLLOUT then handleClientWrite currentFd (en_send env currentFd) s1 else Some s1);
        if \<not> has_event returned POLLIN \<and> has_event returned (or (or POLLERR POLLHUP) POLLNVAL)
        then (case getClientByFd currentFd s2 of
                None \<Rightarrow> Some (Inr s2)
              | Some p \<Rightarrow> do { s3 \<leftarrow> invoke (markDead ''socket error (POLLERR/POLLHUP)'') p s2; Some (Inr s3) })
        else Some (Inr s2) })"

section \<open>The poll vector while it is served\<close>

lemma read_loop_pollFds: "pc (read_loop p s) (\<lambda>t. sv_pollFds t = sv_pollFds s)"
proof (induction p s rule: read_loop.induct)
  case (1 p s)
  show ?case
  proof (subst read_loop.simps, cases "deref p s")
    case (Some c)
    obtain r c' where e: "extractLine c = (r, c')" by (cases "extractLine c")
    show "pc (do { c \<leftarrow> deref p s; (case extractLine c of
             (None, c') \<Rightarrow> Some (put_client p c' s)
           | (Some l, c') \<Rightarrow> do { s1 \<leftarrow> processLine p l (put_client p c' s); c1 \<leftarrow> deref p s1;
               if cl_dead c1 \<or> cl_closing c1 then Some s1 else read_loop p s1 }) })
        (\<lambda>t. sv_pollFds t = sv_pollFds s)"
    proof (cases r)
      case None
      then show ?thesis using Some e by (simp add: put_client_def)
    next
      case (Some l)
      have one: "pc (processLine p l (put_client p c' s)) (\<lambda>t. sv_pollFds t = sv_pollFds s)"
        by (rule pc_mono [OF processLine_frame]) (simp add: touched_fields put_client_def)
      have rest: "pc (if cl_dead c1 \<or> cl_closing c1 then Some s1 else read_loop p s1)
          (\<lambda>t. sv_pollFds t = sv_pollFds s)"
        if "processLine p l (put_client p c' s) = Some s1" "deref p s1 = Some c1" for s1 c1
        using "1.IH" [OF \<open>deref p s = Some c\<close> e [symmetric] Some that] pcD [OF one that(1)] by auto
      show ?thesis
        using \<open>deref p s = Some c\<close> e Some rest
        by (cases "processLine p l (put_client p c' s)"; cases "deref p (the (processLine p l (put_client p c' s)))")
          auto
    qed
  qed simp
qed

lemma invoke_pollFds: "pc (invoke f p s) (\<lambda>t. sv_pollFds t = sv_pollFds s)"
  by (cases "deref p s") (simp_all add: invoke_def)

lemma read_pollFds: "pc (handleClientRead fd r s) (\<lambda>t. sv_pollFds t = sv_pollFds s)"
proof -
  have put: "sv_pollFds (put_client p c s) = sv_pollFds s" for p c by (simp add: put_client_def)
  show ?thesis
    unfolding handleClientRead_def Let_def
    using invoke_pollFds [where s = s] read_loop_pollFds invoke_pollFds
    by (auto simp: pc_def deref_def put split: option.splits recv_result.splits prod.splits if_splits
        Option.bind_splits)
qed

lemma write_pollFds: "pc (handleClientWrite fd r s) (\<lambda>t. sv_pollFds t = sv_pollFds s)"
  unfolding handleClientWrite_def using invoke_pollFds
  by (auto simp: pc_def split: option.splits send_result.splits if_splits Option.bind_splits)

lemma try_register_pollFds:
  "sv_pollFds (try_register m fd ip s) = sv_pollFds s \<or>
     (\<exists>e. sv_pollFds (try_register m fd ip s) = sv_pollFds s @ [e] \<and> pfd_revents e = 0)"
  by (cases m) (auto simp: try_register_def roll_back_def delete_client_def closeSocket_def
      register_client_def Let_def split: sum.splits)

lemma accept_pollFds:
  "pc (acceptNewClient r s) (\<lambda>t. sv_pollFds t = sv_pollFds s \<or>
     (\<exists>e. sv_pollFds t = sv_pollFds s @ [e] \<and> pfd_revents e = 0))"
  unfolding acceptNewClient_def Let_def
  using try_register_pollFds [of _ _ _ "s\<lparr>os_fds := _\<rparr>"]
  by (auto simp: pc_def closeSocket_def
      split: accept_result.splits option.splits if_splits Option.bind_splits)

lemma pc_step: "pc m P \<Longrightarrow> (\<And>x. P x \<Longrightarrow> pc (f x) Q) \<Longrightarrow> pc (m \<bind> f) Q"
  by (auto simp: pc_def split: Option.bind_splits)

lemma serve_fd_pollFds:
  "pc (serve_fd env fd returned s) (\<lambda>r. \<forall>t. r = Inr t \<longrightarrow> sv_pollFds t = sv_pollFds s \<or>
     (\<exists>e. sv_pollFds t = sv_pollFds s @ [e] \<and> pfd_revents e = 0))"
proof (cases "fd = sv_listenFd s")
  case True
  then show ?thesis
    using accept_pollFds [of "en_accept env" s] by (auto simp: serve_fd_def pc_def split: Option.bind_splits)
next
  case False
  let ?v = "sv_pollFds s"
  have read: "pc (if b then handleClientRead fd r s else Some s) (\<lambda>t. sv_pollFds t = ?v)" for b r
    by (simp add: read_pollFds)
  have wrote: "pc (if b then handleClientWrite fd r t else Some t) (\<lambda>u. sv_pollFds u = ?v)"
    if "sv_pollFds t = ?v" for b r t
    using that write_pollFds [of fd r t] by simp
  have mark: "pc (invoke f p t) (\<lambda>u. sv_pollFds u = ?v)" if "sv_pollFds t = ?v" for f p t
    using that invoke_pollFds [of f p t] by simp
  have "pc (serve_fd env fd returned s) (\<lambda>r. \<forall>t. r = Inr t \<longrightarrow> sv_pollFds t = ?v)"
    unfolding serve_fd_def if_not_P [OF False]
    by (intro pc_step [OF read] pc_step [OF wrote] pc_if pc_case_option pc_step [OF mark]) simp_all
  then show ?thesis by (rule pc_mono) simp
qed

text \<open>
  The loop over the vector, which \<open>acceptNewClient\<close> may extend: every entry left counts
  once, and once more when it has events. A new entry has none.
\<close>

definition entry_work :: "pollfd \<Rightarrow> nat" where
  "entry_work e = (if pfd_revents e = 0 then 1 else 2)"

definition serve_work :: "nat \<Rightarrow> server \<Rightarrow> nat" where
  "serve_work i s = sum_list (map entry_work (drop i (sv_pollFds s)))"

lemma serve_work_entry:
  "i < length (sv_pollFds s) \<Longrightarrow> serve_work i s = entry_work (sv_pollFds s ! i) + serve_work (Suc i) s"
  by (simp add: serve_work_def Cons_nth_drop_Suc [symmetric])

function serve_loop :: "environment \<Rightarrow> nat \<Rightarrow> server \<Rightarrow> server thrown option" where
  "serve_loop env i s =
     (if i < length (sv_pollFds s)
      then (if pfd_revents (sv_pollFds s ! i) = 0 then serve_loop env (Suc i) s
            else do {
              r \<leftarrow> serve_fd env (pfd_fd (sv_pollFds s ! i)) (pfd_revents (sv_pollFds s ! i)) s;
              (case r of Inl e \<Rightarrow> Some (Inl e) | Inr t \<Rightarrow> serve_loop env (Suc i) t) })
      else Some (Inr s))"
  by pat_completeness auto

termination
proof (relation "measure (\<lambda>(env, i, s). serve_work i s)")
  fix env :: environment and i and s :: server
  assume "i < length (sv_pollFds s)"
  then show "((env, Suc i, s), env, i, s) \<in> measure (\<lambda>(env, i, s). serve_work i s)"
    by (simp add: serve_work_entry entry_work_def)
next
  fix env :: environment and i and s :: server and r and t :: server
  assume i: "i < length (sv_pollFds s)" and ev: "pfd_revents (sv_pollFds s ! i) \<noteq> 0"
    and r: "serve_fd env (pfd_fd (sv_pollFds s ! i)) (pfd_revents (sv_pollFds s ! i)) s = Some r" "r = Inr t"
  have "sv_pollFds t = sv_pollFds s \<or> (\<exists>e. sv_pollFds t = sv_pollFds s @ [e] \<and> pfd_revents e = 0)"
    using pcD [OF serve_fd_pollFds r(1)] r(2) by blast
  then have "serve_work (Suc i) t \<le> Suc (serve_work (Suc i) s)"
    using i by (auto simp: serve_work_def entry_work_def)
  then show "((env, Suc i, t), env, i, s) \<in> measure (\<lambda>(env, i, s). serve_work i s)"
    using i ev by (simp add: serve_work_entry entry_work_def)
qed simp

declare serve_loop.simps [simp del]

text \<open>One round: refresh, poll, serve, reap.\<close>

definition iteration :: "environment \<Rightarrow> server \<Rightarrow> server thrown option" where
  "iteration env s =
     do { r \<leftarrow> refreshPollEvents s;
          (case r of
             Inl e \<Rightarrow> Some (Inl e)
           | Inr s1 \<Rightarrow>
               if sv_pollFds s1 = [] then Some (Inl (''poll() cannot run without the listening socket'', s1))
               else case en_poll env of
                 Some e \<Rightarrow> if e = EINTR then Some (Inr s1) else Some (Inl (cat [''poll() failed: '', strerror e], s1))
               | None \<Rightarrow> do {
                   r2 \<leftarrow> serve_loop env 0 (polled env s1);
                   (case r2 of
                      Inl e \<Rightarrow> Some (Inl e)
                    | Inr s2 \<Rightarrow> do { s3 \<leftarrow> reapDeadClients s2; Some (Inr s3) }) }) }"

text \<open>
  The global \<open>g_shutdown\<close> and its handler. \<open>en_signal\<close>: SIGINT, SIGTERM or SIGQUIT arrives between the test of
  the flag before the round and the one after it. The handler does nothing but set the flag.
\<close>

definition handleShutdownSignal :: "bool \<Rightarrow> bool" where
  "handleShutdownSignal g_shutdown = True"

text \<open>
  \<open>while (!g_shutdown)\<close>. The kernel's answers are an infinite stream, one environment for each round; a loop that
  is never ended by a signal or an exception has no result.
\<close>

partial_function (option) run_loop :: "environment stream \<Rightarrow> bool \<Rightarrow> server \<Rightarrow> server thrown option" where
  "run_loop envs g_shutdown s =
     (if g_shutdown then Some (Inr s)
      else do {
        r \<leftarrow> iteration (shd envs) s;
        (case r of
           Inl e \<Rightarrow> Some (Inl e)
         | Inr t \<Rightarrow> run_loop (stl envs)
             (if en_signal (shd envs) then handleShutdownSignal g_shutdown else g_shutdown) t) })"

text \<open>A number of rounds, whether a signal arrives or not.\<close>

fun rounds :: "environment list \<Rightarrow> server \<Rightarrow> server thrown option" where
  "rounds [] s = Some (Inr s)"
| "rounds (env # envs) s =
     do { r \<leftarrow> iteration env s;
          (case r of Inl e \<Rightarrow> Some (Inl e) | Inr t \<Rightarrow> rounds envs t) }"

section \<open>Construction and destruction\<close>

text \<open>The constructor; \<open>Inl\<close> carries the text of the \<open>std::invalid_argument\<close>.\<close>

definition new_Server :: "int \<Rightarrow> string \<Rightarrow> string + server" where
  "new_Server port password =
     (if port < 1 \<or> port > 65535 then Inl ''server port must be between 1 and 65535''
      else if password = [] then Inl ''server password must not be empty''
      else Inr \<lparr>sv_port = port, sv_password = password, sv_listenFd = -1, sv_pollFds = [],
                sv_clients = [], sv_channels = [], sv_commands = [], sv_heap = Map.empty,
                sv_next = 0, os_fds = {}\<rparr>)"

text \<open>
  What the system calls of \<open>setupSignals\<close> and \<open>setupSocket\<close> return, in the order of the
  code; \<open>None\<close> is success. \<open>so_signal\<close>: a shutdown signal arrives before the loop is entered.
\<close>

record start_calls =
  so_emptyset_pipe :: "errno option"
  so_sigpipe :: "errno option"
  so_emptyset_shutdown :: "errno option"
  so_sigint :: "errno option"
  so_sigterm :: "errno option"
  so_sigquit :: "errno option"
  so_socket :: "errno + int"
  so_setsockopt :: "errno option"
  so_fcntl :: "errno option"
  so_bind :: "errno option"
  so_listen :: "errno option"
  so_signal :: bool

definition setupSignals :: "start_calls \<Rightarrow> string option" where
  "setupSignals calls =
     (case so_emptyset_pipe calls of
        Some e \<Rightarrow> Some (cat [''sigemptyset() failed for SIGPIPE: '', strerror e])
      | None \<Rightarrow>
      case so_sigpipe calls of
        Some e \<Rightarrow> Some (cat [''sigaction(SIGPIPE) failed: '', strerror e])
      | None \<Rightarrow>
      case so_emptyset_shutdown calls of
        Some e \<Rightarrow> Some (cat [''sigemptyset() failed for shutdown signals: '', strerror e])
      | None \<Rightarrow>
      case so_sigint calls of
        Some e \<Rightarrow> Some (cat [''sigaction(SIGINT) failed: '', strerror e])
      | None \<Rightarrow>
      case so_sigterm calls of
        Some e \<Rightarrow> Some (cat [''sigaction(SIGTERM) failed: '', strerror e])
      | None \<Rightarrow> map_option (\<lambda>e. cat [''sigaction(SIGQUIT) failed: '', strerror e]) (so_sigquit calls))"

definition setupSocket :: "start_calls \<Rightarrow> server \<Rightarrow> server thrown" where
  "setupSocket calls s =
     (case so_socket calls of
        Inl e \<Rightarrow> Inl (cat [''socket() failed: '', strerror e], s\<lparr>sv_listenFd := -1\<rparr>)
      | Inr fd \<Rightarrow>
          let s1 = s\<lparr>sv_listenFd := fd, os_fds := insert fd (os_fds s)\<rparr> in
          case so_setsockopt calls of
            Some e \<Rightarrow> Inl (cat [''setsockopt(SO_REUSEADDR) failed: '', strerror e], s1)
          | None \<Rightarrow>
          case so_fcntl calls of
            Some e \<Rightarrow> Inl (cat [''fcntl(O_NONBLOCK) failed: '', strerror e], s1)
          | None \<Rightarrow>
          case so_bind calls of
            Some e \<Rightarrow> Inl (cat [''bind() failed: '', strerror e,
              '' (the port may be in use, or ports below 1024 may require elevated privileges)''], s1)
          | None \<Rightarrow>
          case so_listen calls of
            Some e \<Rightarrow> Inl (cat [''listen() failed: '', strerror e], s1)
          | None \<Rightarrow> Inr (s1\<lparr>sv_pollFds := sv_pollFds s1 @
                             [\<lparr>pfd_fd = fd, pfd_events = POLLIN, pfd_revents = 0\<rparr>]\<rparr>))"

text \<open>The destructor: clients with their sockets, commands, channels, the listening socket.\<close>

definition destroy_Server :: "server \<Rightarrow> server option" where
  "destroy_Server s =
     do { s1 \<leftarrow> for_each (\<lambda>e t. do { c \<leftarrow> deref (snd e) t; Some (delete_client (snd e) c t) })
                 (sv_clients s) (s\<lparr>sv_commands := []\<rparr>);
          let s2 = s1\<lparr>sv_clients := [], sv_channels := []\<rparr>;
          Some (if sv_listenFd s2 \<ge> 0
                then (closeSocket (sv_listenFd s2) s2)\<lparr>sv_listenFd := -1\<rparr> else s2) }"

text \<open>\<open>Server::run\<close>.\<close>

definition run :: "start_calls \<Rightarrow> environment stream \<Rightarrow> server \<Rightarrow> server thrown option" where
  "run calls envs s =
     (case setupSignals calls of
        Some e \<Rightarrow> Some (Inl (e, s))
      | None \<Rightarrow>
      case setupSocket calls s of
        Inl e \<Rightarrow> Some (Inl e)
      | Inr s1 \<Rightarrow> run_loop envs (if so_signal calls then handleShutdownSignal False else False) (setupCommands s1))"

section \<open>The invariant at the start\<close>

lemma start_inv:
  assumes new: "new_Server port pw = Inr s0" and sock: "setupSocket calls s0 = Inr s1"
    and kernel: "\<And>fd. so_socket calls = Inr fd \<Longrightarrow> 0 \<le> fd"
  shows "server_inv (setupCommands s1)"
proof -
  obtain fd where fd: "so_socket calls = Inr fd"
    using sock by (cases "so_socket calls") (auto simp: setupSocket_def)
  have s1: "s1 = s0\<lparr>sv_listenFd := fd, os_fds := insert fd (os_fds s0),
      sv_pollFds := sv_pollFds s0 @ [\<lparr>pfd_fd = fd, pfd_events = POLLIN, pfd_revents = 0\<rparr>]\<rparr>"
    using sock fd by (auto simp: setupSocket_def Let_def split: option.splits)
  have s0: "sv_clients s0 = []" "sv_channels s0 = []" "sv_pollFds s0 = []" "sv_commands s0 = []"
    "sv_heap s0 = Map.empty" "os_fds s0 = {}" "sv_port s0 = port" "sv_password s0 = pw"
    "1 \<le> port" "port \<le> 65535" "pw \<noteq> []"
    using new by (auto simp: new_Server_def split: if_splits)
  let ?t = "setupCommands s1"
  have t: "sv_clients ?t = []" "sv_channels ?t = []" "sv_heap ?t = Map.empty" "os_fds ?t = {fd}"
    "sv_pollFds ?t = [\<lparr>pfd_fd = fd, pfd_events = POLLIN, pfd_revents = 0\<rparr>]" "sv_listenFd ?t = fd"
    "sv_port ?t = port" "sv_password ?t = pw"
    "sv_commands ?t = sv_commands (setupCommands (?t\<lparr>sv_commands := []\<rparr>))"
    by (simp_all add: s1 s0 setupCommands_def)
  have "config_inv ?t"
    unfolding config_inv_def using t(6-9) s0(9-11) kernel [OF fd] by simp
  moreover have "heap_inv ?t" "chan_inv ?t" "nick_inv ?t" "poll_inv ?t" "quota_inv ?t"
    using t by (simp_all add: heap_inv_def chan_inv_def nick_inv_def poll_inv_def quota_inv_def
        ip_load_def MAX_TOTAL_CLIENTS_def)
  ultimately show ?thesis by (simp add: server_inv_def)
qed

section \<open>One descriptor\<close>

text \<open>\<open>accept()\<close> returns a descriptor that was not open.\<close>

definition kernel_ok :: "environment \<Rightarrow> server \<Rightarrow> bool" where
  "kernel_ok env s \<longleftrightarrow>
     (\<forall>fd nb ip m. en_accept env = Accepted fd nb ip m \<longrightarrow> 0 \<le> fd \<and> fd \<notin> os_fds s)"

lemma serves_fields:
  assumes "serves fd s t"
  shows "sv_clients t = sv_clients s" "sv_listenFd t = sv_listenFd s" "os_fds t = os_fds s"
    "sv_pollFds t = sv_pollFds s"
  using assms by (auto simp: serves_def touched_fields split: option.splits)

lemma serves_trans: "serves fd s t \<Longrightarrow> serves fd t u \<Longrightarrow> serves fd s u"
  using serves_fields(1) [of fd s t] served_trans
  by (auto simp: serves_def getClientByFd_def split: option.splits)

lemma serves_refl [simp]: "serves fd s s"
  by (simp add: serves_def split: option.splits)

lemma serve_client_wp:
  assumes i: "server_inv s" and fd: "fd \<noteq> sv_listenFd s"
  shows "wp (serve_fd env fd returned s) (\<lambda>r. \<exists>t. r = Inr t \<and> server_inv t \<and> serves fd s t)"
proof -
  have rd: "wp (if b then handleClientRead fd r s else Some s) (\<lambda>t. server_inv t \<and> serves fd s t)" for b r
    using handleClientRead_wp [OF i] i by simp
  have wr: "wp (if b then handleClientWrite fd r t else Some t) (\<lambda>u. server_inv u \<and> serves fd s u)"
    if "server_inv t \<and> serves fd s t" for b r t
  proof (cases b)
    case True
    have "wp (handleClientWrite fd r t) (\<lambda>u. server_inv u \<and> serves fd t u)"
      using that by (intro handleClientWrite_wp) simp
    then have "wp (handleClientWrite fd r t) (\<lambda>u. server_inv u \<and> serves fd s u)"
      by (rule wp_mono) (use that serves_trans [of fd s t] in blast)
    with True show ?thesis by simp
  qed (use that in simp)
  have mark: "wp (do { s3 \<leftarrow> invoke (markDead x) p t; Some (Inr s3) })
      (\<lambda>r. \<exists>t. r = Inr t \<and> server_inv t \<and> serves fd s t)"
    if t: "server_inv t \<and> serves fd s t" and p: "getClientByFd fd t = Some p" for x p t
  proof -
    have "p \<in> dom (sv_heap t)" using getClientByFd_wp [OF _ p] t by blast
    then have "wp (invoke (markDead x) p t) (\<lambda>u. server_inv u \<and> served p t u)"
      using t by (intro mark_served(1)) simp_all
    then have "wp (invoke (markDead x) p t) (\<lambda>u. server_inv u \<and> serves fd s u)"
      by (rule wp_mono) (use t p serves_trans [of fd s t] in \<open>auto simp: serves_def\<close>)
    then show ?thesis by simp
  qed
  show ?thesis
    unfolding serve_fd_def if_not_P [OF fd]
  proof (rule wp_bindI [OF rd], rule wp_bindI [OF wr], assumption)
    fix s1 s2
    assume s2: "server_inv s2 \<and> serves fd s s2"
    then show "wp (if \<not> has_event returned POLLIN \<and> has_event returned (or (or POLLERR POLLHUP) POLLNVAL)
        then (case getClientByFd fd s2 of None \<Rightarrow> Some (Inr s2)
              | Some p \<Rightarrow> do { s3 \<leftarrow> invoke (markDead ''socket error (POLLERR/POLLHUP)'') p s2; Some (Inr s3) })
        else Some (Inr s2)) (\<lambda>r. \<exists>t. r = Inr t \<and> server_inv t \<and> serves fd s t)"
      by (intro wp_if wp_case_option mark) simp_all
  qed
qed

lemma serve_listen_wp:
  assumes i: "server_inv s" and k: "kernel_ok env s"
  shows "wp (serve_fd env (sv_listenFd s) returned s) (\<lambda>r. case r of
     Inl x \<Rightarrow> \<not> has_event returned POLLIN \<and> snd x = s
   | Inr t \<Rightarrow> server_inv t \<and> (t = s \<or> (\<exists>fd ip. en_accept env = Accepted fd True (Some ip) Memory_ok \<and> admitted fd ip s t)))"
proof (cases "has_event returned POLLIN")
  case True
  have "wp (acceptNewClient (en_accept env) s) (\<lambda>t. server_inv t \<and>
      (t = s \<or> (\<exists>fd ip. en_accept env = Accepted fd True (Some ip) Memory_ok \<and> admitted fd ip s t)))"
    by (rule wp_mono [OF accept_wp [OF i]]) (use k in \<open>auto simp: kernel_ok_def\<close>)
  with True show ?thesis by (simp add: serve_fd_def)
qed (simp add: serve_fd_def)

section \<open>One round\<close>

text \<open>The answers of the kernel that end the loop.\<close>

definition fatal :: "environment \<Rightarrow> server \<Rightarrow> bool" where
  "fatal env s \<longleftrightarrow>
     (case en_poll env of
        Some e \<Rightarrow> e \<noteq> EINTR
      | None \<Rightarrow> en_revents env (sv_listenFd s) \<noteq> 0 \<and> \<not> has_event (en_revents env (sv_listenFd s)) POLLIN)"

text \<open>
  From position \<open>i\<close> on, the listening socket is either still to come, then no connection
  has been accepted in this round, or it does not occur any more.
\<close>

definition round_inv :: "environment \<Rightarrow> nat \<Rightarrow> server \<Rightarrow> bool" where
  "round_inv env i s \<longleftrightarrow> server_inv s \<and>
     (kernel_ok env s \<or> (\<forall>j. i \<le> j \<longrightarrow> j < length (sv_pollFds s) \<longrightarrow> pfd_fd (sv_pollFds s ! j) \<noteq> sv_listenFd s)) \<and>
     (\<forall>e \<in> set (sv_pollFds s). pfd_fd e = sv_listenFd s \<longrightarrow> pfd_revents e = en_revents env (sv_listenFd s))"

lemma poll_distinct: "server_inv s \<Longrightarrow> distinct (map pfd_fd (sv_pollFds s))"
  using invD(4) [of s] by (simp add: poll_inv_def)

lemma round_inv_next:
  assumes r: "round_inv env i s" and i: "i < length (sv_pollFds s)"
    and t: "server_inv t" "sv_listenFd t = sv_listenFd s" "sv_pollFds t = sv_pollFds s" "os_fds t = os_fds s"
  shows "round_inv env (Suc i) t"
  using r t unfolding round_inv_def kernel_ok_def by (metis Suc_leD)

lemma round_inv_admitted:
  assumes r: "round_inv env i s" and i: "i < length (sv_pollFds s)"
    and l: "pfd_fd (sv_pollFds s ! i) = sv_listenFd s"
    and t: "server_inv t" "admitted fd ip s t" and fresh: "fd \<notin> os_fds s"
  shows "round_inv env (Suc i) t"
proof -
  have si: "server_inv s" using r by (simp add: round_inv_def)
  have listen: "sv_listenFd t = sv_listenFd s"
    and polls: "sv_pollFds t = sv_pollFds s @ [\<lparr>pfd_fd = fd, pfd_events = POLLIN, pfd_revents = 0\<rparr>]"
    using t(2) by (auto simp: admitted_def register_client_def)
  have fl: "fd \<noteq> sv_listenFd s" using fresh invD(4) [OF si] by (auto simp: poll_inv_def)
  have "pfd_fd (sv_pollFds t ! j) \<noteq> sv_listenFd t" if j: "Suc i \<le> j" "j < length (sv_pollFds t)" for j
  proof (cases "j < length (sv_pollFds s)")
    case True
    have "map pfd_fd (sv_pollFds s) ! j \<noteq> map pfd_fd (sv_pollFds s) ! i"
      using nth_eq_iff_index_eq [OF poll_distinct [OF si], of j i] True i j(1) by simp
    then show ?thesis using True i l by (simp add: polls listen nth_append)
  next
    case False
    then have "j = length (sv_pollFds s)" using j(2) by (simp add: polls)
    then show ?thesis using fl by (simp add: polls listen)
  qed
  moreover have "\<forall>e \<in> set (sv_pollFds t). pfd_fd e = sv_listenFd t \<longrightarrow> pfd_revents e = en_revents env (sv_listenFd t)"
    using r fl by (auto simp: round_inv_def polls listen)
  ultimately show ?thesis using t(1) by (simp add: round_inv_def)
qed

text \<open>The entry of the listening socket, and any entry with events: what serving it does.\<close>

lemma serve_listen_step:
  assumes r: "round_inv env i s" and i: "i < length (sv_pollFds s)"
    and l: "pfd_fd (sv_pollFds s ! i) = sv_listenFd s" and k: "kernel_ok env s"
  shows "wp (serve_fd env (sv_listenFd s) returned s) (\<lambda>r. case r of
      Inl x \<Rightarrow> \<not> has_event returned POLLIN \<and> server_inv (snd x)
    | Inr t \<Rightarrow> round_inv env (Suc i) t \<and> sv_listenFd t = sv_listenFd s \<and>
        (t = s \<or> (\<exists>fd ip. admitted fd ip s t)))"
proof (rule wp_mono)
  have si: "server_inv s" using r by (simp add: round_inv_def)
  show "wp (serve_fd env (sv_listenFd s) returned s) (\<lambda>r. case r of
     Inl x \<Rightarrow> \<not> has_event returned POLLIN \<and> snd x = s
   | Inr t \<Rightarrow> server_inv t \<and> (t = s \<or> (\<exists>fd ip. en_accept env = Accepted fd True (Some ip) Memory_ok \<and> admitted fd ip s t)))"
    by (rule serve_listen_wp [OF si k])
  fix x
  assume x: "case x of
     Inl x \<Rightarrow> \<not> has_event returned POLLIN \<and> snd x = s
   | Inr t \<Rightarrow> server_inv t \<and> (t = s \<or> (\<exists>fd ip. en_accept env = Accepted fd True (Some ip) Memory_ok \<and> admitted fd ip s t))"
  have new: "round_inv env (Suc i) t \<and> sv_listenFd t = sv_listenFd s"
    if "server_inv t" "en_accept env = Accepted fd True (Some ip) Memory_ok" "admitted fd ip s t" for t fd ip
  proof -
    have "fd \<notin> os_fds s" using k that(2) by (auto simp: kernel_ok_def)
    moreover have "sv_listenFd t = sv_listenFd s" using that(3) by (auto simp: admitted_def register_client_def)
    ultimately show ?thesis using round_inv_admitted [OF r i l that(1,3)] by blast
  qed
  show "case x of
      Inl x \<Rightarrow> \<not> has_event returned POLLIN \<and> server_inv (snd x)
    | Inr t \<Rightarrow> round_inv env (Suc i) t \<and> sv_listenFd t = sv_listenFd s \<and>
        (t = s \<or> (\<exists>fd ip. admitted fd ip s t))"
    using x si new round_inv_next [OF r i si] by (cases x) auto
qed

lemma serve_step_wp:
  assumes r: "round_inv env i s" and i: "i < length (sv_pollFds s)"
    and ev: "pfd_revents (sv_pollFds s ! i) \<noteq> 0"
  defines "e \<equiv> sv_pollFds s ! i"
  shows "wp (serve_fd env (pfd_fd e) (pfd_revents e) s) (\<lambda>r. case r of
      Inl x \<Rightarrow> en_revents env (sv_listenFd s) \<noteq> 0 \<and> \<not> has_event (en_revents env (sv_listenFd s)) POLLIN \<and> server_inv (snd x)
    | Inr t \<Rightarrow> round_inv env (Suc i) t \<and> sv_listenFd t = sv_listenFd s \<and>
        (if pfd_fd e = sv_listenFd s then t = s \<or> (\<exists>fd ip. admitted fd ip s t) else serves (pfd_fd e) s t))"
proof (cases "pfd_fd e = sv_listenFd s")
  case True
  have k: "kernel_ok env s" using r True i unfolding round_inv_def e_def by blast
  have rev: "pfd_revents e = en_revents env (sv_listenFd s)"
    using r True i unfolding round_inv_def e_def by (meson nth_mem)
  show ?thesis
    unfolding True
    by (rule wp_mono [OF serve_listen_step [OF r i True [unfolded e_def] k]])
      (use ev rev in \<open>auto simp: e_def split: sum.splits\<close>)
next
  case False
  have si: "server_inv s" using r by (simp add: round_inv_def)
  show ?thesis
    by (rule wp_mono [OF serve_client_wp [OF si False]])
      (use round_inv_next [OF r i] serves_fields False in \<open>auto split: sum.splits\<close>)
qed

lemma serve_loop_wp:
  assumes "round_inv env i s"
  shows "wp (serve_loop env i s) (\<lambda>r. case r of
     Inl x \<Rightarrow> en_revents env (sv_listenFd s) \<noteq> 0 \<and> \<not> has_event (en_revents env (sv_listenFd s)) POLLIN \<and> server_inv (snd x)
   | Inr t \<Rightarrow> server_inv t)"
  using assms
proof (induction env i s rule: serve_loop.induct)
  case (1 env i s)
  have si: "server_inv s" using "1.prems" by (simp add: round_inv_def)
  show ?case
  proof (cases "i < length (sv_pollFds s)")
    case False
    then show ?thesis using si by (subst serve_loop.simps) simp
  next
    case i: True
    show ?thesis
    proof (cases "pfd_revents (sv_pollFds s ! i) = 0")
      case True
      then show ?thesis
        using "1.IH"(1) [OF i True round_inv_next [OF "1.prems" i si]] i
        by (subst serve_loop.simps) simp
    next
      case ev: False
      from serve_step_wp [OF "1.prems" i ev] obtain r where
        r: "serve_fd env (pfd_fd (sv_pollFds s ! i)) (pfd_revents (sv_pollFds s ! i)) s = Some r"
        and post: "case r of
          Inl x \<Rightarrow> en_revents env (sv_listenFd s) \<noteq> 0 \<and> \<not> has_event (en_revents env (sv_listenFd s)) POLLIN \<and> server_inv (snd x)
        | Inr t \<Rightarrow> round_inv env (Suc i) t \<and> sv_listenFd t = sv_listenFd s"
        by (auto elim!: wpE split: sum.splits)
      show ?thesis
      proof (cases r)
        case (Inl x)
        then show ?thesis using r post i ev by (subst serve_loop.simps) simp
      next
        case (Inr t)
        then show ?thesis
          using "1.IH"(2) [OF i ev r Inr] r post i ev by (subst serve_loop.simps) simp
      qed
    qed
  qed
qed

lemma iteration_wp:
  assumes i: "server_inv s" and k: "kernel_ok env s"
  shows "wp (iteration env s) (\<lambda>r. case r of Inl x \<Rightarrow> fatal env s \<and> server_inv (snd x) | Inr t \<Rightarrow> server_inv t)"
proof -
  let ?s1 = "s\<lparr>sv_pollFds := map (refreshed s) (sv_pollFds s)\<rparr>"
  have i1: "server_inv ?s1" by (rule refresh_inv [OF i])
  have ne: "sv_pollFds ?s1 \<noteq> []" using invD(4) [OF i] by (auto simp: poll_inv_def)
  let ?s2 = "polled env ?s1"
  have i2: "server_inv ?s2" unfolding polled_def by (rule inv_pollFds [OF i1]) simp
  have "round_inv env 0 ?s2"
    using i2 k by (auto simp: round_inv_def polled_def kernel_ok_def)
  from serve_loop_wp [OF this] have "wp (serve_loop env 0 ?s2) (\<lambda>r. case r of
        Inl x \<Rightarrow> en_revents env (sv_listenFd s) \<noteq> 0 \<and> \<not> has_event (en_revents env (sv_listenFd s)) POLLIN \<and> server_inv (snd x)
      | Inr t \<Rightarrow> server_inv t)"
    by (rule wp_mono) (auto simp: polled_def split: sum.splits)
  then obtain r where r: "serve_loop env 0 ?s2 = Some r"
    and post: "case r of
        Inl x \<Rightarrow> en_revents env (sv_listenFd s) \<noteq> 0 \<and> \<not> has_event (en_revents env (sv_listenFd s)) POLLIN \<and> server_inv (snd x)
      | Inr t \<Rightarrow> server_inv t"
    by (rule wpE)
  have "wp (reapDeadClients t) (\<lambda>u. server_inv u)" if "r = Inr t" for t
    by (rule wp_mono [OF reap_wp]) (use post that in simp_all)
  then show ?thesis
    using refresh_eq [OF i] ne r post i1
    by (cases "en_poll env"; cases r) (auto simp: iteration_def fatal_def)
qed

section \<open>The reachable states\<close>

inductive server_step :: "server \<Rightarrow> server \<Rightarrow> bool" where
  round: "kernel_ok env s \<Longrightarrow> iteration env s = Some (Inr t) \<Longrightarrow> server_step s t"

inductive_cases server_stepE: "server_step s t"

inductive reachable :: "server \<Rightarrow> bool" where
  start: "new_Server port pw = Inr s0 \<Longrightarrow> setupSocket calls s0 = Inr s1 \<Longrightarrow>
     (\<And>fd. so_socket calls = Inr fd \<Longrightarrow> 0 \<le> fd) \<Longrightarrow> reachable (setupCommands s1)"
| step: "reachable s \<Longrightarrow> server_step s t \<Longrightarrow> reachable t"

lemma reachable_inv: "reachable s \<Longrightarrow> server_inv s"
proof (induction rule: reachable.induct)
  case (start port pw s0 calls s1)
  then show ?case by (intro start_inv)
next
  case (step s t)
  from step.hyps(2) obtain env where "kernel_ok env s" "iteration env s = Some (Inr t)"
    by (rule server_stepE)
  then show ?case using iteration_wp [OF step.IH, of env] by simp
qed

section \<open>Shutdown\<close>

lemma delete_clients:
  assumes "distinct (map snd it)" and "\<forall>(fd, p) \<in> set it. \<exists>c. sv_heap s p = Some c \<and> cl_fd c = fd \<and> 0 \<le> fd"
  shows "for_each (\<lambda>e t. do { c \<leftarrow> deref (snd e) t; Some (delete_client (snd e) c t) }) it s =
    Some (s\<lparr>sv_heap := sv_heap s |` (- (snd ` set it)), os_fds := os_fds s - fst ` set it\<rparr>)"
  using assms
proof (induction it arbitrary: s)
  case Nil
  show ?case by simp
next
  case (Cons e it)
  obtain fd p where e: "e = (fd, p)" by (cases e)
  from Cons.prems(2) obtain c where c: "sv_heap s p = Some c" "cl_fd c = fd" "0 \<le> fd" by (auto simp: e)
  let ?s1 = "delete_client p c s"
  have s1: "sv_heap ?s1 = (sv_heap s)(p := None)" "os_fds ?s1 = os_fds s - {fd}"
    using c(2,3) by (simp_all add: delete_client_def closeSocket_def)
  have np: "p \<notin> snd ` set it" using Cons.prems(1) by (simp add: e)
  have rest: "for_each (\<lambda>e t. do { c \<leftarrow> deref (snd e) t; Some (delete_client (snd e) c t) }) it ?s1 =
      Some (?s1\<lparr>sv_heap := sv_heap ?s1 |` (- (snd ` set it)), os_fds := os_fds ?s1 - fst ` set it\<rparr>)"
  proof (rule Cons.IH)
    show "distinct (map snd it)" using Cons.prems(1) by simp
    show "\<forall>(fd, p) \<in> set it. \<exists>c. sv_heap ?s1 p = Some c \<and> cl_fd c = fd \<and> 0 \<le> fd"
    proof (rule ballI)
      fix x
      assume x: "x \<in> set it"
      then have "snd x \<noteq> p" using np by auto
      with bspec [OF Cons.prems(2), of x] x
      show "case x of (fd, p) \<Rightarrow> \<exists>c. sv_heap ?s1 p = Some c \<and> cl_fd c = fd \<and> 0 \<le> fd"
        by (auto simp: s1)
    qed
  qed
  have heap: "((sv_heap s)(p := None)) |` (- (snd ` set it)) = sv_heap s |` (- (snd ` set (e # it)))"
    by (rule ext) (simp add: e restrict_map_def)
  have same: "?s1\<lparr>sv_heap := sv_heap ?s1 |` (- (snd ` set it)), os_fds := os_fds ?s1 - fst ` set it\<rparr> =
      s\<lparr>sv_heap := sv_heap s |` (- (snd ` set (e # it))), os_fds := os_fds s - fst ` set (e # it)\<rparr>"
    unfolding s1 heap using c(2,3)
    by (intro server.equality) (auto simp: delete_client_def closeSocket_def e)
  show ?case using c(1) rest same by (simp add: e deref_def)
qed

lemma destroy_closes_all:
  assumes "server_inv s"
  shows "wp (destroy_Server s) (\<lambda>t. os_fds t = {} \<and> sv_heap t = Map.empty \<and> sv_channels t = [])"
proof -
  have H: "distinct (map snd (sv_clients s))" "snd ` set (sv_clients s) = dom (sv_heap s)"
    "\<forall>(fd, p) \<in> set (sv_clients s). \<exists>c. sv_heap s p = Some c \<and> cl_fd c = fd"
    using invD(1) [OF assms] by (simp_all add: heap_inv_def)
  let ?s0 = "s\<lparr>sv_commands := []\<rparr>"
  have "\<forall>(fd, p) \<in> set (sv_clients s). \<exists>c. sv_heap ?s0 p = Some c \<and> cl_fd c = fd \<and> 0 \<le> fd"
    using H(3) inv_client [OF assms] by (fastforce simp: client_inv_def client_wf_def)
  note del = delete_clients [OF H(1) this]
  have "0 \<le> sv_listenFd s" "os_fds s = insert (sv_listenFd s) (fst ` set (sv_clients s))"
    using invD(4,6) [OF assms] by (simp_all add: poll_inv_def config_inv_def)
  moreover have "sv_heap s |` (- dom (sv_heap s)) = Map.empty"
    by (rule ext) (auto simp: restrict_map_def)
  ultimately show ?thesis
    using del H(2) by (auto simp: destroy_Server_def closeSocket_def)
qed

end
