(* ===== verification/Main_Loop.thy ===== *)
theory Main_Loop
  imports Event_Loop
begin

text \<open>
  The \<open>while\<close> loop of \<open>Server::run\<close> as a whole: it goes on until \<open>g_shutdown\<close> is set or an exception leaves
  it, and without either it never ends. \<open>rounds\<close> counts rounds without looking at the flag.
\<close>

section \<open>Rounds in a row\<close>

lemma rounds_append:
  "rounds (xs @ ys) s =
     (rounds xs s \<bind> (\<lambda>r. case r of Inl e \<Rightarrow> Some (Inl e) | Inr t \<Rightarrow> rounds ys t))"
proof (induction xs arbitrary: s)
  case (Cons env envs)
  show ?case
  proof (cases "iteration env s")
    case (Some r)
    then show ?thesis using Cons.IH by (cases r) simp_all
  qed simp
qed simp

text \<open>The kernel hands out fresh descriptors in every round.\<close>

definition kernel_ok_run :: "environment stream \<Rightarrow> server \<Rightarrow> bool" where
  "kernel_ok_run envs s \<longleftrightarrow> (\<forall>k t. rounds (stake k envs) s = Some (Inr t) \<longrightarrow> kernel_ok (envs !! k) t)"

lemma kernel_ok_run_now: "kernel_ok_run envs s \<Longrightarrow> kernel_ok (shd envs) s"
  unfolding kernel_ok_run_def by (metis rounds.simps(1) snth.simps(1) stake.simps(1))

lemma kernel_ok_run_next:
  assumes "kernel_ok_run envs s" and "iteration (shd envs) s = Some (Inr t)"
  shows "kernel_ok_run (stl envs) t"
  unfolding kernel_ok_run_def
proof (intro allI impI)
  fix k u
  assume "rounds (stake k (stl envs)) t = Some (Inr u)"
  then have "rounds (stake (Suc k) envs) s = Some (Inr u)" using assms(2) by simp
  then show "kernel_ok (stl envs !! k) u" using assms(1) unfolding kernel_ok_run_def by (metis snth.simps(2))
qed

text \<open>In some round of the run \<open>poll\<close> or the listening socket fails.\<close>

definition failing :: "environment stream \<Rightarrow> server \<Rightarrow> bool" where
  "failing envs s \<longleftrightarrow> (\<exists>k t. rounds (stake k envs) s = Some (Inr t) \<and> fatal (envs !! k) t)"

lemma failing_now: "fatal (shd envs) s \<Longrightarrow> failing envs s"
  unfolding failing_def by (intro exI [of _ 0] exI [of _ s]) simp

lemma failing_next:
  assumes "iteration (shd envs) s = Some (Inr t)" and "failing (stl envs) t"
  shows "failing envs s"
proof -
  obtain k u where "rounds (stake k (stl envs)) t = Some (Inr u)" "fatal (stl envs !! k) u"
    using assms(2) unfolding failing_def by blast
  then show ?thesis using assms(1) unfolding failing_def by (intro exI [of _ "Suc k"] exI [of _ u]) simp
qed

section \<open>The loop\<close>

lemma run_loop_set [simp]: "run_loop envs True s = Some (Inr s)"
  by (simp add: run_loop.simps)

lemma run_loop_round:
  "run_loop envs False s =
     (iteration (shd envs) s \<bind>
      (\<lambda>r. case r of Inl e \<Rightarrow> Some (Inl e) | Inr t \<Rightarrow> run_loop (stl envs) (en_signal (shd envs)) t))"
  by (subst run_loop.simps) (simp add: handleShutdownSignal_def cong: sum.case_cong)

lemma first_round:
  assumes "server_inv s" and "kernel_ok_run envs s"
  obtains (failed) x where "iteration (shd envs) s = Some (Inl x)" "fatal (shd envs) s" "server_inv (snd x)"
    | (served) t where "iteration (shd envs) s = Some (Inr t)" "server_inv t" "kernel_ok_run (stl envs) t"
proof -
  from iteration_wp [OF assms(1) kernel_ok_run_now [OF assms(2)]] obtain r where
    r: "iteration (shd envs) s = Some r" "case r of Inl x \<Rightarrow> fatal (shd envs) s \<and> server_inv (snd x) | Inr t \<Rightarrow> server_inv t"
    by (rule wpE)
  show thesis
  proof (cases r)
    case (Inl x)
    then show thesis using r failed by simp
  next
    case (Inr t)
    then show thesis using r served kernel_ok_run_next [OF assms(2), of t] by simp
  qed
qed

text \<open>The loop ends once a signal arrives, in the state of its last round or by an exception.\<close>

lemma run_loop_wp:
  assumes "server_inv s" and "kernel_ok_run envs s" and "g_shutdown \<or> en_signal (envs !! k)"
  shows "wp (run_loop envs g_shutdown s)
     (\<lambda>r. case r of Inl x \<Rightarrow> failing envs s \<and> server_inv (snd x) | Inr t \<Rightarrow> server_inv t)"
  using assms
proof (induction k arbitrary: envs g_shutdown s)
  case (0 envs g_shutdown s)
  show ?case
  proof (cases g_shutdown)
    case False
    from "0.prems"(1,2) show ?thesis
    proof (cases rule: first_round)
      case (failed x)
      then show ?thesis using False failing_now by (simp add: run_loop_round)
    next
      case (served t)
      then show ?thesis using False "0.prems"(3) by (simp add: run_loop_round)
    qed
  qed (use "0.prems" in simp)
next
  case (Suc k envs g_shutdown s)
  show ?case
  proof (cases g_shutdown)
    case False
    from Suc.prems(1,2) show ?thesis
    proof (cases rule: first_round)
      case (failed x)
      then show ?thesis using False failing_now by (simp add: run_loop_round)
    next
      case (served t)
      have "en_signal (shd envs) \<or> en_signal (stl envs !! k)" using Suc.prems(3) False by simp
      from Suc.IH [OF served(2,3) this]
      have "wp (run_loop (stl envs) (en_signal (shd envs)) t)
        (\<lambda>r. case r of Inl x \<Rightarrow> failing envs s \<and> server_inv (snd x) | Inr t \<Rightarrow> server_inv t)"
        by (rule wp_mono) (use failing_next [OF served(1)] in \<open>auto split: sum.splits\<close>)
      then show ?thesis using served(1) False by (simp add: run_loop_round)
    qed
  qed (use Suc.prems in simp)
qed

text \<open>The round in which the signal arrives is the last.\<close>

lemma run_loop_rounds:
  assumes "server_inv s" and "kernel_ok_run envs s" and "\<not> failing envs s"
    and "en_signal (envs !! k)" and "\<And>i. i < k \<Longrightarrow> \<not> en_signal (envs !! i)"
  shows "\<exists>t. rounds (stake (Suc k) envs) s = Some (Inr t) \<and> run_loop envs False s = Some (Inr t) \<and> server_inv t"
  using assms
proof (induction k arbitrary: envs s)
  case (0 envs s)
  from "0.prems"(1,2) show ?case
  proof (cases rule: first_round)
    case (served t)
    then show ?thesis using "0.prems"(4) by (simp add: run_loop_round)
  qed (use "0.prems"(3) failing_now in blast)
next
  case (Suc k envs s)
  from Suc.prems(1,2) show ?case
  proof (cases rule: first_round)
    case (served t)
    have quiet: "\<not> en_signal (shd envs)" using Suc.prems(5) [of 0] by simp
    have fine: "\<not> failing (stl envs) t" using Suc.prems(3) failing_next [OF served(1)] by blast
    have sig: "en_signal (stl envs !! k)" "\<And>i. i < k \<Longrightarrow> \<not> en_signal (stl envs !! i)"
      using Suc.prems(4) Suc.prems(5) [of "Suc _"] by simp_all
    from Suc.IH [OF served(2,3) fine sig] obtain u where
      "rounds (stake (Suc k) (stl envs)) t = Some (Inr u)" "run_loop (stl envs) False t = Some (Inr u)" "server_inv u"
      by blast
    then show ?thesis using served(1) quiet by (simp add: run_loop_round)
  qed (use Suc.prems(3) failing_now in blast)
qed

text \<open>Without a signal and without an exception the loop does not end.\<close>

lemma run_loop_ended:
  assumes "run_loop envs g_shutdown s = Some r"
  shows "server_inv s \<longrightarrow> kernel_ok_run envs s \<longrightarrow>
     g_shutdown \<or> failing envs s \<or> (\<exists>k. en_signal (envs !! k))"
proof (rule run_loop.raw_induct [OF _ assms, where P = "\<lambda>envs g_shutdown s r. server_inv s \<longrightarrow> kernel_ok_run envs s \<longrightarrow>
    g_shutdown \<or> failing envs s \<or> (\<exists>k. en_signal (envs !! k))"])
  fix f :: "environment stream \<Rightarrow> bool \<Rightarrow> server \<Rightarrow> server thrown option" and envs g_shutdown s and r :: "server thrown"
  assume IH: "\<And>envs g_shutdown s r. f envs g_shutdown s = Some r \<Longrightarrow> server_inv s \<longrightarrow> kernel_ok_run envs s \<longrightarrow>
      g_shutdown \<or> failing envs s \<or> (\<exists>k. en_signal (envs !! k))"
    and e: "(if g_shutdown then Some (Inr s)
      else do {
        r \<leftarrow> iteration (shd envs) s;
        (case r of
           Inl e \<Rightarrow> Some (Inl e)
         | Inr t \<Rightarrow> f (stl envs) (if en_signal (shd envs) then handleShutdownSignal g_shutdown else g_shutdown) t) }) = Some r"
  show "server_inv s \<longrightarrow> kernel_ok_run envs s \<longrightarrow>
    g_shutdown \<or> failing envs s \<or> (\<exists>k. en_signal (envs !! k))"
  proof (intro impI)
    assume inv: "server_inv s" "kernel_ok_run envs s"
    show "g_shutdown \<or> failing envs s \<or> (\<exists>k. en_signal (envs !! k))"
    proof (cases g_shutdown)
      case False
      from inv show ?thesis
      proof (cases rule: first_round)
        case (served t)
        show ?thesis
        proof (cases "en_signal (shd envs)")
          case True
          then have "en_signal (envs !! 0)" by simp
          then show ?thesis by blast
        next
          case quiet: False
          have "f (stl envs) False t = Some r" using e served(1) False quiet by simp
          from IH [OF this] served(2,3) have "failing (stl envs) t \<or> (\<exists>k. en_signal (stl envs !! k))" by blast
          then show ?thesis using failing_next [OF served(1)] by (metis snth.simps(2))
        qed
      qed (use failing_now in blast)
    qed simp
  qed
qed

end
