(* ===== verification/Server_Main.thy ===== *)
theory Server_Main
  imports Main_Loop
begin

text \<open>
  \<open>src/main.cpp\<close>: the checks of the command line, the construction of the server and
  its run. An argument is \<open>None\<close> for a null pointer; a C string has no \<open>NUL\<close> byte.
\<close>

section \<open>The code\<close>

definition MAX_SERVER_PASSWORD_SIZE :: nat where
  "MAX_SERVER_PASSWORD_SIZE = 504"

definition parsePort :: "string option \<Rightarrow> int option" where
  "parsePort rawArgument =
     (case rawArgument of
        None \<Rightarrow> None
      | Some arg \<Rightarrow>
          if arg = [] then None
          else if \<not> list_all is_digit arg then None
          else case read_long arg of
            None \<Rightarrow> None
          | Some parsedValue \<Rightarrow> if parsedValue < 1 \<or> parsedValue > 65535 then None else Some parsedValue)"

definition isValidPassword :: "string option \<Rightarrow> bool" where
  "isValidPassword rawPassword =
     (case rawPassword of
        None \<Rightarrow> False
      | Some password \<Rightarrow>
          if password = [] then False
          else if length password > MAX_SERVER_PASSWORD_SIZE then False
          else if str_find [CR] password \<noteq> None \<or> str_find [LF] password \<noteq> None then False
          else True)"

definition server_usage :: string where
  "server_usage = cat [''Usage: ./ircserv <port> <password>'', [LF], ''Example: ./ircserv 6687 Passw@ord'']"

text \<open>
  The exit status, what \<open>main.cpp\<close> itself writes to \<open>std::cerr\<close> (without the last line end), and the
  descriptors that the program opened and has not closed. The warnings that the server writes to the same stream while it
  serves (in \<open>Server.cpp\<close> when a connection is refused or a \<open>close()\<close> fails, in \<open>Client.cpp\<close> when a client is dropped or a message is
  not sent) are not modelled. The server is a local of the
  \<open>try\<close> block: it is destroyed before the handler runs, and at the end of the block.
\<close>

definition main :: "start_calls \<Rightarrow> environment stream \<Rightarrow> string option list option \<Rightarrow> (int \<times> string \<times> int set) option" where
  "main calls envs argv =
     (case argv of
        None \<Rightarrow> Some (1, server_usage, {})
      | Some av \<Rightarrow>
          if length av \<noteq> 3 \<or> av ! 0 = None then Some (1, server_usage, {})
          else if av ! 1 = None \<or> av ! 2 = None
          then Some (1, ''Error: port and password arguments are required.'', {})
          else (case parsePort (av ! 1) of
            None \<Rightarrow> Some (1, cat [''Error: invalid port '', [CHR 0x27], the (av ! 1), [CHR 0x27],
                               ''. Expected a number between 1 and 65535.''], {})
          | Some port \<Rightarrow>
              if \<not> isValidPassword (av ! 2)
              then Some (1, cat [''Error: password must contain 1 to '', show_nat MAX_SERVER_PASSWORD_SIZE,
                                 '' characters and must not contain CR or LF.''], {})
              else (case new_Server port (the (av ! 2)) of
                Inl e \<Rightarrow> Some (1, cat [''Fatal error: '', e], {})
              | Inr server \<Rightarrow> do {
                  r \<leftarrow> run calls envs server;
                  (case r of
                     Inl x \<Rightarrow> do { u \<leftarrow> destroy_Server (snd x); Some (1, cat [''Fatal error: '', fst x], os_fds u) }
                   | Inr t \<Rightarrow> do { u \<leftarrow> destroy_Server t; Some (0, [], os_fds u) }) })))"

section \<open>The checks\<close>

lemma parsePort_iff:
  "parsePort (Some arg) = Some port \<longleftrightarrow>
     arg \<noteq> [] \<and> list_all is_digit arg \<and> port = int (decimal arg) \<and> 1 \<le> port \<and> port \<le> 65535"
  by (auto simp: parsePort_def read_long_def LONG_MAX_def split: option.splits if_splits)

lemma parsePort_Some: "parsePort raw = Some port \<Longrightarrow> \<exists>arg. raw = Some arg \<and> 1 \<le> port \<and> port \<le> 65535"
  by (cases raw) (auto simp: parsePort_iff, simp add: parsePort_def)

lemma parsePort_show: "1 \<le> n \<Longrightarrow> n \<le> 65535 \<Longrightarrow> parsePort (Some (show_nat n)) = Some (int n)"
  by (simp add: parsePort_iff show_nat_digits decimal_show_nat)

lemma isValidPassword_iff:
  "isValidPassword (Some pw) \<longleftrightarrow> pw \<noteq> [] \<and> length pw \<le> 504 \<and> CR \<notin> set pw \<and> LF \<notin> set pw"
  by (auto simp: isValidPassword_def MAX_SERVER_PASSWORD_SIZE_def)

text \<open>The constructor accepts what the checks accept: its exceptions cannot be seen.\<close>

lemma checked_arguments:
  assumes "parsePort raw = Some port" and "isValidPassword (Some pw)"
  shows "\<exists>s. new_Server port pw = Inr s"
  using parsePort_Some [OF assms(1)] assms(2) by (auto simp: new_Server_def isValidPassword_iff)

section \<open>A whole run\<close>

lemma run_flag:
  "setupSignals calls = None \<Longrightarrow> setupSocket calls s = Inr s1 \<Longrightarrow>
   run calls envs s = run_loop envs (so_signal calls) (setupCommands s1)"
  by (simp add: run_def handleShutdownSignal_def)

text \<open>However \<open>run\<close> ends, the destructor closes every descriptor.\<close>

lemma destroy_start:
  assumes "sv_clients t = []" and "os_fds t = (if sv_listenFd t < 0 then {} else {sv_listenFd t})"
  shows "wp (destroy_Server t) (\<lambda>u. os_fds u = {})"
  using assms by (auto simp: destroy_Server_def closeSocket_def Let_def)

lemma run_destroyed:
  assumes new: "new_Server port pw = Inr s0" and fd: "\<And>fd. so_socket calls = Inr fd \<Longrightarrow> 0 \<le> fd"
    and k: "\<And>s1. setupSocket calls s0 = Inr s1 \<Longrightarrow> kernel_ok_run envs (setupCommands s1)"
    and sig: "so_signal calls \<or> en_signal (envs !! k)"
  shows "wp (run calls envs s0)
    (\<lambda>r. wp (destroy_Server (case r of Inl x \<Rightarrow> snd x | Inr t \<Rightarrow> t)) (\<lambda>u. os_fds u = {}))"
proof -
  have s0: "sv_clients s0 = []" "os_fds s0 = {}" "sv_listenFd s0 = -1"
    using new by (auto simp: new_Server_def split: if_splits)
  have failed: "wp (destroy_Server (snd x)) (\<lambda>u. os_fds u = {})" if "setupSocket calls s0 = Inl x" for x
    by (rule destroy_start)
      (use that fd s0 in \<open>auto simp: setupSocket_def Let_def split: sum.splits option.splits\<close>)
  have closed: "wp (destroy_Server t) (\<lambda>u. os_fds u = {})" if "server_inv t" for t
    by (rule wp_mono [OF destroy_closes_all [OF that]]) simp
  show ?thesis
  proof (cases "setupSignals calls")
    case (Some e)
    then show ?thesis using destroy_start [of s0] s0 by (simp add: run_def)
  next
    case None
    show ?thesis
    proof (cases "setupSocket calls s0")
      case (Inl x)
      then show ?thesis using None failed by (simp add: run_def)
    next
      case (Inr s1)
      have "wp (run_loop envs (so_signal calls) (setupCommands s1))
          (\<lambda>r. wp (destroy_Server (case r of Inl x \<Rightarrow> snd x | Inr t \<Rightarrow> t)) (\<lambda>u. os_fds u = {}))"
        by (rule wp_mono [OF run_loop_wp [OF start_inv [OF new Inr fd] k [OF Inr] sig]])
          (auto simp: closed split: sum.splits)
      then show ?thesis using None Inr by (simp add: run_flag)
    qed
  qed
qed

section \<open>The port argument\<close>

text \<open>
  Round trip: the port is accepted exactly when the argument is a non-empty string of decimal
  digits whose value is between 1 and 65535 (leading zeros included, no overflow on the way),
  and the accepted number, written in decimal again, is accepted as the same port.
\<close>

lemma port_round_trip:
  "(parsePort (Some arg) = Some port \<longleftrightarrow>
      arg \<noteq> [] \<and> list_all is_digit arg \<and> port = int (decimal arg) \<and> 1 \<le> port \<and> port \<le> 65535) \<and>
   (parsePort (Some arg) = Some port \<longrightarrow> parsePort (Some (show_nat (nat port))) = Some port)"
  using parsePort_iff [of arg port] parsePort_show [of "nat port"] by auto

lemma port_round_trip_witness: "parsePort (Some ''06667'') = Some 6667 \<and> parsePort (Some (show_nat 6667)) = Some 6667"
proof -
  have "list_all is_digit ''06667''" "decimal ''06667'' = 6667" by code_simp+
  then show ?thesis using port_round_trip [of "''06667''" 6667] by simp
qed

end
