(* ===== verification/Bot_Session.thy ===== *)
theory Bot_Session
  imports Bot Server_Main
begin

text \<open>
  \<open>src/bot/main.cpp\<close>, and the two programs together: what the bot sends is what the
  server reads. Every password and channel that the bot's command line accepts is one
  that the server accepts, the bot's opening registers it, and it greets the clients whose
  JOIN the server announces.
\<close>

section \<open>The command line of the bot\<close>

definition MAX_PASSWORD_SIZE :: nat where
  "MAX_PASSWORD_SIZE = 504"

definition MAX_CHANNEL_NAME_SIZE :: nat where
  "MAX_CHANNEL_NAME_SIZE = 50"

definition parseBotPort :: "string option \<Rightarrow> int option" where
  "parseBotPort rawPort =
     (case rawPort of
        None \<Rightarrow> None
      | Some arg \<Rightarrow>
          if arg = [] then None
          else if \<not> list_all is_digit arg then None
          else (case read_long arg of
            None \<Rightarrow> None
          | Some parsedPort \<Rightarrow> if parsedPort < 1 \<or> parsedPort > 65535 then None else Some parsedPort))"

definition containsLineControl :: "string \<Rightarrow> bool" where
  "containsLineControl v \<longleftrightarrow> str_find [CR] v \<noteq> None \<or> str_find [LF] v \<noteq> None"

definition isValidBotPassword :: "string option \<Rightarrow> bool" where
  "isValidBotPassword rawPassword =
     (case rawPassword of
        None \<Rightarrow> False
      | Some password \<Rightarrow>
          if password = [] then False
          else if length password > MAX_PASSWORD_SIZE then False
          else \<not> containsLineControl password)"

definition isValidBotChannel :: "string \<Rightarrow> bool" where
  "isValidBotChannel channel =
     (if length channel < 2 \<or> length channel > MAX_CHANNEL_NAME_SIZE then False
      else if hd channel \<noteq> CHR ''#'' \<and> hd channel \<noteq> CHR ''&'' then False
      else list_all (\<lambda>c. \<not> (c = CHR '' '' \<or> c = CHR '','' \<or> c = CHR '':'' \<or> c = BEL \<or> c = CR \<or> c = LF)) channel)"

definition bot_usage :: "string list" where
  "bot_usage = [''Usage: ./ircbot <host> <port> <password> <channel>'',
                cat [''Example: ./ircbot 127.0.0.1 6687 Passw@rd123 '', [CHR 0x27], ''#general'', [CHR 0x27]]]"

text \<open>
  The exit status, the lines written to \<open>std::cerr\<close>, by \<open>main\<close> and, for a failed \<open>close()\<close>, by \<open>Bot.cpp\<close>, and the
  descriptors that the bot opened and has not closed; its destructor runs also when an
  exception ends \<open>run\<close>, before the handler writes its line.
\<close>

definition bot_main ::
  "errno option \<Rightarrow> string + (int \<times> bool) list \<Rightarrow> recv_result list \<Rightarrow> send_result list \<Rightarrow> errno option list \<Rightarrow>
   string option list option \<Rightarrow> (int \<times> string list \<times> int set) option" where
  "bot_main ignored resolved received sends closes argv =
     (case argv of
        None \<Rightarrow> Some (1, bot_usage, {})
      | Some av \<Rightarrow>
          if length av \<noteq> 5 then Some (1, bot_usage, {})
          else if list_ex (\<lambda>a. a = None) av then Some (1, [''Error: bot received a missing argument.''], {})
          else (case parseBotPort (av ! 2) of
            None \<Rightarrow> Some (1, [''Error: bot port must be a number between 1 and 65535.''], {})
          | Some port \<Rightarrow>
              if \<not> isValidBotPassword (av ! 3)
              then Some (1, [''Error: bot password must contain 1 to 504 characters without CR or LF.''], {})
              else if \<not> isValidBotChannel (the (av ! 4))
              then Some (1, [''Error: bot channel must be a valid # or & channel name.''], {})
              else (case new_Bot (the (av ! 1)) port (the (av ! 3)) (the (av ! 4)) sends closes of
                Inl e \<Rightarrow> Some (1, [cat [''Bot error: '', e]], {})
              | Inr b \<Rightarrow> do {
                  r \<leftarrow> bot_run ignored resolved received b;
                  (case r of
                     Inl x \<Rightarrow> (let b' = destroy_Bot (snd x) in
                                  Some (1, bt_cerr b' @ [cat [''Bot error: '', fst x]], bt_fds b'))
                   | Inr b1 \<Rightarrow> (let b' = destroy_Bot b1 in Some (0, bt_cerr b', bt_fds b'))) })))"

text \<open>How a process of the bot ends: status, error stream, descriptors left open.\<close>

definition ended_well :: "errno option list \<Rightarrow> int \<times> string list \<times> int set \<Rightarrow> bool" where
  "ended_well closes r \<longleftrightarrow> (case r of (status, err, fds) \<Rightarrow> fds = {} \<and> (\<exists>warnings reason. err = warnings @ reason \<and>
     (\<forall>w \<in> set warnings. \<exists>e. Some e \<in> set closes \<and> w = close_warning e) \<and>
     (status = 0 \<and> reason = [] \<or> status = 1 \<and> reason \<noteq> [] \<and> [] \<notin> set reason)))"

lemma ended_refused: "reason \<noteq> [] \<Longrightarrow> [] \<notin> set reason \<Longrightarrow> ended_well closes (1, reason, {})"
  unfolding ended_well_def by (simp, rule exI [of _ "[]"]) simp

lemma ended_after:
  assumes "owns_socket closes b"
  shows "ended_well closes (0, bt_cerr (destroy_Bot b), bt_fds (destroy_Bot b))"
    and "ended_well closes (1, bt_cerr (destroy_Bot b) @ [cat [''Bot error: '', e]], bt_fds (destroy_Bot b))"
proof -
  from destroy_owned [OF assms] have d: "bt_fds (destroy_Bot b) = {}" "warned closes (destroy_Bot b)" by blast+
  then show "ended_well closes (0, bt_cerr (destroy_Bot b), bt_fds (destroy_Bot b))"
    by (simp add: ended_well_def warned_def)
  show "ended_well closes (1, bt_cerr (destroy_Bot b) @ [cat [''Bot error: '', e]], bt_fds (destroy_Bot b))"
    unfolding ended_well_def prod.case
    by (rule conjI [OF d(1)], rule exI [of _ "bt_cerr (destroy_Bot b)"], rule exI [of _ "[cat [''Bot error: '', e]]"])
      (use d(2) in \<open>simp add: warned_def cat_def\<close>)
qed

lemma bot_main_ended: "pc (bot_main ignored resolved received sends closes argv) (ended_well closes)"
proof -
  have usage: "ended_well closes (1, bot_usage, {})" by (rule ended_refused) (simp_all add: bot_usage_def cat_def)
  have one: "ended_well closes (1, [m], {})" if "m \<noteq> []" for m by (rule ended_refused) (use that in simp_all)
  have run: "pc (case new_Bot host port pw ch sends closes of
      Inl e \<Rightarrow> Some (1, [cat [''Bot error: '', e]], {})
    | Inr b \<Rightarrow> do {
        r \<leftarrow> bot_run ignored resolved received b;
        (case r of
           Inl x \<Rightarrow> (let b' = destroy_Bot (snd x) in
                        Some (1, bt_cerr b' @ [cat [''Bot error: '', fst x]], bt_fds b'))
         | Inr b1 \<Rightarrow> (let b' = destroy_Bot b1 in Some (0, bt_cerr b', bt_fds b'))) }) (ended_well closes)" for host port pw ch
  proof (cases "new_Bot host port pw ch sends closes")
    case (Inl e)
    then show ?thesis using one [of "cat [''Bot error: '', e]"] by (simp add: cat_def)
  next
    case (Inr b)
    show ?thesis
    proof (cases "bot_run ignored resolved received b")
      case (Some r)
      then show ?thesis
        using bot_run_owned [OF Inr, of ignored resolved received] Inr
        by (cases r) (simp_all add: Let_def ended_after)
    qed (simp add: Inr)
  qed
  show ?thesis
    unfolding bot_main_def by (intro pc_case_option pc_if run) (simp_all add: usage one)
qed

text \<open>
  C33. However the bot ends, it has closed its socket and every candidate socket it tried; its exit
  status is 0 (the server closed the connection) or 1 with a reason on the error stream, as its last lines. All else there, and all there is after
  status 0, are warnings of calls of \<open>close()\<close> that failed.
\<close>

theorem bot_main_ends:
  assumes "bot_main ignored resolved received sends closes argv = Some (status, err, fds)"
  shows "fds = {} \<and> (\<exists>warnings reason. err = warnings @ reason \<and>
     (\<forall>w \<in> set warnings. \<exists>e. Some e \<in> set closes \<and> w = close_warning e) \<and>
     (status = 0 \<and> reason = [] \<or> status = 1 \<and> reason \<noteq> [] \<and> [] \<notin> set reason))"
  using pcD [OF bot_main_ended assms] unfolding ended_well_def prod.case .

lemma bot_main_ends_witness:
  "\<exists>err warnings reason. bot_main None (Inr [(7, False), (8, True)]) [] [SendFailed (Errno ''Broken pipe'')] [Some EINTR]
       (Some [Some ''ircbot'', Some ''localhost'', Some ''6667'', Some ''pw'', Some ''#c'']) = Some (1, err, {}) \<and>
     err = warnings @ reason \<and> set warnings \<subseteq> {close_warning EINTR} \<and> reason \<noteq> []"
proof -
  have "list_all is_digit ''6667''" "decimal ''6667'' = 6667" by code_simp+
  then have port: "parseBotPort (Some ''6667'') = Some 6667"
    by (auto simp: parseBotPort_def read_long_def LONG_MAX_def)
  have args: "isValidBotPassword (Some ''pw'')" "isValidBotChannel ''#c''" by code_simp+
  obtain b where b: "new_Bot ''localhost'' 6667 ''pw'' ''#c'' [SendFailed (Errno ''Broken pipe'')] [Some EINTR] = Inr b"
    by (simp add: new_Bot_def)
  then have "bt_sends b = [SendFailed (Errno ''Broken pipe'')]" "bt_password b = ''pw''" "bt_socketFd b = -1"
    "bt_closes b = [Some EINTR]"
    by (auto simp: new_Bot_def)
  then obtain x where "bot_run None (Inr [(7, False), (8, True)]) [] b = Some (Inl x)"
    by (auto simp: bot_run_def connectToServer_def bot_sendLine_def closeBotSocket_def MAX_IRC_MESSAGE_SIZE_def cat_def Let_def)
  then obtain err fds where "bot_main None (Inr [(7, False), (8, True)]) [] [SendFailed (Errno ''Broken pipe'')] [Some EINTR]
       (Some [Some ''ircbot'', Some ''localhost'', Some ''6667'', Some ''pw'', Some ''#c'']) = Some (1, err, fds)"
    using port args b by (auto simp: bot_main_def Let_def)
  with bot_main_ends [OF this] show ?thesis by auto
qed

lemma bot_checks:
  "parseBotPort = parsePort" "isValidBotPassword = isValidPassword"
  by (auto simp: fun_eq_iff parseBotPort_def parsePort_def isValidBotPassword_def isValidPassword_def
      containsLineControl_def MAX_PASSWORD_SIZE_def MAX_SERVER_PASSWORD_SIZE_def split: option.splits)

lemma bot_channel_valid:
  assumes "isValidBotChannel ch" and "NUL \<notin> set ch"
  shows "isValidChannelName ch" and "clean ch"
proof -
  from assms(1) have v: "2 \<le> length ch" "length ch \<le> 50" "hd ch = CHR ''#'' \<or> hd ch = CHR ''&''"
    "list_all (\<lambda>c. \<not> (c = CHR '' '' \<or> c = CHR '','' \<or> c = CHR '':'' \<or> c = BEL \<or> c = CR \<or> c = LF)) ch"
    by (simp_all add: isValidBotChannel_def MAX_CHANNEL_NAME_SIZE_def split: if_splits)
  from v(4) have "list_all (\<lambda>c. \<not> (c = CHR '' '' \<or> c = CHR '','' \<or> c = BEL)) ch" "CR \<notin> set ch" "LF \<notin> set ch"
    by (auto simp: list_all_iff)
  then show "isValidChannelName ch" "clean ch"
    using v(1-3) assms(2) by (auto simp: isValidChannelName_def clean_iff)
qed

text \<open>
  C35. The two command lines agree: the bot accepts a port or a password exactly when the server
  program does, and every channel that the bot accepts is one that the server lets a client
  join (a C string has no NUL byte).
\<close>

theorem bot_arguments_fit:
  "parseBotPort raw = parsePort raw \<and> isValidBotPassword raw = isValidPassword raw \<and>
   (isValidBotChannel ch \<and> NUL \<notin> set ch \<longrightarrow> isValidChannelName ch \<and> clean ch)"
  using bot_checks bot_channel_valid [of ch] by simp

lemma bot_arguments_fit_witness: "isValidChannelName ''#bots'' \<and> parseBotPort (Some ''99999'') = parsePort (Some ''99999'')"
proof -
  have "isValidBotChannel ''#bots''" by code_simp
  then show ?thesis using bot_arguments_fit [of "Some ''99999''" "''#bots''"] by simp
qed

section \<open>The lines of the bot's opening\<close>

lemma parse_plain:
  assumes w: "is_word w" "no_colon w" "toUpperCase w = w"
    and ws: "list_all (\<lambda>v. is_word v \<and> no_colon v) ws" and tr: "\<And>u. t = Some u \<Longrightarrow> CR \<notin> set u"
  shows "parse (w @ spaced ws @ (case t of None \<Rightarrow> [] | Some u \<Rightarrow> '' :'' @ u)) =
    \<lparr>msg_prefix = [], msg_command = w, msg_params = ws @ (case t of None \<Rightarrow> [] | Some u \<Rightarrow> [u])\<rparr>"
proof -
  note pw = parse_words [OF w(1) ws tr]
  have hd_w: "hd w \<noteq> CHR '':''" using w by (auto simp: is_word_def no_colon_def)
  have words: "list_all is_word ws" using ws by (simp add: list_all_iff)
  show ?thesis
    using parse_line(1) [OF pw(1-4) hd_w] w(3) read_words_spaced [OF words] by simp
qed

definition pass_line :: "string \<Rightarrow> string" where
  "pass_line pw = ''PASS :'' @ pw"

lemma parse_pass_line:
  assumes "CR \<notin> set pw"
  shows "parse (pass_line pw) = \<lparr>msg_prefix = [], msg_command = ''PASS'', msg_params = [pw]\<rparr>"
  using parse_plain [of "''PASS''" "[]" "Some pw"] assms
  by (simp add: pass_line_def spaced_def is_word_def is_space_def no_colon_def toUpperCase_def to_upper_def is_lower_def)

lemma parse_nick_line:
  "parse ''NICK ft_bot'' = \<lparr>msg_prefix = [], msg_command = ''NICK'', msg_params = [BOT_NICKNAME]\<rparr>"
  using parse_plain [of "''NICK''" "[''ft_bot'']" None]
  by (simp add: spaced_def is_word_def is_space_def no_colon_def toUpperCase_def to_upper_def is_lower_def BOT_NICKNAME_def)

lemma parse_user_line:
  "parse ''USER ftbot 0 * :ft_irc bonus bot'' =
     \<lparr>msg_prefix = [], msg_command = ''USER'', msg_params = [''ftbot'', ''0'', ''*'', ''ft_irc bonus bot'']\<rparr>"
  using parse_plain [of "''USER''" "[''ftbot'', ''0'', ''*'']" "Some ''ft_irc bonus bot''"]
  by (simp add: spaced_def is_word_def is_space_def no_colon_def toUpperCase_def to_upper_def is_lower_def)

definition bot_opening :: "string \<Rightarrow> string list" where
  "bot_opening pw = [pass_line pw, ''NICK ft_bot'', ''USER ftbot 0 * :ft_irc bonus bot'']"

lemma bot_opening_wire:
  assumes "isValidPassword (Some pw)" and "NUL \<notin> set pw"
  shows "list_all wire_line (bot_opening pw)"
  using assms
  by (simp add: bot_opening_def pass_line_def wire_line_def isValidPassword_iff clean_iff MAX_IRC_MESSAGE_SIZE_def)

text \<open>What the bot writes before it listens: its opening, when the socket takes the bytes.\<close>

lemma bot_run_opening:
  assumes c: "connectToServer resolved b = Some (Inr b1)" and pw: "bt_password b1 = pw"
    and valid: "isValidPassword (Some pw)" "NUL \<notin> set pw"
    and takes: "list_all (\<lambda>r. \<exists>n. r = Sent (Suc n)) (bt_sends b1)" "600 \<le> length (bt_sends b1)"
  shows "\<exists>b4. bot_run None resolved received b = receiveMessages received b4 \<and>
    bt_sent b4 = bt_sent b1 @ concat (map to_wire (bot_opening pw)) \<and> bt_receiveBuffer b4 = bt_receiveBuffer b1"
proof -
  have w: "wire_line (pass_line pw)" using bot_opening_wire [OF valid] by (simp add: bot_opening_def)
  have len: "length (pass_line pw) \<le> 510" using w by (simp add: wire_line_def MAX_IRC_MESSAGE_SIZE_def)
  have w2: "wire_line ''NICK ft_bot''" "wire_line ''USER ftbot 0 * :ft_irc bonus bot''"
    using bot_opening_wire [OF valid] by (simp_all add: bot_opening_def)
  obtain b2 where b2: "bot_sendLine (pass_line pw) b1 = Some (Inr b2)"
    "list_all (\<lambda>r. \<exists>n. r = Sent (Suc n)) (bt_sends b2)" "length (bt_sends b1) \<le> length (bt_sends b2) + length (pass_line pw) + 2"
    using sendLine_succeeds [OF w _ takes(1)] len takes(2) by (auto simp: pass_line_def)
  obtain b3 where b3: "bot_sendLine ''NICK ft_bot'' b2 = Some (Inr b3)"
    "list_all (\<lambda>r. \<exists>n. r = Sent (Suc n)) (bt_sends b3)" "length (bt_sends b2) \<le> length (bt_sends b3) + 13"
    using sendLine_succeeds [OF w2(1) _ b2(2)] b2(3) len takes(2) by auto
  obtain b4 where b4: "bot_sendLine ''USER ftbot 0 * :ft_irc bonus bot'' b3 = Some (Inr b4)"
    using sendLine_succeeds [OF w2(2) _ b3(2)] b2(3) b3(3) len takes(2) by auto
  have "cat [''PASS :'', bt_password b1] = pass_line pw" "cat [''NICK '', BOT_NICKNAME] = ''NICK ft_bot''"
    by (simp_all add: cat_def pw pass_line_def BOT_NICKNAME_def)
  then have "bot_run None resolved received b = receiveMessages received b4"
    using c b2(1) b3(1) b4 by (simp add: bot_run_def)
  moreover have "bt_sent b4 = bt_sent b1 @ concat (map to_wire (bot_opening pw))"
    using sendLine_wire(3) [OF b2(1)] sendLine_wire(3) [OF b3(1)] sendLine_wire(3) [OF b4]
    by (simp add: bot_opening_def)
  moreover have "bt_receiveBuffer b4 = bt_receiveBuffer b1"
    using sendLine_wire(4) [OF b2(1)] sendLine_wire(4) [OF b3(1)] sendLine_wire(4) [OF b4] by simp
  ultimately show ?thesis by blast
qed

section \<open>The server reads the opening\<close>

lemma read_loop_line:
  assumes c: "sv_heap s p = Some c" and l: "wire_line l" "cl_recvBuffer c = to_wire l @ rest"
    and step: "processLine p l (put_client p (c\<lparr>cl_recvBuffer := rest\<rparr>) s) = Some s1"
    and c1: "sv_heap s1 p = Some c1"
  shows "read_loop p s = (if cl_dead c1 \<or> cl_closing c1 then Some s1 else read_loop p s1)"
proof -
  have buf: "cl_recvBuffer c = (l @ [CR]) @ LF # rest" using l(2) by (simp add: to_wire_def)
  have lf: "LF \<notin> set (l @ [CR])" and len: "length (l @ [CR]) < MAX_IRC_MESSAGE_SIZE" and cl: "clean l"
    using l(1) by (auto simp: wire_line_def clean_iff)
  have e: "extractLine c = (Some l, c\<lparr>cl_recvBuffer := rest\<rparr>)"
    using extractLine_at_newline [OF buf lf] len cl by (simp add: strip_cr_snoc)
  show ?thesis
    using c e step c1 by (subst read_loop.simps) (auto simp: deref_def)
qed

lemma findClientByNick_put:
  assumes "sv_heap s p = Some c" and "cl_dead x = cl_dead c" and "cl_nickname x = cl_nickname c"
  shows "findClientByNick n (put_client p x s) = findClientByNick n s"
proof -
  have "find_nick_loop m it (put_client p x s) = find_nick_loop m it s" for m it
    by (rule find_nick_loop_cong) (use assms in \<open>auto simp: put_client_def\<close>)
  then show ?thesis by (simp add: findClientByNick_def put_client_def)
qed

lemma put_client_simps [simp]:
  "sv_heap (put_client p x s) p = Some x" "sv_commands (put_client p x s) = sv_commands s"
  "sv_password (put_client p x s) = sv_password s" "put_client p y (put_client p x s) = put_client p y s"
  "sv_channels (put_client p x s) = sv_channels s"
  by (simp_all add: put_client_def)

lemma invoke_put: "invoke f p (put_client p x s) = Some (put_client p (f x) s)"
  by (simp add: invoke_def deref_def) (simp add: put_client_def)

lemma send_put: "send_to p m (put_client p x s) = Some (put_client p (sendMessage m x) s)"
  by (simp add: send_to_def invoke_put)

lemma deref_put: "deref p (put_client p x s) = Some x"
  by (simp add: deref_def)

lemma pass_line_accepted:
  assumes i: "server_inv s" and pw: "isValidPassword (Some (sv_password s))" and x: "\<not> cl_passOk x"
  shows "processLine p (pass_line (sv_password s)) (put_client p x s) =
    Some (put_client p (x\<lparr>cl_passOk := True\<rparr>) s)"
proof -
  have "parse (pass_line (sv_password s)) =
      \<lparr>msg_prefix = [], msg_command = ''PASS'', msg_params = [sv_password s]\<rparr>"
    by (rule parse_pass_line) (use pw in \<open>simp add: isValidPassword_iff\<close>)
  moreover have "sv_password s \<noteq> []" using pw by (simp add: isValidPassword_iff)
  ultimately show ?thesis
    using x
    by (simp add: processLine_def processMessage_def commands_table [OF i] deref_put execute_def
        pass_execute_def invoke_put)
qed

lemma nick_line_accepted:
  assumes i: "server_inv s" and c: "sv_heap s p = Some c" and free: "findClientByNick BOT_NICKNAME s = Some None"
    and x: "cl_passOk x" "\<not> cl_userSet x" "cl_dead x = cl_dead c" "cl_nickname x = cl_nickname c"
  shows "processLine p ''NICK ft_bot'' (put_client p x s) =
    Some (put_client p (x\<lparr>cl_nickname := BOT_NICKNAME, cl_nickSet := True\<rparr>) s)"
proof -
  have valid: "isValidNickname BOT_NICKNAME" "BOT_NICKNAME \<noteq> []" by (simp_all add: BOT_NICKNAME_def) code_simp
  have reg: "\<not> isRegistered x" "\<not> isRegistered (x\<lparr>cl_nickname := BOT_NICKNAME, cl_nickSet := True\<rparr>)"
    using x(2) by (simp_all add: isRegistered_def)
  show ?thesis
    using x(1) reg valid free findClientByNick_put [OF c x(3,4)]
    by (simp add: processLine_def parse_nick_line processMessage_def commands_table [OF i] deref_put
        execute_def nick_execute_def invoke_put)
qed

lemma user_line_accepted:
  assumes i: "server_inv s" and x: "cl_passOk x" "cl_nickSet x" "\<not> cl_userSet x"
  defines "y \<equiv> x\<lparr>cl_username := ''ftbot'', cl_userSet := True\<rparr>"
  shows "processLine p ''USER ftbot 0 * :ft_irc bonus bot'' (put_client p x s) =
    Some (put_client p (sendMessage (welcome_message y) y) s)"
proof -
  have valid: "isValidUsername ''ftbot''" by code_simp
  have reg: "isRegistered y" using x by (simp add: y_def isRegistered_def)
  show ?thesis
    using x valid reg unfolding y_def
    by (simp add: processLine_def parse_user_line processMessage_def commands_table [OF i] deref_put
        execute_def user_execute_def invoke_put send_put)
qed

text \<open>
  A fresh connection that sends the opening with the server's password is registered,
  under the bot's nickname, and the last thing queued for it is the welcome message.
\<close>

lemma bot_registers:
  assumes i: "server_inv s" and pw: "isValidPassword (Some (sv_password s))" "NUL \<notin> set (sv_password s)"
    and c: "sv_heap s p = Some c" "\<not> cl_dead c" "\<not> cl_closing c"
    and fresh: "\<not> cl_passOk c" "\<not> cl_nickSet c" "\<not> cl_userSet c"
    and free: "findClientByNick BOT_NICKNAME s = Some None"
    and buf: "cl_recvBuffer c = concat (map to_wire (bot_opening (sv_password s)))"
  defines "d \<equiv> c\<lparr>cl_recvBuffer := [], cl_passOk := True, cl_nickname := BOT_NICKNAME, cl_nickSet := True,
      cl_username := ''ftbot'', cl_userSet := True\<rparr>"
  shows "read_loop p s = Some (put_client p (sendMessage (welcome_message d) d) s)" and "isRegistered d"
proof -
  let ?l1 = "pass_line (sv_password s)" and ?l2 = "''NICK ft_bot''" and ?l3 = "''USER ftbot 0 * :ft_irc bonus bot''"
  let ?r2 = "to_wire ?l3" and ?r1 = "to_wire ?l2 @ to_wire ?l3"
  have w: "wire_line ?l1" "wire_line ?l2" "wire_line ?l3"
    using bot_opening_wire [OF pw] by (simp_all add: bot_opening_def)
  have b: "cl_recvBuffer c = to_wire ?l1 @ ?r1" using buf by (simp add: bot_opening_def)
  let ?x1 = "c\<lparr>cl_recvBuffer := ?r1, cl_passOk := True\<rparr>"
  let ?x2 = "?x1\<lparr>cl_recvBuffer := ?r2, cl_nickname := BOT_NICKNAME, cl_nickSet := True\<rparr>"
  let ?e = "sendMessage (welcome_message d) d"
  have st1: "processLine p ?l1 (put_client p (c\<lparr>cl_recvBuffer := ?r1\<rparr>) s) = Some (put_client p ?x1 s)"
    using pass_line_accepted [OF i pw(1), of "c\<lparr>cl_recvBuffer := ?r1\<rparr>" p] fresh by simp
  have st2: "processLine p ?l2 (put_client p (?x1\<lparr>cl_recvBuffer := ?r2\<rparr>) (put_client p ?x1 s)) =
      Some (put_client p ?x2 s)"
    using nick_line_accepted [OF i c(1) free, of "?x1\<lparr>cl_recvBuffer := ?r2\<rparr>"] fresh by simp
  have st3: "processLine p ?l3 (put_client p (?x2\<lparr>cl_recvBuffer := []\<rparr>) (put_client p ?x2 s)) =
      Some (put_client p ?e s)"
  proof -
    have d: "d = ?x2\<lparr>cl_recvBuffer := [], cl_username := ''ftbot'', cl_userSet := True\<rparr>"
      unfolding d_def by (intro client.equality) simp_all
    show ?thesis
      unfolding d using user_line_accepted [OF i, of "?x2\<lparr>cl_recvBuffer := []\<rparr>" p] fresh by simp
  qed
  have "extractLine ?e = (None, ?e)" by (rule extractLine_no_newline) (simp add: d_def)
  then have stop: "read_loop p (put_client p ?e s) = Some (put_client p ?e s)"
    by (subst read_loop.simps) (simp add: deref_put)
  have act: "\<not> (cl_dead ?x1 \<or> cl_closing ?x1)" "\<not> (cl_dead ?x2 \<or> cl_closing ?x2)" using c(2,3) by simp_all
  have "read_loop p s = read_loop p (put_client p ?x1 s)"
    using read_loop_line [OF c(1) w(1) b st1 put_client_simps(1)] act(1) by (simp only: if_False)
  also have "\<dots> = read_loop p (put_client p ?x2 s)"
    using read_loop_line [OF put_client_simps(1) w(2) _ st2 put_client_simps(1)] act(2)
    by (simp only: if_False) simp
  also have "\<dots> = Some (put_client p ?e s)"
    using read_loop_line [OF put_client_simps(1) w(3) _ st3 put_client_simps(1)] stop by simp
  finally show "read_loop p s = Some (put_client p ?e s)" .
  show "isRegistered d" by (simp add: d_def isRegistered_def)
qed

section \<open>The greeting\<close>

lemma str_find_skip:
  assumes "CHR '' '' \<notin> set w"
  shows "str_find (CHR '' '' # pat) (w @ r) = map_option ((+) (length w)) (str_find (CHR '' '' # pat) r)"
  using assms
proof (induction w)
  case (Cons a w)
  then show ?case by (cases "str_find (CHR '' '' # pat) r") auto
qed (cases "str_find (CHR '' '' # pat) r"; simp)

text \<open>The JOIN that the server announces makes the bot greet the client by its nickname.\<close>

lemma greet_line:
  assumes nick: "isValidNickname (cl_nickname c)" and user: "CHR '' '' \<notin> set (cl_username c)"
  shows "greetJoinedUser (cat [user_prefix c, '' JOIN :'', ch]) b =
    (if cl_nickname c = BOT_NICKNAME \<or> ch \<noteq> bt_channel b then Some (Inr b)
     else bot_sendLine (cat [''PRIVMSG '', ch, '' :Hello @'', cl_nickname c]) b)"
proof -
  let ?n = "cl_nickname c" and ?u = "cl_username c"
  have n: "CHR '' '' \<notin> set ?n" "CHR ''!'' \<notin> set ?n" "?n \<noteq> []"
    using nickname_alphabet [of _] nick valid_nickname_chars [of ?n] by (auto simp: list_all_iff)
  let ?front = "CHR '':'' # ?n @ CHR ''!'' # ?u @ ''@localhost''"
  have line: "cat [user_prefix c, '' JOIN :'', ch] = ?front @ '' JOIN :'' @ ch"
    by (simp add: cat_def user_prefix_def)
  have sp: "CHR '' '' \<notin> set ?front" using n user by simp
  have j: "str_find '' JOIN '' (?front @ '' JOIN :'' @ ch) = Some (length ?front)"
    using str_find_skip [OF sp, of "''JOIN ''" "'' JOIN :'' @ ch"] by simp
  have e: "str_find ''!'' (?front @ '' JOIN :'' @ ch) = Some (Suc (length ?n))"
    using str_find_char_append [of "CHR ''!''" "CHR '':'' # ?n" "?u @ ''@localhost'' @ '' JOIN :'' @ ch"] n(2)
    by simp
  have nick_take: "take (Suc (length ?n) - 1) (drop 1 (?front @ '' JOIN :'' @ ch)) = ?n" by simp
  have "drop (length f + 6) (f @ '' JOIN :'' @ ch) = CHR '':'' # ch" for f :: string by simp
  note rest = this [of ?front]
  show ?thesis
    unfolding line greetJoinedUser_def j e option.case prod.case Let_def nick_take rest using n(3) by simp
qed

lemma str_find_no_space: "CHR '' '' \<notin> set w \<Longrightarrow> str_find (CHR '' '' # pat) w = None"
  using str_find_skip [of w pat "[]"] by simp

text \<open>
  C36. The two programs together: the server announces a JOIN with a line that the bot answers as follows. If the client who
  joined has the bot's own nickname, or the channel is not the bot's, the bot sends nothing and goes on. Otherwise it sends one
  greeting to the channel with the nickname of that client: the line is always one that may be sent, all its bytes go out when the bot returns to
  listening, a first part of them if the socket fails, and with a socket that always takes something it does return.
\<close>

theorem bot_greets:
  assumes nick: "isValidNickname (cl_nickname c)" and user: "CHR '' '' \<notin> set (cl_username c)"
    and n: "isValidChannelName n" "clean n"
  defines "line \<equiv> cat [user_prefix c, '' JOIN :'', n]" and "greeting \<equiv> cat [''PRIVMSG '', n, '' :Hello @'', cl_nickname c]"
  shows "join_message c n = to_wire line \<and>
    (if cl_nickname c = BOT_NICKNAME \<or> n \<noteq> bt_channel b then bot_processLine line b = Some (Inr b)
     else wire_line greeting \<and>
       (\<forall>b'. bot_processLine line b = Some (Inr b') \<longrightarrow> bt_sent b' = bt_sent b @ to_wire greeting) \<and>
       (\<forall>e b'. bot_processLine line b = Some (Inl (e, b')) \<longrightarrow>
          (\<exists>part. prefix part (to_wire greeting) \<and> bt_sent b' = bt_sent b @ part)) \<and>
       (list_all (\<lambda>r. \<exists>k. r = Sent (Suc k)) (bt_sends b) \<and> length (to_wire greeting) \<le> length (bt_sends b) \<longrightarrow>
          (\<exists>b'. bot_processLine line b = Some (Inr b'))))"
proof -
  let ?n = "cl_nickname c"
  have sp: "CHR '' '' \<notin> set ?n" and len: "length ?n \<le> 9"
    using nickname_alphabet [of _] valid_nickname_chars [OF nick] by auto
  have ch: "CHR '' '' \<notin> set n" "length n \<le> 50"
    using n(1) by (auto simp: isValidChannelName_def list_all_iff split: if_splits)
  let ?front = "CHR '':'' # ?n @ CHR ''!'' # cl_username c @ ''@localhost''"
  have line: "line = ?front @ '' JOIN :'' @ n"
    by (simp add: line_def cat_def user_prefix_def)
  have front: "CHR '' '' \<notin> set ?front" using sp user by simp
  have none: "str_find '' 001 '' line = None" "str_find '' 433 '' line = None" "str_find '' 464 '' line = None"
    unfolding line str_find_skip [OF front] using str_find_no_space [OF ch(1)] by simp_all
  have "take 5 line \<noteq> ''PING ''" by (simp add: line)
  with none have e: "bot_processLine line b =
      (if ?n = BOT_NICKNAME \<or> n \<noteq> bt_channel b then Some (Inr b) else bot_sendLine greeting b)"
    using greet_line [OF nick user, of n b] by (simp add: bot_processLine_def line_def greeting_def)
  have "wire_line greeting" "greeting \<noteq> []"
    using len ch n(2) nickname_clean [OF nick]
    by (auto simp: wire_line_def greeting_def cat_def clean_iff MAX_IRC_MESSAGE_SIZE_def)
  moreover have "join_message c n = to_wire line" by (simp add: line_def join_message_def to_wire_def cat_def)
  moreover have "length (to_wire greeting) = length greeting + 2" by (simp add: to_wire_def)
  moreover have "\<exists>b'. bot_sendLine greeting b = Some (Inr b')"
    if "list_all (\<lambda>r. \<exists>k. r = Sent (Suc k)) (bt_sends b)" "length (to_wire greeting) \<le> length (bt_sends b)"
    using sendLine_succeeds [of greeting b] that calculation by auto
  moreover note sendLine_wire(3) [of greeting b] sendLine_part [of greeting b]
  ultimately show ?thesis unfolding e by (simp only: if_True if_False split: if_split) blast
qed

lemma bot_greets_witness:
  "\<exists>b b'. new_Bot ''localhost'' 6667 ''pw'' ''#c'' (replicate 40 (Sent 1)) [] = Inr b \<and>
     bot_processLine '':alice!al@localhost JOIN :#c'' b = Some (Inr b') \<and> bt_sent b' = to_wire ''PRIVMSG #c :Hello @alice'' \<and>
     bot_processLine '':ft_bot!ftbot@localhost JOIN :#c'' b = Some (Inr b)"
proof -
  obtain b where b: "new_Bot ''localhost'' 6667 ''pw'' ''#c'' (replicate 40 (Sent 1)) [] = Inr b" by (simp add: new_Bot_def)
  then have f: "bt_channel b = ''#c''" "bt_sends b = replicate 40 (Sent 1)" "bt_sent b = []" by (auto simp: new_Bot_def)
  obtain c0 where c0: "new_Client 4 ''10.0.0.1'' = Inr c0" by (simp add: new_Client_def)
  let ?c = "\<lambda>nick user. c0\<lparr>cl_nickname := nick, cl_username := user\<rparr>"
  have valid: "isValidNickname ''alice''" "isValidNickname ''ft_bot''" "isValidChannelName ''#c''" "clean ''#c''" by code_simp+
  have "bot_processLine (cat [user_prefix (?c ''ft_bot'' ''ftbot''), '' JOIN :'', ''#c'']) b = Some (Inr b)"
    using bot_greets [of "?c ''ft_bot'' ''ftbot''" "''#c''" b] valid by (simp add: BOT_NICKNAME_def)
  moreover have "\<exists>b'. bot_processLine (cat [user_prefix (?c ''alice'' ''al''), '' JOIN :'', ''#c'']) b = Some (Inr b') \<and>
      bt_sent b' = to_wire (cat [''PRIVMSG '', ''#c'', '' :Hello @'', ''alice''])"
    using bot_greets [of "?c ''alice'' ''al''" "''#c''" b] valid f
    by (auto simp: BOT_NICKNAME_def list_all_iff to_wire_def cat_def)
  ultimately show ?thesis using b by (auto simp: cat_def user_prefix_def)
qed

text \<open>
  C40. The bot takes " 433 " for a numeric reply wherever it stands in a line: any client can end
  it with a message, the line the server makes of a PRIVMSG with that text in it (and no " 001 ").
\<close>

theorem bot_dies_of_text:
  assumes body: "body = pre @ '' 433 '' @ post"
    and other: "str_find '' 001 '' (cat [user_prefix c, '' PRIVMSG '', tg, '' :'', body]) = None"
  shows "bot_processLine (cat [user_prefix c, '' PRIVMSG '', tg, '' :'', body]) b =
    Some (Inl (''bot nickname is already in use'', b))"
proof -
  let ?line = "cat [user_prefix c, '' PRIVMSG '', tg, '' :'', body]"
  have "?line = (user_prefix c @ '' PRIVMSG '' @ tg @ '' :'' @ pre) @ '' 433 '' @ post"
    by (simp add: cat_def body)
  then have "str_find '' 433 '' ?line \<noteq> None" by (simp only: str_find_inside not_False_eq_True)
  moreover have "take 5 ?line \<noteq> ''PING ''" by (simp add: cat_def user_prefix_def)
  ultimately show ?thesis using other by (simp add: bot_processLine_def)
qed

lemma bot_dies_of_text_witness:
  "\<exists>b. new_Bot ''localhost'' 6667 ''pw'' ''#c'' [] [] = Inr b \<and>
     bot_processLine '':eve!eve@localhost PRIVMSG #c :see 433 there'' b =
       Some (Inl (''bot nickname is already in use'', b))"
proof -
  obtain b where b: "new_Bot ''localhost'' 6667 ''pw'' ''#c'' [] [] = Inr b" by (simp add: new_Bot_def)
  let ?c = "(fresh_client 4 ''10.0.0.1'')\<lparr>cl_nickname := ''eve'', cl_username := ''eve''\<rparr>"
  have line: "cat [user_prefix ?c, '' PRIVMSG '', ''#c'', '' :'', ''see 433 there''] =
      '':eve!eve@localhost PRIVMSG #c :see 433 there''"
    by (simp add: cat_def user_prefix_def)
  have "bot_processLine (cat [user_prefix ?c, '' PRIVMSG '', ''#c'', '' :'', ''see 433 there'']) b =
      Some (Inl (''bot nickname is already in use'', b))"
    by (rule bot_dies_of_text [of _ "''see''" "''there''"]) (simp, unfold line, simp)
  then show ?thesis using b unfolding line by blast
qed

end
