(* ===== verification/Example_State.thy ===== *)
theory Example_State
  imports Bot_Session Access_Control
begin

text \<open>
  Concrete states on which the properties are tried out. \<open>demo\<close> is a server with the
  registered clients alice (address 0, descriptor 4) and bob (address 1, descriptor 5),
  who share the channel \<open>#c\<close> that alice operates, a fresh connection (address 2,
  descriptor 6), and carol (address 3, descriptor 7), who is registered and on no channel.
  \<open>demo_start\<close> is a server that has just opened its socket; three rounds of the event loop
  lead from it to a state with a connection, a registered client and a channel.
\<close>

definition demo_client :: "int \<Rightarrow> string \<Rightarrow> client" where
  "demo_client fd nick =
     \<lparr>cl_fd = fd, cl_ip = ''10.0.0.1'', cl_recvBuffer = [], cl_sendBuffer = [],
      cl_nickname = nick, cl_username = nick, cl_passOk = (nick \<noteq> []), cl_nickSet = (nick \<noteq> []),
      cl_userSet = (nick \<noteq> []), cl_failedPassAttempts = 0, cl_dead = False,
      cl_closing = False, cl_deadReason = [], cl_wire = []\<rparr>"

definition demo_channel :: "cptr channel" where
  "demo_channel = \<lparr>ch_name = ''#c'', ch_topic = [], ch_members = [0, 1], ch_operators = [0],
     ch_isInviteOnly = False, ch_topicRestricted = True, ch_password = [], ch_userLimit = 0,
     ch_invitedClients = []\<rparr>"

definition demo_poll :: "int \<Rightarrow> pollfd" where
  "demo_poll fd = \<lparr>pfd_fd = fd, pfd_events = POLLIN, pfd_revents = 0\<rparr>"

definition demo :: server where
  "demo = setupCommands
     \<lparr>sv_port = 6667, sv_password = ''pw'', sv_listenFd = 3,
      sv_pollFds = map demo_poll [3, 4, 5, 6, 7],
      sv_clients = [(4, 0), (5, 1), (6, 2), (7, 3)], sv_channels = [(''#c'', demo_channel)], sv_commands = [],
      sv_heap = [0 \<mapsto> demo_client 4 ''alice'', 1 \<mapsto> demo_client 5 ''bob'', 2 \<mapsto> demo_client 6 [],
        3 \<mapsto> demo_client 7 ''carol''],
      sv_next = 4, os_fds = {3, 4, 5, 6, 7}\<rparr>"

lemma demo_fields [simp]:
  "sv_port demo = 6667" "sv_password demo = ''pw''" "sv_listenFd demo = 3"
  "sv_pollFds demo = map demo_poll [3, 4, 5, 6, 7]" "sv_clients demo = [(4, 0), (5, 1), (6, 2), (7, 3)]"
  "sv_channels demo = [(''#c'', demo_channel)]"
  "sv_heap demo = [0 \<mapsto> demo_client 4 ''alice'', 1 \<mapsto> demo_client 5 ''bob'', 2 \<mapsto> demo_client 6 [],
     3 \<mapsto> demo_client 7 ''carol'']"
  "sv_next demo = 4" "os_fds demo = {3, 4, 5, 6, 7}"
  by (simp_all add: demo_def setupCommands_def)

lemma demo_client_fields [simp]:
  "cl_fd (demo_client fd n) = fd" "cl_ip (demo_client fd n) = ''10.0.0.1''"
  "cl_recvBuffer (demo_client fd n) = []" "cl_sendBuffer (demo_client fd n) = []"
  "cl_nickname (demo_client fd n) = n" "cl_username (demo_client fd n) = n"
  "cl_passOk (demo_client fd n) = (n \<noteq> [])" "cl_nickSet (demo_client fd n) = (n \<noteq> [])"
  "cl_userSet (demo_client fd n) = (n \<noteq> [])" "cl_failedPassAttempts (demo_client fd n) = 0"
  "\<not> cl_dead (demo_client fd n)" "\<not> cl_closing (demo_client fd n)" "cl_deadReason (demo_client fd n) = []" "cl_wire (demo_client fd n) = []"
  "isRegistered (demo_client fd n) = (n \<noteq> [])"
  by (simp_all add: demo_client_def isRegistered_def)

lemma demo_channel_fields [simp]:
  "ch_name demo_channel = ''#c''" "ch_topic demo_channel = []" "ch_members demo_channel = [0, 1]"
  "ch_operators demo_channel = [0]" "\<not> ch_isInviteOnly demo_channel" "ch_topicRestricted demo_channel"
  "ch_password demo_channel = []" "ch_userLimit demo_channel = 0" "ch_invitedClients demo_channel = []"
  by (simp_all add: demo_channel_def)

lemma demo_reg: "reg_ptrs demo = {0, 1, 3}"
  by (auto simp: reg_ptrs_def split: if_splits)

lemma demo_names: "isValidNickname ''alice''" "isValidNickname ''bob''" "isValidNickname ''carol''" "isValidUsername ''alice''"
  "isValidUsername ''bob''" "isValidUsername ''carol''" "isValidChannelName ''#c''"
  by code_simp+

lemma demo_client_inv:
  "nick = [] \<or> isValidNickname nick \<and> isValidUsername nick \<Longrightarrow> 0 \<le> fd \<Longrightarrow> client_inv (demo_client fd nick)"
  by (auto simp: client_inv_def client_wf_def identity_wf_def attempts_wf_def)

lemma demo_inv: "server_inv demo"
proof -
  have "heap_inv demo"
    using demo_client_inv demo_names by (auto simp: heap_inv_def om_sorted_def split: if_splits)
  moreover have "chan_inv demo"
    using demo_names by (auto simp: chan_inv_def om_sorted_def chan_wf_def demo_reg)
  moreover have "nick_inv demo"
    by (auto simp: nick_inv_def toIrcLowerCase_def irc_lower_def is_upper_def split: if_splits)
  moreover have "poll_inv demo"
    by (simp add: poll_inv_def demo_poll_def)
  moreover have "quota_inv demo"
  proof -
    have "ip_load ip demo \<le> 128" for ip
    proof -
      have "ip_load ip demo \<le> length (om_values (sv_clients demo))"
        unfolding ip_load_def by (rule length_filter_le)
      also have "\<dots> \<le> 128" by simp
      finally show ?thesis .
    qed
    then show ?thesis
      by (simp add: quota_inv_def MAX_TOTAL_CLIENTS_def MAX_CLIENTS_PER_IP_def)
  qed
  moreover have "config_inv demo"
    by (simp add: config_inv_def) (simp add: demo_def setupCommands_def)
  ultimately show ?thesis by (simp add: server_inv_def)
qed

lemma demo_active: "active 0 demo" "active 1 demo" "active 2 demo" "active 3 demo"
  by (simp_all add: active_def)

lemma demo_found: "findClientByNick ''alice'' demo = Some (Some 0)" "findClientByNick ''bob'' demo = Some (Some 1)"
  "findClientByNick ''carol'' demo = Some (Some 3)" "findClientByNick ''dave'' demo = Some None"
  by (simp_all add: findClientByNick_def deref_def toIrcLowerCase_def irc_lower_def is_upper_def)

lemma demo_operator: "isOperator demo_channel p \<longleftrightarrow> p = 0" "isMember demo_channel p \<longleftrightarrow> p = 0 \<or> p = 1"
  by (auto simp: isOperator_iff isMember_iff)

lemma demo_find: "om_find n (sv_channels demo) = (if n = ''#c'' then Some demo_channel else None)"
  by auto

section \<open>Reachable states\<close>

definition demo_calls :: start_calls where
  "demo_calls =
     \<lparr>so_emptyset_pipe = None, so_sigpipe = None, so_emptyset_shutdown = None, so_sigint = None,
      so_sigterm = None, so_sigquit = None, so_socket = Inr 3, so_setsockopt = None, so_fcntl = None, so_bind = None, so_listen = None,
      so_signal = False\<rparr>"

definition demo_start :: server where
  "demo_start = setupCommands
     \<lparr>sv_port = 6667, sv_password = ''pw'', sv_listenFd = 3,
      sv_pollFds = [\<lparr>pfd_fd = 3, pfd_events = POLLIN, pfd_revents = 0\<rparr>],
      sv_clients = [], sv_channels = [], sv_commands = [], sv_heap = Map.empty,
      sv_next = 0, os_fds = {3}\<rparr>"

lemma demo_calls_socket: "so_socket demo_calls = Inr fd \<Longrightarrow> 0 \<le> fd"
  by (simp add: demo_calls_def)

lemma demo_start_parts:
  obtains s0 s1 where "new_Server 6667 ''pw'' = Inr s0" and "setupSocket demo_calls s0 = Inr s1"
    and "setupCommands s1 = demo_start"
proof -
  obtain s0 where s0: "new_Server 6667 ''pw'' = Inr s0" by (simp add: new_Server_def)
  obtain s1 where s1: "setupSocket demo_calls s0 = Inr s1" by (simp add: setupSocket_def demo_calls_def)
  have "setupCommands s1 = demo_start"
    using s0 s1 by (auto simp: new_Server_def setupSocket_def demo_calls_def Let_def demo_start_def)
  with s0 s1 show thesis by (rule that)
qed

lemma demo_start_reachable: "reachable demo_start"
  by (rule demo_start_parts) (metis reachable.start demo_calls_socket)

text \<open>A kernel with one answer for everything.\<close>

definition demo_env :: "(int \<Rightarrow> 16 word) \<Rightarrow> accept_result \<Rightarrow> recv_result \<Rightarrow> environment" where
  "demo_env events acc rcv =
     \<lparr>en_poll = None, en_revents = events, en_accept = acc, en_recv = (\<lambda>_. rcv), en_send = (\<lambda>_. Sent 1),
      en_signal = False\<rparr>"

text \<open>One connection is accepted, and then sends the bot's opening; a signal arrives in this second round.\<close>

definition demo_first :: server where
  "demo_first = demo_start\<lparr>sv_pollFds := [\<lparr>pfd_fd = 3, pfd_events = POLLIN, pfd_revents = POLLIN\<rparr>, demo_poll 4],
     sv_clients := [(4, 0)], sv_heap := [0 \<mapsto> demo_client 4 []], sv_next := 1, os_fds := {4, 3}\<rparr>"

definition demo_accept :: environment where
  "demo_accept = demo_env (\<lambda>fd. if fd = 3 then POLLIN else 0) (Accepted 4 True (Some ''10.0.0.1'') Memory_ok) (Pending [])"

definition demo_quiet :: environment where
  "demo_quiet = demo_env (\<lambda>_. 0) (AcceptFailed EAGAIN) (Pending [])"

text \<open>The same, and a shutdown signal arrives.\<close>

definition demo_stop :: environment where
  "demo_stop = demo_quiet\<lparr>en_signal := True\<rparr>"

lemma demo_first_parts:
  obtains s1 where "refreshPollEvents demo_start = Some (Inr s1)"
    and "serve_loop demo_accept 0 (polled demo_accept s1) = Some (Inr demo_first)"
    and "reapDeadClients demo_first = Some demo_first" and "sv_pollFds s1 \<noteq> []"
proof -
  let ?s1 = "demo_start\<lparr>sv_pollFds := [\<lparr>pfd_fd = 3, pfd_events = POLLIN, pfd_revents = 0\<rparr>]\<rparr>"
  let ?s2 = "demo_start\<lparr>sv_pollFds := [\<lparr>pfd_fd = 3, pfd_events = POLLIN, pfd_revents = POLLIN\<rparr>]\<rparr>"
  have refresh: "refreshPollEvents demo_start = Some (Inr ?s1)"
    using refresh_eq [OF reachable_inv [OF demo_start_reachable]]
    by (simp add: demo_start_def setupCommands_def refreshed_def wanted_events_def)
  have polled: "polled demo_accept ?s1 = ?s2"
    by (simp add: polled_def demo_accept_def demo_env_def)
  have "serve_fd demo_accept 3 POLLIN ?s2 = Some (Inr demo_first)"
    by (simp add: serve_fd_def has_event_def POLLIN_def demo_accept_def demo_env_def acceptNewClient_def
        demo_start_def setupCommands_def Let_def MAX_TOTAL_CLIENTS_def MAX_CLIENTS_PER_IP_def
        countClientsFromIp_def new_Client_def try_register_def register_client_def demo_first_def demo_client_def demo_poll_def)
  moreover have "serve_loop demo_accept 1 demo_first = Some (Inr demo_first)"
    by (subst serve_loop.simps, simp add: demo_first_def demo_poll_def, subst serve_loop.simps, simp)
  ultimately have "serve_loop demo_accept 0 ?s2 = Some (Inr demo_first)"
    by (subst serve_loop.simps) (simp add: POLLIN_def)
  moreover have "reapDeadClients demo_first = Some demo_first"
    by (simp add: reapDeadClients_def demo_first_def demo_start_def setupCommands_def deref_def)
  ultimately show thesis using that [of ?s1] refresh polled by simp
qed

lemma demo_first_round: "iteration demo_accept demo_start = Some (Inr demo_first)"
proof -
  have "en_poll demo_accept = None" by (simp add: demo_accept_def demo_env_def)
  then show ?thesis by (rule_tac demo_first_parts) (simp add: iteration_def)
qed

lemma demo_first_reachable: "reachable demo_first"
proof (rule reachable.step [OF demo_start_reachable server_step.round [OF _ demo_first_round]])
  show "kernel_ok demo_accept demo_start"
    by (simp add: kernel_ok_def demo_accept_def demo_env_def demo_start_def setupCommands_def)
qed


definition demo_opening :: environment where
  "demo_opening = (demo_env (\<lambda>fd. if fd = 4 then POLLIN else 0) (AcceptFailed EAGAIN)
     (Pending (concat (map to_wire (bot_opening ''pw'')))))\<lparr>en_signal := True\<rparr>"

text \<open>A read that fits into the buffer goes straight to the loop over its lines.\<close>

lemma read_one_chunk:
  assumes "getClientByFd fd s = Some p" and "sv_heap s p = Some c" and "\<not> cl_dead c" and "\<not> cl_closing c"
    and "length bytes \<le> RECV_CHUNK_SIZE" and "bytes \<noteq> []"
    and "appendToRecvBuffer bytes c = (True, x)"
    and "read_loop p (put_client p x s) = Some t"
  shows "handleClientRead fd (Pending bytes) s = Some t"
  using assms by (simp add: handleClientRead_def deref_def Let_def)

text \<open>A vector of two entries, the second with events.\<close>

lemma serve_second:
  assumes "length (sv_pollFds s) = 2" and "pfd_revents (sv_pollFds s ! 0) = 0" and "pfd_revents (sv_pollFds s ! 1) \<noteq> 0"
    and "serve_fd env (pfd_fd (sv_pollFds s ! 1)) (pfd_revents (sv_pollFds s ! 1)) s = Some (Inr u)"
    and "length (sv_pollFds u) = 2"
  shows "serve_loop env 0 s = Some (Inr u)"
proof -
  have "serve_loop env 0 s = serve_loop env 1 s" using assms(1,2) by (subst serve_loop.simps) simp
  also have "\<dots> = serve_loop env 2 u" using assms(1,3,4) by (subst serve_loop.simps) (simp add: numeral_2_eq_2)
  also have "\<dots> = Some (Inr u)" using assms(5) by (subst serve_loop.simps) simp
  finally show ?thesis .
qed

definition demo_bot :: client where
  "demo_bot = (let d = (demo_client 4 [])\<lparr>cl_passOk := True, cl_nickname := BOT_NICKNAME, cl_nickSet := True,
      cl_username := ''ftbot'', cl_userSet := True\<rparr> in sendMessage (welcome_message d) d)"

definition demo_second :: server where
  "demo_second = put_client 0 demo_bot
     (demo_first\<lparr>sv_pollFds := [\<lparr>pfd_fd = 3, pfd_events = POLLIN, pfd_revents = 0\<rparr>,
        \<lparr>pfd_fd = 4, pfd_events = POLLIN, pfd_revents = POLLIN\<rparr>]\<rparr>)"

lemma demo_bot_fields:
  "\<not> cl_dead demo_bot" "\<not> cl_closing demo_bot" "isRegistered demo_bot" "cl_nickname demo_bot = BOT_NICKNAME"
  "cl_recvBuffer demo_bot = []" "cl_fd demo_bot = 4"
  by (auto simp: demo_bot_def Let_def isRegistered_def sendMessage_def isValidOutboundMessage_def MAX_SEND_BUFFER_def
      MAX_IRC_MESSAGE_SIZE_def)

lemma demo_first_fields:
  "sv_pollFds demo_first = [\<lparr>pfd_fd = 3, pfd_events = POLLIN, pfd_revents = POLLIN\<rparr>, demo_poll 4]"
  "sv_clients demo_first = [(4, 0)]" "sv_heap demo_first = [0 \<mapsto> demo_client 4 []]"
  "sv_listenFd demo_first = 3" "sv_password demo_first = ''pw''" "os_fds demo_first = {4, 3}"
  "sv_channels demo_first = []"
  by (simp_all add: demo_first_def demo_start_def setupCommands_def)

definition demo_refreshed :: server where
  "demo_refreshed = demo_first\<lparr>sv_pollFds := [\<lparr>pfd_fd = 3, pfd_events = POLLIN, pfd_revents = 0\<rparr>,
     \<lparr>pfd_fd = 4, pfd_events = POLLIN, pfd_revents = 0\<rparr>]\<rparr>"

lemma demo_second_parts:
  shows "refreshPollEvents demo_first = Some (Inr demo_refreshed)"
    and "serve_loop demo_opening 0 (polled demo_opening demo_refreshed) = Some (Inr demo_second)"
    and "reapDeadClients demo_second = Some demo_second"
proof -
  let ?bytes = "concat (map to_wire (bot_opening ''pw''))"
  let ?c = "demo_client 4 []"
  let ?e3 = "\<lambda>r. \<lparr>pfd_fd = 3, pfd_events = POLLIN, pfd_revents = r\<rparr>"
  let ?e4 = "\<lambda>r. \<lparr>pfd_fd = 4, pfd_events = POLLIN, pfd_revents = r\<rparr>"
  let ?s2 = "demo_first\<lparr>sv_pollFds := [?e3 0, ?e4 POLLIN]\<rparr>"
  have inv: "server_inv demo_first" by (rule reachable_inv [OF demo_first_reachable])
  note fields = demo_first_fields
  show "refreshPollEvents demo_first = Some (Inr demo_refreshed)"
    using refresh_eq [OF inv] fields
    by (simp add: demo_refreshed_def refreshed_def wanted_events_def getClientByFd_def hasPendingOutput_def demo_poll_def)
  have polled: "polled demo_opening demo_refreshed = ?s2"
    by (simp add: demo_refreshed_def polled_def demo_opening_def demo_env_def)
  have inv2: "server_inv ?s2" by (rule inv_pollFds [OF inv]) (simp add: fields demo_poll_def)
  let ?x = "?c\<lparr>cl_recvBuffer := ?bytes\<rparr>"
  have short: "length ?bytes \<le> RECV_CHUNK_SIZE" "?bytes \<noteq> []" "LF \<in> set ?bytes"
    by (simp_all add: bot_opening_def pass_line_def to_wire_def RECV_CHUNK_SIZE_def)
  have app: "appendToRecvBuffer ?bytes ?c = (True, ?x)"
    using short by (auto simp: appendToRecvBuffer_def MAX_RECV_BUFFER_def RECV_CHUNK_SIZE_def Let_def)
  have h2: "sv_heap ?s2 0 = Some ?c" by (simp add: fields)
  have inv3: "server_inv (put_client 0 ?x ?s2)" by (rule put_client_wp(1) [OF inv2 h2 append_kept [OF app]])
  let ?d = "?x\<lparr>cl_recvBuffer := [], cl_passOk := True, cl_nickname := BOT_NICKNAME, cl_nickSet := True,
      cl_username := ''ftbot'', cl_userSet := True\<rparr>"
  have bot: "sendMessage (welcome_message ?d) ?d = demo_bot"
    by (simp add: demo_bot_def demo_client_def Let_def)
  have free: "findClientByNick BOT_NICKNAME (put_client 0 ?x ?s2) = Some None"
    by (simp add: findClientByNick_def put_client_def fields deref_def BOT_NICKNAME_def toIrcLowerCase_def)
  have read: "read_loop 0 (put_client 0 ?x ?s2) = Some demo_second"
    using bot_registers [OF inv3 _ _ put_client_simps(1) _ _ _ _ _ free] fields(5) bot
    by (simp add: isValidPassword_iff put_client_def demo_second_def)
  have "handleClientRead 4 (Pending ?bytes) ?s2 = Some demo_second"
    by (rule read_one_chunk [OF _ h2 _ _ short(1,2) app read]) (simp_all add: getClientByFd_def fields)
  then have serve4: "serve_fd demo_opening 4 POLLIN ?s2 = Some (Inr demo_second)"
    by (simp add: serve_fd_def fields has_event_def POLLIN_def POLLOUT_def demo_opening_def demo_env_def)
  show "serve_loop demo_opening 0 (polled demo_opening demo_refreshed) = Some (Inr demo_second)"
    unfolding polled by (rule serve_second) (use serve4 in \<open>simp_all add: POLLIN_def demo_second_def put_client_def\<close>)
  show "reapDeadClients demo_second = Some demo_second"
    using demo_bot_fields by (simp add: demo_second_def reapDeadClients_def put_client_def fields deref_def)
qed

lemma demo_second_round: "iteration demo_opening demo_first = Some (Inr demo_second)"
  using demo_second_parts by (simp add: iteration_def demo_refreshed_def demo_opening_def demo_env_def)

lemma demo_second_reachable: "reachable demo_second"
proof (rule reachable.step [OF demo_first_reachable server_step.round [OF _ demo_second_round]])
  show "kernel_ok demo_opening demo_first" by (simp add: kernel_ok_def demo_opening_def demo_env_def)
qed

lemma demo_second_fields:
  "sv_clients demo_second = [(4, 0)]" "sv_heap demo_second = [0 \<mapsto> demo_bot]" "sv_listenFd demo_second = 3"
  "sv_channels demo_second = []"
  "map pfd_fd (sv_pollFds demo_second) = [3, 4]"
  by (simp_all add: demo_second_def put_client_def demo_first_fields)

section \<open>A channel\<close>

text \<open>Whatever happens to the clients, reaping them removes no channel.\<close>

lemma disconnect_keys: "pc (disconnectClient fd s) (\<lambda>t. om_keys (sv_channels t) = om_keys (sv_channels s))"
proof (cases "om_find fd (sv_clients s)")
  case (Some p)
  have "pc (for_each (\<lambda>q. send_to q m) qs s) (sent s)" for m qs
    by (rule for_each_pc [OF send_to_sent sent_refl]) (blast intro: sent_trans)
  then have told: "pc (if b then for_each (\<lambda>q. send_to q m) qs s else Some s) (sent s)" for b m qs
    by simp
  show ?thesis
    unfolding disconnectClient_def Some option.case
    by (intro pc_read_client pc_step [OF told])
      (simp add: sent_fields delete_client_def closeSocket_def Let_def)
qed (simp add: disconnectClient_def)

lemma reap_keys:
  assumes "server_inv s"
  shows "pc (reapDeadClients s) (\<lambda>t. om_keys (sv_channels t) = om_keys (sv_channels s))"
proof -
  have "distinct (map snd (sv_clients s))" using invD(1) [OF assms] by (simp add: heap_inv_def)
  note mark = reap_mark_eq [OF this inv_entries_live [OF assms]]
  have all: "pc (for_each disconnectClient fds u) (\<lambda>t. om_keys (sv_channels t) = om_keys (sv_channels u))" for fds u
    by (rule for_each_pc [OF disconnect_keys]) simp_all
  have "sv_channels (settled P s) = sv_channels s" for P by (simp add: settled_def)
  with all [of _ "settled (snd ` set (sv_clients s)) s"] show ?thesis
    by (simp add: reapDeadClients_def mark)
qed

definition demo_joining :: environment where
  "demo_joining = demo_env (\<lambda>fd. if fd = 4 then POLLIN else 0) (AcceptFailed EAGAIN) (Pending (to_wire ''JOIN #c''))"

lemma demo_third_round:
  "\<exists>t ch. iteration demo_joining demo_second = Some (Inr t) \<and> om_find ''#c'' (sv_channels t) = Some ch"
proof -
  let ?l = "''JOIN #c''"
  let ?s1 = "demo_second\<lparr>sv_pollFds := map (refreshed demo_second) (sv_pollFds demo_second)\<rparr>"
  let ?s2 = "polled demo_joining ?s1"
  let ?x = "demo_bot\<lparr>cl_recvBuffer := to_wire ?l\<rparr>"
  let ?y = "demo_bot\<lparr>cl_recvBuffer := []\<rparr>"
  have inv: "server_inv demo_second" by (rule reachable_inv [OF demo_second_reachable])
  have inv2: "server_inv ?s2"
    unfolding polled_def by (rule inv_pollFds [OF refresh_inv [OF inv]]) simp
  have fields: "sv_clients ?s2 = [(4, 0)]" "sv_heap ?s2 = [0 \<mapsto> demo_bot]" "sv_listenFd ?s2 = 3" "sv_channels ?s2 = []"
    using demo_second_fields by (simp_all add: polled_def)
  have polls: "length (sv_pollFds ?s2) = 2" "pfd_revents (sv_pollFds ?s2 ! 0) = 0"
    "pfd_fd (sv_pollFds ?s2 ! 1) = 4" "pfd_revents (sv_pollFds ?s2 ! 1) = POLLIN"
    by (simp_all add: polled_def demo_second_def put_client_def refreshed_def demo_joining_def demo_env_def)
  have same: "put_client 0 ?y (put_client 0 ?x ?s2) = ?s2"
    using fields(2) demo_bot_fields(5) by (intro server.equality) (auto simp: put_client_def)
  have act: "active 0 ?s2" using fields(2) demo_bot_fields by (simp add: active_def)
  have reg: "0 \<in> reg_ptrs ?s2" using fields(2) demo_bot_fields by (simp add: reg_ptrs_def)
  have parsed: "parse ?l = \<lparr>msg_prefix = [], msg_command = ''JOIN'', msg_params = [''#c'']\<rparr>" by code_simp
  have valid: "isValidChannelName ''#c''" "splitString ''#c'' CHR '','' = [''#c'']" by code_simp+
  from join_one_wp [OF inv2 reg, of "''#c''" "[]"] obtain u ch where
    u: "join_one 0 ''#c'' [] ?s2 = Some u" "server_inv u" "om_find ''#c'' (sv_channels u) = Some ch"
    using valid fields(4) by (auto elim!: wpE simp: chan_update_def join_result_def)
  have line: "processLine 0 ?l ?s2 = Some u"
    using commands_table [OF inv2, of "''JOIN''"] u(1) fields(2) demo_bot_fields(3) valid(2) parsed
    by (simp add: processLine_def processMessage_def deref_def execute_def join_execute_def isRegistered_def)
  have h: "handled 0 ?s2 u" by (rule pcD [OF processLine_frame line])
  from handled_own [OF h, of demo_bot] fields(2) obtain d where
    d: "sv_heap u 0 = Some d" "grown_client demo_bot d" by auto
  then have "cl_recvBuffer d = []" using demo_bot_fields(5) by (simp add: grown_client_def risen_client_def)
  then have stop: "read_loop 0 u = Some u"
    using d(1) by (subst read_loop.simps) (simp add: deref_def extractLine_def put_client_def fun_upd_idem)
  have "read_loop 0 (put_client 0 ?x ?s2) = (if cl_dead d \<or> cl_closing d then Some u else read_loop 0 u)"
    by (rule read_loop_line [where c = ?x and rest = "[]"])
      (use line same d(1) in \<open>simp_all add: wire_line_def MAX_IRC_MESSAGE_SIZE_def\<close>)
  then have read: "read_loop 0 (put_client 0 ?x ?s2) = Some u" using stop by simp
  have app: "appendToRecvBuffer (to_wire ?l) demo_bot = (True, ?x)"
    using demo_bot_fields(5) by (simp add: appendToRecvBuffer_def to_wire_def MAX_RECV_BUFFER_def Let_def)
  have "handleClientRead 4 (Pending (to_wire ?l)) ?s2 = Some u"
    by (rule read_one_chunk [OF _ _ demo_bot_fields(1,2) _ _ app read])
      (simp_all add: getClientByFd_def fields to_wire_def RECV_CHUNK_SIZE_def)
  moreover have "en_recv demo_joining 4 = Pending (to_wire ?l)" by (simp add: demo_joining_def demo_env_def)
  ultimately have serve4: "serve_fd demo_joining 4 POLLIN ?s2 = Some (Inr u)"
    using fields(3) by (simp add: serve_fd_def has_event_def POLLIN_def POLLOUT_def)
  have "length (sv_pollFds u) = 2" using handled_fields(4) [OF h] polls(1) by simp
  then have serve: "serve_loop demo_joining 0 ?s2 = Some (Inr u)"
    using serve4 polls by (intro serve_second) (simp_all add: POLLIN_def)
  obtain t where t: "reapDeadClients u = Some t" using reap_wp [OF u(2)] by (rule wpE)
  have "om_keys (sv_channels t) = om_keys (sv_channels u)" by (rule pcD [OF reap_keys [OF u(2)] t])
  then have "om_find ''#c'' (sv_channels t) \<noteq> None"
    using u(3) om_find_None [of "''#c''" "sv_channels t"] om_find_None [of "''#c''" "sv_channels u"]
    by (metis list.set_map option.distinct(1))
  moreover have "iteration demo_joining demo_second = Some (Inr t)"
    using refresh_eq [OF inv] serve t demo_second_fields(5)
    by (auto simp: iteration_def demo_joining_def demo_env_def)
  ultimately show ?thesis by blast
qed

text \<open>So there are reachable states with a registered client and with a channel.\<close>

lemma reachable_registered:
  "\<exists>s d. reachable s \<and> sv_heap s 0 = Some d \<and> isRegistered d \<and> cl_nickname d = BOT_NICKNAME \<and> \<not> cl_dead d"
  using demo_second_reachable demo_second_fields(2) demo_bot_fields by (intro exI [of _ demo_second] exI [of _ demo_bot]) simp

lemma reachable_channel: "\<exists>s ch. reachable s \<and> om_find ''#c'' (sv_channels s) = Some ch"
proof -
  have "kernel_ok demo_joining demo_second" by (simp add: kernel_ok_def demo_joining_def demo_env_def)
  then show ?thesis
    using demo_third_round reachable.step [OF demo_second_reachable server_step.round] by blast
qed

end
