(* ===== verification/Command_Properties.thy ===== *)
theory Command_Properties
  imports Audience Example_State
begin

text \<open>
  The properties of the single commands (\<open>src/commands/\<close>): for each one its effect when it
  is allowed, state for state, and the reply, word for word, that a refused request is answered with to the client who
  made it, when nothing else changes. Every property with a hypothesis is tried out on the
  concrete server \<open>demo\<close> of \<open>Example_State\<close>.
\<close>

section \<open>Replies\<close>

text \<open>The words of a numeric reply of the server to a client, and the endings that several of them share.\<close>

definition numeric :: "string \<Rightarrow> string list \<Rightarrow> client \<Rightarrow> string" where
  "numeric num ws c = cat ['':server '', num, '' '', cl_nickname c, spaced ws, crlf]"

definition not_on_channel :: string where
  "not_on_channel = '':You'' @ [CHR 0x27] @ ''re not on that channel''"

definition not_operator :: string where
  "not_operator = '':You'' @ [CHR 0x27] @ ''re not channel operator''"

definition no_such_channel :: string where
  "no_such_channel = '':No such channel''"

lemmas numeric_simps = numeric_def not_on_channel_def not_operator_def no_such_channel_def spaced_def cat_def

section \<open>JOIN\<close>



text \<open>
  \<open>JOIN 0\<close> takes the client out of every channel it is in, also as an operator, and
  removes exactly the channels it was the only member of; the other channels stay as they are.
\<close>

lemma leave_all_effect:
  assumes i: "server_inv s" and c: "sv_heap s p = Some c"
  shows "\<exists>t. join_execute p (''0'' # rest) s = Some t \<and> server_inv t \<and>
     (\<forall>n. om_find n (sv_channels t) = om_find n (sv_channels s) \<bind> left_channel p) \<and>
     (\<forall>n ch. om_find n (sv_channels t) = Some ch \<longrightarrow> \<not> isMember ch p \<and> \<not> isOperator ch p)"
proof -
  from leave_all_wp [OF i] c obtain t where t: "leave_loop p (om_keys (sv_channels s)) s = Some t" "server_inv t"
    "\<forall>n. om_find n (sv_channels t) = om_find n (sv_channels s) \<bind> left_channel p"
    by (auto elim!: wpE)
  have "\<not> isMember ch p" if n: "om_find n (sv_channels t) = Some ch" for n ch
  proof -
    obtain ch0 where ch0: "om_find n (sv_channels s) = Some ch0" "left_channel p ch0 = Some ch"
      using t(3) n by (cases "om_find n (sv_channels s)") auto
    then show ?thesis
      using removeMember_not_member [OF inv_channel [OF i ch0(1), THEN conjunct2], of p]
      by (auto simp: left_channel_def split: if_splits)
  qed
  moreover have "\<not> isOperator ch p" if "om_find n (sv_channels t) = Some ch" "\<not> isMember ch p" for n ch
    using inv_members(3) [OF t(2) that(1)] that(2) by (auto simp: isOperator_iff isMember_iff)
  ultimately show ?thesis using t c by (simp add: join_execute_def deref_def)
qed

lemma leave_all_effect_witness:
  "\<exists>t ch. join_execute 0 [''0''] demo = Some t \<and> om_find ''#c'' (sv_channels t) = Some ch \<and> ch_members ch = [1]"
proof -
  obtain t where "join_execute 0 [''0''] demo = Some t"
    "\<forall>n. om_find n (sv_channels t) = om_find n (sv_channels demo) \<bind> left_channel 0"
    using leave_all_effect [OF demo_inv, of 0 "demo_client 4 ''alice''" "[]"] by auto
  then show ?thesis by (simp add: left_channel_def demo_operator)
qed

section \<open>KICK\<close>

text \<open>The channel and the client that a KICK of one user is about, when it is allowed.\<close>

definition kick_target :: "cptr \<Rightarrow> string \<Rightarrow> string \<Rightarrow> server \<Rightarrow> (cptr channel \<times> cptr) option" where
  "kick_target p n nick s =
     (case (om_find n (sv_channels s), findClientByNick nick s) of
        (Some ch, Some (Some q)) \<Rightarrow> if isOperator ch p \<and> isMember ch q then Some (ch, q) else None
      | _ \<Rightarrow> None)"

text \<open>Why it is not allowed.\<close>

definition kick_refusal :: "cptr \<Rightarrow> string \<Rightarrow> string \<Rightarrow> server \<Rightarrow> client \<Rightarrow> string" where
  "kick_refusal p n nick s =
     (case om_find n (sv_channels s) of
        None \<Rightarrow> numeric ''403'' [n, no_such_channel]
      | Some ch \<Rightarrow>
          if \<not> isMember ch p then numeric ''442'' [n, not_on_channel]
          else if \<not> isOperator ch p then numeric ''482'' [n, not_operator]
          else numeric ''441'' [nick, n, '':They aren'' @ [CHR 0x27] @ ''t on that channel''])"

text \<open>
  C12. KICK of one user: when the client operates the channel and the user is a member, every
  member of the channel, the kicked one and the operator included, is sent the KICK message
  once and the user is then neither member nor operator; nothing else changes. Otherwise the
  client is sent exactly one reply and nothing changes: 403 if there is no such channel, 442 if the client is not on
  it, 482 if it does not operate it, 441 if the user is not on it or there is none.
\<close>

theorem kick_effect:
  assumes i: "server_inv s" and c: "sv_heap s p = Some c"
  shows "case kick_target p n nick s of
      None \<Rightarrow> kick_one p n nick reason s = Some (queue (kick_refusal p n nick s c) {p} s)
    | Some (ch, q) \<Rightarrow> \<not> isMember (removeMember q ch) q \<and> \<not> isOperator (removeMember q ch) q \<and>
        kick_one p n nick reason s = Some
          ((queue (cat [user_prefix c, '' KICK '', n, '' '', nick, '' :'', reason, crlf]) (set (ch_members ch)) s)
             \<lparr>sv_channels := om_insert n (removeMember q ch) (sv_channels s)\<rparr>)"
proof -
  obtain r where r: "findClientByNick nick s = Some r"
    using findClientByNick_wp [OF i] by (rule wpE)
  show ?thesis
  proof (cases "kick_target p n nick s")
    case None
    then show ?thesis
      using c r by (cases "om_find n (sv_channels s)"; cases r)
        (auto simp: kick_target_def kick_one_def kick_refusal_def irc_simps send_queue numeric_simps split: if_splits)
  next
    case (Some chq)
    then obtain ch q where chq: "chq = (ch, q)" and ch: "om_find n (sv_channels s) = Some ch"
      and q: "findClientByNick nick s = Some (Some q)" and may: "isOperator ch p" "isMember ch q"
      by (auto simp: kick_target_def split: option.splits if_splits)
    from kick_one_allowed [OF i c ch q may]
    have "kick_one p n nick reason s = Some
        ((queue (cat [user_prefix c, '' KICK '', n, '' '', nick, '' :'', reason, crlf]) (set (ch_members ch)) s)
           \<lparr>sv_channels := om_insert n (removeMember q ch) (sv_channels s)\<rparr>)" .
    then show ?thesis
      using Some chq removeMember_not_member [OF inv_channel [OF i ch, THEN conjunct2], of q] by simp
  qed
qed

lemma kick_effect_witness:
  "\<exists>t ch. kick_one 0 ''#c'' ''bob'' ''bye'' demo = Some t \<and> om_find ''#c'' (sv_channels t) = Some ch \<and>
     ch_members ch = [0]"
proof -
  have "kick_target 0 ''#c'' ''bob'' demo = Some (demo_channel, 1)"
    by (simp add: kick_target_def demo_found demo_operator)
  then show ?thesis
    using kick_effect [OF demo_inv, of 0 "demo_client 4 ''alice''" "''#c''" "''bob''" "''bye''"] by simp
qed

section \<open>TOPIC\<close>

definition topic_channel :: "cptr \<Rightarrow> string list \<Rightarrow> server \<Rightarrow> cptr channel option" where
  "topic_channel p params s =
     (if length params < 2 then None
      else case om_find (params ! 0) (sv_channels s) of
        None \<Rightarrow> None
      | Some ch \<Rightarrow> if isMember ch p \<and> (ch_topicRestricted ch \<longrightarrow> isOperator ch p) then Some ch else None)"

definition topic_answer :: "cptr \<Rightarrow> string list \<Rightarrow> server \<Rightarrow> client \<Rightarrow> string" where
  "topic_answer p params s =
     (case params of
        [] \<Rightarrow> numeric ''461'' [''TOPIC'', '':Not enough parameters'']
      | n # texts \<Rightarrow>
          (case om_find n (sv_channels s) of
             None \<Rightarrow> numeric ''403'' [n, no_such_channel]
           | Some ch \<Rightarrow>
               if \<not> isMember ch p then numeric ''442'' [n, not_on_channel]
               else if texts \<noteq> [] then numeric ''482'' [n, not_operator]
               else if ch_topic ch = [] then numeric ''331'' [n, '':No topic is set'']
               else numeric ''332'' [n, CHR '':'' # ch_topic ch]))"

text \<open>
  C15. TOPIC with a text: when the client is a member, and an operator if the channel is
  topic-restricted, the topic is set and every member is sent the TOPIC message once. In every other case nothing
  changes and the client is sent exactly one reply: without a text the topic of its channel (332), or that there is none
  (331); 461 without a channel, 403 if there is no such channel, 442 if the client is not on it, 482 if it would have to
  be an operator.
\<close>

theorem topic_effect:
  assumes i: "server_inv s" and c: "sv_heap s p = Some c" and cl: "list_all clean params"
  shows "case topic_channel p params s of
      None \<Rightarrow> topic_execute p params s = Some (queue (topic_answer p params s c) {p} s)
    | Some ch \<Rightarrow> topic_execute p params s = Some
        ((queue (cat [user_prefix c, '' TOPIC '', params ! 0, '' :'', params ! 1, crlf]) (set (ch_members ch)) s)
           \<lparr>sv_channels := om_insert (params ! 0) (setTopic (params ! 1) ch) (sv_channels s)\<rparr>)"
proof (cases "topic_channel p params s")
  case None
  then have "topic_execute p params s = Some (queue (topic_answer p params s c) {p} s)"
    using c by (cases params; cases "tl params") (auto simp: topic_channel_def topic_execute_def topic_answer_def irc_simps
        Let_def send_queue numeric_simps split: option.splits if_splits)
  then show ?thesis using None by simp
next
  case (Some ch)
  then obtain n t rest where params: "params = n # t # rest" and ch: "om_find n (sv_channels s) = Some ch"
    and may: "isMember ch p" "ch_topicRestricted ch \<longrightarrow> isOperator ch p"
    by (cases params; cases "tl params") (auto simp: topic_channel_def split: option.splits if_splits)
  let ?m = "cat [user_prefix c, '' TOPIC '', n, '' :'', t, crlf]"
  let ?s1 = "s\<lparr>sv_channels := om_insert n (setTopic t ch) (sv_channels s)\<rparr>"
  have "server_inv ?s1"
    using inv_channel [OF i ch] chan_wf_ops(7) [of "dom (sv_heap s)" "reg_ptrs s" ch t] cl params
    by (intro inv_put_channel [OF i]) (auto simp: setTopic_def)
  moreover have "om_find n (sv_channels ?s1) = Some (setTopic t ch)" by simp
  ultimately have "(broadcastMessage ?m (Some p) (setTopic t ch) ?s1 \<bind> send_to p ?m) =
      Some (queue ?m (set (ch_members (setTopic t ch))) ?s1)"
    using may(1) by (intro broadcast_and_send) (auto simp: setTopic_def isMember_iff)
  moreover have "set (ch_members (setTopic t ch)) = set (ch_members ch)" by (simp add: setTopic_def)
  moreover have "findChannel n s = Some n" using ch by (simp add: findChannel_def)
  ultimately show ?thesis
    using c ch may Some params
    by (cases "ch_topicRestricted ch")
      (simp_all add: topic_execute_def irc_simps Let_def invoke_channel_def)
qed

lemma topic_effect_witness:
  "\<exists>t ch. topic_execute 0 [''#c'', ''news''] demo = Some t \<and> om_find ''#c'' (sv_channels t) = Some ch \<and>
     ch_topic ch = ''news''"
proof -
  have "topic_channel 0 [''#c'', ''news''] demo = Some demo_channel"
    by (simp add: topic_channel_def demo_operator)
  then show ?thesis
    using topic_effect [OF demo_inv, of 0 "demo_client 4 ''alice''" "[''#c'', ''news'']"]
    by (simp add: setTopic_def)
qed

section \<open>INVITE\<close>

definition invite_target :: "cptr \<Rightarrow> string list \<Rightarrow> server \<Rightarrow> (cptr channel \<times> cptr) option" where
  "invite_target p params s =
     (if length params < 2 then None
      else case (om_find (params ! 1) (sv_channels s), findClientByNick (params ! 0) s) of
        (Some ch, Some (Some q)) \<Rightarrow>
          if isMember ch p \<and> \<not> isMember ch q \<and> (ch_isInviteOnly ch \<longrightarrow> isOperator ch p) then Some (ch, q) else None
      | _ \<Rightarrow> None)"

definition invite_refusal :: "cptr \<Rightarrow> string list \<Rightarrow> server \<Rightarrow> client \<Rightarrow> string" where
  "invite_refusal p params s =
     (if length params < 2 then numeric ''461'' [''INVITE'', '':Not enough parameters'']
      else case findClientByNick (params ! 0) s of
        Some (Some q) \<Rightarrow>
          (case om_find (params ! 1) (sv_channels s) of
             None \<Rightarrow> numeric ''403'' [params ! 1, no_such_channel]
           | Some ch \<Rightarrow>
               if \<not> isMember ch p then numeric ''442'' [params ! 1, not_on_channel]
               else if isMember ch q then numeric ''443'' [params ! 0, params ! 1, '':is already on channel'']
               else numeric ''482'' [params ! 1, not_operator])
      | _ \<Rightarrow> numeric ''401'' [params ! 0, '':No such nick/channel''])"

text \<open>
  C16. INVITE: a member, or an operator if the channel is invite-only, puts a client that is not
  on the channel on its list of invited clients; the inviter gets the 341 reply and the
  client the INVITE message. On a channel that is not invite-only every member may invite. Otherwise nothing changes and
  the inviter is sent exactly one reply: 461 if a parameter is missing, 401 if nobody has the nickname, 403 if there is no
  such channel, 442 if the inviter is not on it, 443 if the invited client is, 482 if the inviter would have to be an
  operator.
\<close>

theorem invite_effect:
  assumes i: "server_inv s" and c: "sv_heap s p = Some c"
  shows "case invite_target p params s of
      None \<Rightarrow> invite_execute p params s = Some (queue (invite_refusal p params s c) {p} s)
    | Some (ch, q) \<Rightarrow> invite_execute p params s = Some
        ((queue (cat [user_prefix c, '' INVITE '', params ! 0, '' :'', params ! 1, crlf]) {q}
           (queue (cat ['':server 341 '', cl_nickname c, '' '', params ! 0, '' '', params ! 1, crlf]) {p} s))
         \<lparr>sv_channels := om_insert (params ! 1) (addInvited q ch) (sv_channels s)\<rparr>)"
proof (cases "invite_target p params s")
  case None
  obtain r where r: "findClientByNick (params ! 0) s = Some r"
    using findClientByNick_wp [OF i] by (rule wpE)
  have "invite_execute p params s = Some (queue (invite_refusal p params s c) {p} s)"
    using c None r
    by (cases "om_find (params ! 1) (sv_channels s)"; cases r)
      (auto simp: invite_target_def invite_execute_def invite_refusal_def irc_simps Let_def send_queue numeric_simps
        split: if_splits)
  then show ?thesis using None by simp
next
  case (Some chq)
  then obtain ch q where chq: "chq = (ch, q)" and ch: "om_find (params ! 1) (sv_channels s) = Some ch"
    and q: "findClientByNick (params ! 0) s = Some (Some q)" and len: "2 \<le> length params"
    and may: "isMember ch p" "\<not> isMember ch q" "ch_isInviteOnly ch \<longrightarrow> isOperator ch p"
    by (auto simp: invite_target_def split: option.splits if_splits)
  have live: "p \<in> dom (sv_heap s)" "q \<in> dom (sv_heap s)"
    using c findClientByNick_wp [OF i, of "params ! 0"] q by auto
  have "findChannel (params ! 1) s = Some (params ! 1)" using ch by (simp add: findChannel_def)
  then show ?thesis
    using c ch q may live len Some chq
    by (cases "ch_isInviteOnly ch")
      (simp_all add: invite_execute_def irc_simps Let_def invoke_channel_def send_to_queue)
qed

lemma invite_effect_witness:
  "\<exists>t ch. invite_execute 0 [''carol'', ''#c''] demo = Some t \<and> om_find ''#c'' (sv_channels t) = Some ch \<and>
     isInvited ch 3"
proof -
  have "invite_target 0 [''carol'', ''#c''] demo = Some (demo_channel, 3)"
    by (simp add: invite_target_def demo_found demo_operator)
  then show ?thesis
    using invite_effect [OF demo_inv, of 0 "demo_client 4 ''alice''" "[''carol'', ''#c'']"]
    by (simp add: addInvited_def isInvited_iff)
qed

section \<open>MODE\<close>






section \<open>PRIVMSG\<close>



section \<open>NICK\<close>

definition nick_audience :: "cptr \<Rightarrow> server \<Rightarrow> cptr set" where
  "nick_audience p s = insert p (\<Union>(n, ch) \<in> set (sv_channels s). if isMember ch p then set (ch_members ch) else {})"

text \<open>
  C17. A registered client that takes a new valid nickname which nobody else holds gets it, and the
  client and everyone who shares a channel with it, each once, is told under the old name.
  A nickname held by another client is refused with 433 and nothing changes.
\<close>

theorem nick_effect:
  assumes i: "server_inv s" and c: "sv_heap s p = Some c" "isRegistered c"
    and n: "isValidNickname n" "n \<noteq> cl_nickname c" and owner: "findClientByNick n s = Some r"
  shows "nick_execute p (n # rest) s = Some
     (if r = None \<or> r = Some p
      then queue (cat ['':'', cl_nickname c, ''!'', cl_username c, ''@localhost NICK :'', n, crlf]) (nick_audience p s)
             (put_client p (c\<lparr>cl_nickname := n, cl_nickSet := True\<rparr>) s)
      else queue (cat ['':server 433 '', cl_nickname c, '' '', n, '' :Nickname is already in use'', crlf]) {p} s)"
proof (cases "r = None \<or> r = Some p")
  case False
  have "cl_nickname c \<noteq> []"
    using inv_client [OF i c(1)] c(2) valid_nickname_chars(1)
    by (auto simp: client_inv_def identity_wf_def isRegistered_def)
  then show ?thesis
    using False owner c n valid_nickname_chars(1) [OF n(1)]
    by (auto simp: nick_execute_def deref_def send_queue displayName_def)
next
  case True
  let ?d = "c\<lparr>cl_nickname := n, cl_nickSet := True\<rparr>"
  let ?s1 = "put_client p ?d s"
  let ?m = "cat ['':'', cl_nickname c, ''!'', cl_username c, ''@localhost NICK :'', n, crlf]"
  let ?rs = "nick_recipients p (sv_channels s)"
  have ne: "n \<noteq> []" "cl_nickname c \<noteq> []"
    using n(1) inv_client [OF i c(1)] c(2) valid_nickname_chars(1)
    by (auto simp: client_inv_def identity_wf_def isRegistered_def)
  have live: "set ?rs \<subseteq> dom (sv_heap ?s1)"
    using nick_recipients_live [OF i, of p] c(1) by (auto simp: put_client_def)
  have rs: "set ?rs = nick_audience p s"
    by (auto simp: set_nick_recipients nick_audience_def peers_def split: if_splits)
  have "for_each (\<lambda>q t. if False then Some t else send_to q ?m t) ?rs ?s1 = Some (queue ?m {q \<in> set ?rs. \<not> False} ?s1)"
    by (rule for_each_queue [OF distinct_nick_recipients live])
  then have loop: "for_each (\<lambda>q. send_to q ?m) ?rs ?s1 = Some (queue ?m (nick_audience p s) ?s1)"
    by (simp add: rs)
  have p: "p \<in> nick_audience p s" by (simp add: nick_audience_def)
  have inv: "invoke (\<lambda>c. c\<lparr>cl_nickname := n, cl_nickSet := True\<rparr>) p s = Some ?s1"
    using c(1) by (simp add: invoke_def deref_def put_client_def)
  have "broadcastNicknameChange p (cl_nickname c) n ?s1 = Some (queue ?m (nick_audience p s) ?s1)"
    using ne loop by (simp add: broadcastNicknameChange_def deref_def)
  then show ?thesis
    using True owner c n ne inv p
    by (auto simp: nick_execute_def deref_def queue_heap isRegistered_def)
qed

lemma nick_effect_witness:
  "\<exists>t d. nick_execute 0 [''dave''] demo = Some t \<and> sv_heap t 0 = Some d \<and> cl_nickname d = ''dave''"
proof -
  have "isValidNickname ''dave''" by code_simp
  then have "\<exists>Q m. nick_execute 0 [''dave''] demo =
      Some (queue m Q (put_client 0 ((demo_client 4 ''alice'')\<lparr>cl_nickname := ''dave'', cl_nickSet := True\<rparr>) demo))"
    using nick_effect [OF demo_inv, of 0 "demo_client 4 ''alice''" "''dave''" None "[]"] demo_found by auto
  then show ?thesis by (auto simp: queue_heap)
qed

section \<open>PASS\<close>

text \<open>
  C27. A wrong password never authenticates: it is counted (in an unsigned int that does not
  wrap here), answered with the 464 message and nothing else, and the third one, after its answer, starts closing the
  connection (unless the client died because the answer did not fit). Nothing else of the server changes.
\<close>

theorem pass_rejected:
  assumes c: "sv_heap s p = Some c" "\<not> cl_passOk c" "\<not> cl_dead c" "\<not> cl_closing c"
    and few: "unat (cl_failedPassAttempts c) < 3"
    and wrong: "pw \<noteq> []" "pw \<noteq> sv_password s"
  shows "\<exists>d e. pass_execute p (pw # rest) s = Some (put_client p d s) \<and> \<not> cl_passOk d \<and>
     unat (cl_failedPassAttempts d) = Suc (unat (cl_failedPassAttempts c)) \<and>
     e = sendMessage (cat ['':server 464 '', if cl_nickname c = [] then ''*'' else cl_nickname c, '' :Password incorrect'', crlf])
           (c\<lparr>cl_failedPassAttempts := cl_failedPassAttempts c + 1\<rparr>) \<and>
     d = (if unat (cl_failedPassAttempts c) = 2 then markClosing ''too many invalid PASS attempts'' e else e) \<and>
     (cl_closing d \<longleftrightarrow> unat (cl_failedPassAttempts d) = 3 \<and> \<not> cl_dead d)"
proof -
  define e where "e = sendMessage
    (cat ['':server 464 '', if cl_nickname c = [] then ''*'' else cl_nickname c, '' :Password incorrect'', crlf])
    (c\<lparr>cl_failedPassAttempts := cl_failedPassAttempts c + 1\<rparr>)"
  let ?d = "if unat (cl_failedPassAttempts c) = 2 then markClosing ''too many invalid PASS attempts'' e else e"
  have rec: "recordFailedPassAttempt c = c\<lparr>cl_failedPassAttempts := cl_failedPassAttempts c + 1\<rparr>"
    using failed_attempt [OF few] by (cases "cl_failedPassAttempts c < - 1") (simp_all add: recordFailedPassAttempt_def)
  have n: "unat (cl_failedPassAttempts e) = Suc (unat (cl_failedPassAttempts c))"
    and e: "\<not> cl_passOk e" "\<not> cl_closing e"
    using failed_attempt [OF few] rec c by (simp_all add: e_def)
  have "pass_client (sv_password s) (pw # rest) c =
      (if unat (cl_failedPassAttempts e) \<ge> 3 then markClosing ''too many invalid PASS attempts'' e else e)"
    using c(2) wrong by (simp add: pass_client_def Let_def MAX_FAILED_unat displayName_def rec e_def)
  then have "pass_client (sv_password s) (pw # rest) c = ?d" using n few by simp
  then have "pass_execute p (pw # rest) s = Some (put_client p ?d s)"
    using pass_execute_eval [OF c(1), of "pw # rest"] by (simp add: put_client_def)
  moreover have "cl_closing ?d \<longleftrightarrow> unat (cl_failedPassAttempts ?d) = 3 \<and> \<not> cl_dead ?d"
    using n e few by simp
  moreover have "\<not> cl_passOk ?d" "unat (cl_failedPassAttempts ?d) = Suc (unat (cl_failedPassAttempts c))"
    using n e by simp_all
  ultimately show ?thesis
    unfolding e_def [symmetric] by blast
qed

lemma pass_rejected_witness:
  "\<exists>d e. pass_execute 2 [''guess''] demo = Some (put_client 2 d demo) \<and> \<not> cl_passOk d \<and> \<not> cl_closing d \<and>
     d = sendMessage (cat ['':server 464 '', ''*'', '' :Password incorrect'', crlf]) e"
  using pass_rejected [of demo 2 "demo_client 6 []" "''guess''" "[]"] by auto

end
