(* ===== verification/Flush.thy ===== *)
theory Flush
  imports Event_Loop
begin

text \<open>
  The end of a connection. A client that is closing (it sent QUIT, closed its end or
  failed PASS three times) stays until its send buffer is empty. Here: as long as the
  kernel finds its socket writable and takes at least a byte each time, the client is gone
  after at most as many rounds as it has bytes pending, and one more if there are none.
\<close>

section \<open>Serving another descriptor\<close>

text \<open>Another client only receives messages; one that is dead or closing does not even receive those.\<close>

lemma serves_sent:
  assumes s: "serves fd' s t" and i: "server_inv s" and f: "om_find fd (sv_clients s) = Some p" and ne: "fd' \<noteq> fd"
    and c: "sv_heap s p = Some c"
  shows "\<exists>c'. sv_heap t p = Some c' \<and> sent_client c c'"
proof (cases "getClientByFd fd' s")
  case None
  then show ?thesis using s c by (simp add: serves_def)
next
  case (Some q)
  have "q \<noteq> p"
    using getClientByFd_wp [OF i Some] getClientByFd_wp [OF i, of fd p] f ne by (auto simp: getClientByFd_def)
  then have "rel_option sent_client (sv_heap s p) (sv_heap t p)"
    using s Some touched_rel [of input_client q s t p] by (simp add: serves_def)
  then show ?thesis using c by (auto elim: option.rel_cases)
qed

lemma admitted_keeps:
  assumes i: "server_inv s" and a: "admitted fd' ip s t"
    and f: "om_find fd (sv_clients s) = Some p" and fresh: "fd' \<notin> fst ` set (sv_clients s)"
  shows "om_find fd (sv_clients t) = Some p" and "sv_heap t p = sv_heap s p"
proof -
  have "p \<in> dom (sv_heap s)" using inv_entries_live [OF i] om_find_mem [OF f] by blast
  then have "p \<noteq> sv_next s" using invD(1) [OF i] by (auto simp: heap_inv_def)
  moreover have "fd' \<noteq> fd" using fresh om_find_mem [OF f] by (auto simp: image_iff)
  ultimately show "om_find fd (sv_clients t) = Some p" "sv_heap t p = sv_heap s p"
    using a f by (auto simp: admitted_def register_client_def)
qed

lemma serve_other:
  assumes si: "server_inv s" and st: "server_inv t" and f: "om_find fd (sv_clients s) = Some p"
    and c: "sv_heap s p = Some c" and ne: "fd2 \<noteq> fd"
    and served: "t = s \<or> (\<exists>a ip. admitted a ip s t) \<or> serves fd2 s t"
  shows "om_find fd (sv_clients t) = Some p" and "\<exists>c'. sv_heap t p = Some c' \<and> sent_client c c'"
    and "sv_pollFds t = sv_pollFds s \<or> (\<exists>x. sv_pollFds t = sv_pollFds s @ [x])"
proof -
  consider "t = s" | a ip where "admitted a ip s t" | "serves fd2 s t" using served by blast
  then have "om_find fd (sv_clients t) = Some p \<and> (\<exists>c'. sv_heap t p = Some c' \<and> sent_client c c') \<and>
      (sv_pollFds t = sv_pollFds s \<or> (\<exists>x. sv_pollFds t = sv_pollFds s @ [x]))"
  proof cases
    case 2
    then have "a \<notin> pfd_fd ` set (sv_pollFds s)"
      using poll_distinct [OF st] by (auto simp: admitted_def register_client_def)
    then have "a \<notin> fst ` set (sv_clients s)"
      using invD(4) [OF si] by (auto simp: poll_inv_def)
    then show ?thesis
      using admitted_keeps [OF si 2 f] c 2 by (auto simp: admitted_def register_client_def)
  next
    case 3
    then show ?thesis using serves_sent [OF 3 si f ne c] f by (simp add: serves_fields)
  qed (use f c in simp)
  then show "om_find fd (sv_clients t) = Some p" "\<exists>c'. sv_heap t p = Some c' \<and> sent_client c c'"
    "sv_pollFds t = sv_pollFds s \<or> (\<exists>x. sv_pollFds t = sv_pollFds s @ [x])" by simp_all
qed

section \<open>One entry of the poll vector\<close>

text \<open>What serving a closing client with a writable socket makes of its object.\<close>

definition flushed :: "nat \<Rightarrow> client \<Rightarrow> client \<Rightarrow> bool" where
  "flushed n c c' \<longleftrightarrow> cl_closing c' \<and> (cl_dead c' \<or> cl_sendBuffer c' = drop n (cl_sendBuffer c))"

lemma consume_flushed: "cl_closing c \<Longrightarrow> flushed n c (consumeSendBuffer n (on_wire n c))"
  by (auto simp: flushed_def consumeSendBuffer_def)

lemma serve_closing:
  assumes f: "getClientByFd fd s = Some p" and c: "sv_heap s p = Some c" "cl_closing c" "\<not> cl_dead c"
    and fd: "fd \<noteq> sv_listenFd s" and w: "has_event returned POLLOUT" and n: "en_send env fd = Sent n" "0 < n"
  shows "\<exists>t c'. serve_fd env fd returned s = Some (Inr t) \<and> sv_heap t p = Some c' \<and> flushed n c c'"
proof -
  have rd: "handleClientRead fd (en_recv env fd) s = Some s"
    using f c by (simp add: handleClientRead_def deref_def)
  obtain c1 s1 where wr: "handleClientWrite fd (Sent n) s = Some s1" "sv_heap s1 p = Some c1" "flushed n c c1"
    and cl: "getClientByFd fd s1 = Some p"
  proof (cases "cl_sendBuffer c = []")
    case True
    then show ?thesis
      using that [of s c] f c n by (simp add: handleClientWrite_def deref_def flushed_def)
  next
    case False
    then show ?thesis
      using that [of "s\<lparr>sv_heap := (sv_heap s)(p \<mapsto> consumeSendBuffer n (on_wire n c))\<rparr>" "consumeSendBuffer n (on_wire n c)"] f c n
        consume_flushed [OF c(2), of n]
      by (simp add: handleClientWrite_def deref_def invoke_def getClientByFd_def)
  qed
  have dead: "flushed n c (markDead r c1)" for r using wr(3) by (simp add: flushed_def)
  show ?thesis
    using fd w n rd wr cl dead
    by (auto simp: serve_fd_def invoke_def deref_def)
qed

section \<open>One round\<close>

text \<open>
  While the vector is served: \<open>j\<close> is the client's entry, and its object is untouched up to
  there and flushed from there on.
\<close>

definition watched :: "environment \<Rightarrow> nat \<Rightarrow> int \<Rightarrow> cptr \<Rightarrow> nat \<Rightarrow> nat \<Rightarrow> client \<Rightarrow> server \<Rightarrow> bool" where
  "watched env n fd p j i c s \<longleftrightarrow>
     om_find fd (sv_clients s) = Some p \<and> j < length (sv_pollFds s) \<and>
     pfd_fd (sv_pollFds s ! j) = fd \<and> pfd_revents (sv_pollFds s ! j) = en_revents env fd \<and>
     (if i \<le> j then sv_heap s p = Some c else \<exists>c'. sv_heap s p = Some c' \<and> flushed n c c')"

lemma watched_step:
  assumes r: "round_inv env i s" and w: "watched env n fd p j i c s"
    and c: "cl_closing c" "\<not> cl_dead c"
    and out: "has_event (en_revents env fd) POLLOUT" and n: "en_send env fd = Sent n" "0 < n"
    and i: "i < length (sv_pollFds s)" and ev: "pfd_revents (sv_pollFds s ! i) \<noteq> 0"
    and e: "e = sv_pollFds s ! i"
    and t: "serve_fd env (pfd_fd e) (pfd_revents e) s = Some (Inr t)"
  shows "round_inv env (Suc i) t \<and> watched env n fd p j (Suc i) c t"
proof -
  have si: "server_inv s" using r by (simp add: round_inv_def)
  have f: "om_find fd (sv_clients s) = Some p" and j: "j < length (sv_pollFds s)"
    and entry: "pfd_fd (sv_pollFds s ! j) = fd" "pfd_revents (sv_pollFds s ! j) = en_revents env fd"
    and obj: "if i \<le> j then sv_heap s p = Some c else \<exists>c'. sv_heap s p = Some c' \<and> flushed n c c'"
    using w by (simp_all add: watched_def)
  have lf: "fd \<noteq> sv_listenFd s"
    using invD(4) [OF si] om_find_mem [OF f] by (auto simp: poll_inv_def image_iff)
  have same: "pfd_fd e = fd \<longleftrightarrow> i = j"
    using nth_eq_iff_index_eq [OF poll_distinct [OF si], of i j] i j entry
    by (simp add: e)
  from serve_step_wp [OF r i ev] t e
  have step: "round_inv env (Suc i) t" "sv_listenFd t = sv_listenFd s"
    "if pfd_fd e = sv_listenFd s then t = s \<or> (\<exists>fd ip. admitted fd ip s t) else serves (pfd_fd e) s t"
    by simp_all
  show ?thesis
  proof (cases "i = j")
    case True
    then have "pfd_fd e = fd" "pfd_revents e = en_revents env fd" "sv_heap s p = Some c"
      using entry obj e by simp_all
    with serve_closing [of fd s p c "en_revents env fd" env n] f c lf out n t
    have own: "\<exists>c'. sv_heap t p = Some c' \<and> flushed n c c'" by (auto simp: getClientByFd_def)
    have "serves fd s t" using step(3) lf \<open>pfd_fd e = fd\<close> by simp
    with own step(1) f j entry True show ?thesis by (simp add: watched_def serves_fields)
  next
    case False
    obtain c' where c': "sv_heap s p = Some c'" "cl_dead c' \<or> cl_closing c'"
      using obj c by (auto simp: flushed_def split: if_splits)
    have "t = s \<or> (\<exists>a ip. admitted a ip s t) \<or> serves (pfd_fd e) s t"
      using step(3) by (auto split: if_splits)
    moreover have "server_inv t" using step(1) by (simp add: round_inv_def)
    moreover have "pfd_fd e \<noteq> fd" using same False by simp
    ultimately have keep: "om_find fd (sv_clients t) = Some p" "\<exists>d. sv_heap t p = Some d \<and> sent_client c' d"
      "sv_pollFds t = sv_pollFds s \<or> (\<exists>x. sv_pollFds t = sv_pollFds s @ [x])"
      using serve_other [OF si _ f c'(1)] by blast+
    then have "sv_heap t p = Some c'" using sent_inactive c'(2) by blast
    note keep = keep(1,3) this
    have "i \<le> j \<longleftrightarrow> Suc i \<le> j" using False by linarith
    then show ?thesis
      using step(1) keep j entry obj c'(1) by (auto simp: watched_def nth_append)
  qed
qed

lemma watched_loop:
  assumes "round_inv env i s" and "watched env n fd p j i c s"
    and c: "cl_closing c" "\<not> cl_dead c"
    and out: "has_event (en_revents env fd) POLLOUT" and n: "en_send env fd = Sent n" "0 < n"
    and "serve_loop env i s = Some (Inr t)"
  shows "server_inv t \<and> om_find fd (sv_clients t) = Some p \<and> (\<exists>c'. sv_heap t p = Some c' \<and> flushed n c c')"
  using assms
proof (induction env i s rule: serve_loop.induct)
  case (1 env i s)
  have si: "server_inv s" using "1.prems"(1) by (simp add: round_inv_def)
  show ?case
  proof (cases "i < length (sv_pollFds s)")
    case False
    then have "t = s" using "1.prems"(8) by (subst (asm) serve_loop.simps) simp
    with False "1.prems"(2) si show ?thesis by (auto simp: watched_def)
  next
    case i: True
    show ?thesis
    proof (cases "pfd_revents (sv_pollFds s ! i) = 0")
      case True
      have "i \<noteq> j"
        using "1.prems"(2,5) True by (auto simp: watched_def has_event_def)
      then have "watched env n fd p j (Suc i) c s"
        using "1.prems"(2) by (auto simp: watched_def)
      moreover have "serve_loop env (Suc i) s = Some (Inr t)"
        using "1.prems"(8) i True by (subst (asm) serve_loop.simps) simp
      ultimately show ?thesis
        using "1.IH"(1) [OF i True round_inv_next [OF "1.prems"(1) i si]] "1.prems"(3-7) by blast
    next
      case ev: False
      obtain t1 where t1: "serve_fd env (pfd_fd (sv_pollFds s ! i)) (pfd_revents (sv_pollFds s ! i)) s = Some (Inr t1)"
        and next_entry: "serve_loop env (Suc i) t1 = Some (Inr t)"
        using "1.prems"(8) i ev
        by (subst (asm) serve_loop.simps) (auto split: Option.bind_splits sum.splits)
      from watched_step [OF "1.prems"(1-7) i ev refl t1] "1.IH"(2) [OF i ev t1 refl] next_entry "1.prems"(3-7)
      show ?thesis by blast
    qed
  qed
qed

text \<open>At the end of the round the client is gone, or it has less to send.\<close>

lemma closing_round:
  assumes i: "server_inv s" and k: "kernel_ok env s" and f: "om_find fd (sv_clients s) = Some p"
    and c: "sv_heap s p = Some c" "cl_closing c" "\<not> cl_dead c"
    and env: "en_poll env = None" "has_event (en_revents env fd) POLLOUT" "en_send env fd = Sent n" "0 < n"
    and ok: "\<not> fatal env s"
  shows "\<exists>t. iteration env s = Some (Inr t) \<and> server_inv t \<and>
     (sv_heap t p = None \<or> om_find fd (sv_clients t) = Some p \<and>
        (\<exists>c'. sv_heap t p = Some c' \<and> cl_closing c' \<and> \<not> cl_dead c' \<and>
              length (cl_sendBuffer c') < length (cl_sendBuffer c)))"
proof -
  obtain t where it: "iteration env s = Some (Inr t)" "server_inv t"
  proof -
    from iteration_wp [OF i k] obtain r where "iteration env s = Some r"
      "case r of Inl x \<Rightarrow> fatal env s \<and> server_inv (snd x) | Inr t \<Rightarrow> server_inv t" by (rule wpE)
    then show ?thesis using that ok by (cases r) simp_all
  qed
  let ?s1 = "s\<lparr>sv_pollFds := map (refreshed s) (sv_pollFds s)\<rparr>"
  let ?s2 = "polled env ?s1"
  obtain s3 where s3: "serve_loop env 0 ?s2 = Some (Inr s3)" and reap: "reapDeadClients s3 = Some t"
    using it(1) refresh_eq [OF i] env(1)
    by (auto simp: iteration_def split: if_splits option.splits sum.splits Option.bind_splits)
  have i2: "server_inv ?s2"
    unfolding polled_def by (rule inv_pollFds [OF refresh_inv [OF i]]) simp
  have r: "round_inv env 0 ?s2"
    using i2 k by (auto simp: round_inv_def polled_def kernel_ok_def)
  have "fd \<in> fst ` set (sv_clients s)" using om_find_mem [OF f] by force
  then have "fd \<in> set (map pfd_fd (sv_pollFds s))"
    using invD(4) [OF i] by (simp add: poll_inv_def)
  then obtain j where j: "j < length (sv_pollFds s)" "pfd_fd (sv_pollFds s ! j) = fd"
    by (auto simp: in_set_conv_nth)
  have w: "watched env n fd p j 0 c ?s2"
    using j f c(1) by (simp add: watched_def polled_def refreshed_def)
  from watched_loop [OF r w c(2,3) env(2-4) s3] obtain c3 where
    s3': "server_inv s3" "om_find fd (sv_clients s3) = Some p" "sv_heap s3 p = Some c3" "flushed n c c3"
    by blast
  note reaped = reap_one [OF s3'(1-3) reap]
  show ?thesis
  proof (cases "leaving c3")
    case True
    then show ?thesis using it reaped(2) by blast
  next
    case False
    have stay: "\<not> cl_dead c3" "cl_closing c3" "cl_sendBuffer c3 = drop n (cl_sendBuffer c)" "cl_sendBuffer c3 \<noteq> []"
      using False s3'(4) by (auto simp: leaving_def flushed_def hasPendingOutput_def)
    obtain d where d: "om_find fd (sv_clients t) = Some p" "sv_heap t p = Some d" "sent_client c3 d"
      using reaped(3) [OF False] by blast
    then have "d = c3" using stay sent_inactive by blast
    moreover have "length (cl_sendBuffer c3) < length (cl_sendBuffer c)"
      using stay(3,4) env(4) by (cases "cl_sendBuffer c") auto
    ultimately show ?thesis using it d stay by blast
  qed
qed

section \<open>The client is gone in the end\<close>

text \<open>The rounds: the kernel reports the socket writable and takes something each time.\<close>

fun writable_rounds :: "int \<Rightarrow> environment list \<Rightarrow> server \<Rightarrow> bool" where
  "writable_rounds fd [] s = True"
| "writable_rounds fd (env # envs) s =
     (kernel_ok env s \<and> \<not> fatal env s \<and> en_poll env = None \<and> has_event (en_revents env fd) POLLOUT \<and>
      (\<exists>n. en_send env fd = Sent (Suc n)) \<and>
      (\<forall>t. iteration env s = Some (Inr t) \<longrightarrow> writable_rounds fd envs t))"

lemma closing_gone:
  assumes "server_inv s" and "om_find fd (sv_clients s) = Some p"
    and "sv_heap s p = Some c" "cl_closing c" "\<not> cl_dead c"
    and "writable_rounds fd envs s" and "length (cl_sendBuffer c) < length envs"
  shows "\<exists>k t. k \<le> Suc (length (cl_sendBuffer c)) \<and> rounds (take k envs) s = Some (Inr t) \<and> sv_heap t p = None"
  using assms
proof (induction envs arbitrary: s c)
  case (Cons env envs)
  from Cons.prems(6) obtain n where env: "kernel_ok env s" "\<not> fatal env s" "en_poll env = None"
    "has_event (en_revents env fd) POLLOUT" "en_send env fd = Sent (Suc n)"
    and rest: "\<And>t. iteration env s = Some (Inr t) \<Longrightarrow> writable_rounds fd envs t"
    by auto
  from closing_round [OF Cons.prems(1) env(1) Cons.prems(2-5) env(3-5) _ env(2)]
  obtain t where t: "iteration env s = Some (Inr t)" "server_inv t" and
    later: "sv_heap t p = None \<or> om_find fd (sv_clients t) = Some p \<and>
        (\<exists>c'. sv_heap t p = Some c' \<and> cl_closing c' \<and> \<not> cl_dead c' \<and>
              length (cl_sendBuffer c') < length (cl_sendBuffer c))"
    by auto
  show ?case
  proof (cases "sv_heap t p")
    case None
    then show ?thesis using t by (intro exI [of _ "Suc 0"] exI [of _ t]) simp
  next
    case (Some c')
    with later have c': "om_find fd (sv_clients t) = Some p" "cl_closing c'" "\<not> cl_dead c'"
      "length (cl_sendBuffer c') < length (cl_sendBuffer c)" by auto
    from Cons.IH [OF t(2) c'(1) Some c'(2,3) rest [OF t(1)]] c'(4) Cons.prems(7)
    obtain k u where "k \<le> Suc (length (cl_sendBuffer c'))" "rounds (take k envs) t = Some (Inr u)" "sv_heap u p = None"
      by auto
    then show ?thesis using t(1) c'(4) by (intro exI [of _ "Suc k"] exI [of _ u]) simp
  qed
qed simp

end
