(* ===== verification/Network_Spec.thy ===== *)
theory Network_Spec
  imports Parser Identifiers Cxx_Text
begin

text \<open>
  What the server promises, without connections, buffers, vectors or messages: an abstract
  network of users, nicknames and rooms, and the effect of one line of one user on it as a
  function. Users are names of a type \<open>'p\<close>, memberships are sets, nicknames a table from the
  lower-case nickname to its holder. \<open>network_event\<close> and \<open>close_round\<close> put together what a round of the
  server does to it (\<open>network_round\<close>). Theories \<open>Network_Refinement\<close> and \<open>Round_Refinement\<close> show that the server implements it.
\<close>

section \<open>Users, rooms, and the network\<close>

record user =
  us_nick :: string
  us_name :: string
  us_passed :: bool
  us_nicked :: bool
  us_named :: bool
  us_failures :: nat
  us_leaving :: bool

record 'p room =
  rm_topic :: string
  rm_members :: "'p set"
  rm_operators :: "'p set"
  rm_invited :: "'p set"
  rm_inviteOnly :: bool
  rm_topicRestricted :: bool
  rm_key :: string
  rm_limit :: nat

type_synonym 'p rooms = "string \<rightharpoonup> 'p room"

record 'p network =
  nw_password :: string
  nw_users :: "'p \<rightharpoonup> user"
  nw_names :: "string \<rightharpoonup> 'p"
  nw_rooms :: "'p rooms"

definition known_user :: "user \<Rightarrow> bool" where
  "known_user u \<longleftrightarrow> us_passed u \<and> us_nicked u \<and> us_named u"

text \<open>Whom a nickname means.\<close>

definition who :: "'p network \<Rightarrow> string \<Rightarrow> 'p option" where
  "who net nick = nw_names net (toIrcLowerCase nick)"

section \<open>One request for a room\<close>

definition founded_room :: "'p \<Rightarrow> 'p room" where
  "founded_room p =
     \<lparr>rm_topic = [], rm_members = {p}, rm_operators = {p}, rm_invited = {}, rm_inviteOnly = False,
      rm_topicRestricted = True, rm_key = [], rm_limit = 0\<rparr>"

definition room_open :: "'p \<Rightarrow> string \<Rightarrow> 'p room \<Rightarrow> bool" where
  "room_open p key r \<longleftrightarrow>
     rm_key r \<in> {[], key} \<and> (rm_inviteOnly r \<longrightarrow> p \<in> rm_invited r) \<and>
     (0 < rm_limit r \<longrightarrow> card (rm_members r) < rm_limit r)"

definition enter_room :: "'p \<Rightarrow> string \<Rightarrow> string \<Rightarrow> 'p rooms \<Rightarrow> 'p rooms" where
  "enter_room p n key R =
     (if \<not> isValidChannelName n then R
      else case R n of
        None \<Rightarrow> R(n \<mapsto> founded_room p)
      | Some r \<Rightarrow>
          if p \<notin> rm_members r \<and> room_open p key r
          then R(n \<mapsto> r\<lparr>rm_members := insert p (rm_members r), rm_invited := rm_invited r - {p}\<rparr>)
          else R)"

text \<open>A room that nobody is left in is closed.\<close>

definition part_room :: "'p \<Rightarrow> 'p room \<Rightarrow> 'p room option" where
  "part_room p r =
     (if p \<notin> rm_members r then Some r
      else if rm_members r = {p} then None
      else Some (r\<lparr>rm_members := rm_members r - {p}, rm_operators := rm_operators r - {p}\<rparr>))"

definition part_all :: "'p \<Rightarrow> 'p rooms \<Rightarrow> 'p rooms" where
  "part_all p R = (\<lambda>n. R n \<bind> part_room p)"

definition in_room :: "string \<Rightarrow> ('p room \<Rightarrow> 'p room) \<Rightarrow> 'p rooms \<Rightarrow> 'p rooms" where
  "in_room n f R = (case R n of None \<Rightarrow> R | Some r \<Rightarrow> R(n \<mapsto> f r))"

definition kick_user :: "'p \<Rightarrow> 'p option \<Rightarrow> 'p room \<Rightarrow> 'p room" where
  "kick_user p target r =
     (case target of
        None \<Rightarrow> r
      | Some q \<Rightarrow>
          if p \<in> rm_members r \<and> p \<in> rm_operators r \<and> q \<in> rm_members r
          then r\<lparr>rm_members := rm_members r - {q}, rm_operators := rm_operators r - {q}\<rparr> else r)"

definition invite_user :: "'p \<Rightarrow> 'p option \<Rightarrow> 'p room \<Rightarrow> 'p room" where
  "invite_user p target r =
     (case target of
        None \<Rightarrow> r
      | Some q \<Rightarrow>
          if p \<in> rm_members r \<and> q \<notin> rm_members r \<and> (rm_inviteOnly r \<longrightarrow> p \<in> rm_operators r)
          then r\<lparr>rm_invited := insert q (rm_invited r)\<rparr> else r)"

definition change_topic :: "'p \<Rightarrow> string \<Rightarrow> 'p room \<Rightarrow> 'p room" where
  "change_topic p topic r =
     (if p \<in> rm_members r \<and> (rm_topicRestricted r \<longrightarrow> p \<in> rm_operators r)
      then r\<lparr>rm_topic := topic\<rparr> else r)"

section \<open>Modes\<close>

definition valid_key :: "string \<Rightarrow> bool" where
  "valid_key key \<longleftrightarrow> CHR '' '' \<notin> set key \<and> TAB \<notin> set key \<and> CHR '','' \<notin> set key"

text \<open>A letter with an argument. The value of a limit is what the C library's \<open>atoi\<close> makes of it.\<close>

definition mode_with :: "(string \<Rightarrow> 'p option) \<Rightarrow> char \<Rightarrow> bool \<Rightarrow> string \<Rightarrow> 'p room \<Rightarrow> 'p room" where
  "mode_with whom c on a r =
     (if c = CHR ''k'' then
        (if on then (if valid_key a \<and> rm_key r = [] then r\<lparr>rm_key := a\<rparr> else r)
         else if rm_key r = a then r\<lparr>rm_key := []\<rparr> else r)
      else if c = CHR ''l'' then
        (if list_all is_digit a \<and> a \<noteq> [] \<and> 0 < atoi a then r\<lparr>rm_limit := nat (atoi a)\<rparr> else r)
      else case whom a of
        None \<Rightarrow> r
      | Some q \<Rightarrow>
          if q \<in> rm_members r
          then r\<lparr>rm_operators := (if on then insert q (rm_operators r) else rm_operators r - {q})\<rparr>
          else r)"

primrec set_modes :: "(string \<Rightarrow> 'p option) \<Rightarrow> string \<Rightarrow> bool \<Rightarrow> string list \<Rightarrow> 'p room \<Rightarrow> 'p room" where
  "set_modes whom [] on args r = r"
| "set_modes whom (c # cs) on args r =
     (if c = CHR ''+'' then set_modes whom cs True args r
      else if c = CHR ''-'' then set_modes whom cs False args r
      else if c = CHR ''i'' then set_modes whom cs on args (r\<lparr>rm_inviteOnly := on\<rparr>)
      else if c = CHR ''t'' then set_modes whom cs on args (r\<lparr>rm_topicRestricted := on\<rparr>)
      else if c = CHR ''l'' \<and> \<not> on then set_modes whom cs on args (r\<lparr>rm_limit := 0\<rparr>)
      else if c \<in> {CHR ''k'', CHR ''l'', CHR ''o''} then
        (case args of
           [] \<Rightarrow> set_modes whom cs on [] r
         | a # rest \<Rightarrow> set_modes whom cs on rest (mode_with whom c on a r))
      else set_modes whom cs on args r)"

definition known_letter :: "char \<Rightarrow> bool" where
  "known_letter c \<longleftrightarrow> c \<in> set ''+-itklo'' \<or> \<not> is_alpha c"

definition change_modes :: "(string \<Rightarrow> 'p option) \<Rightarrow> 'p \<Rightarrow> string \<Rightarrow> string list \<Rightarrow> 'p room \<Rightarrow> 'p room" where
  "change_modes whom p letters args r =
     (if p \<in> rm_operators r \<and> list_all known_letter letters then set_modes whom letters True args r else r)"

section \<open>One line\<close>

fun enter_rooms :: "'p \<Rightarrow> string list \<Rightarrow> string list \<Rightarrow> 'p rooms \<Rightarrow> 'p rooms" where
  "enter_rooms p [] keys R = R"
| "enter_rooms p (n # ns) keys R =
     enter_rooms p ns (tl keys) (enter_room p n (case keys of [] \<Rightarrow> [] | key # _ \<Rightarrow> key) R)"

text \<open>One room for all users, or one for each.\<close>

definition kick_list :: "string list \<Rightarrow> string list \<Rightarrow> (string \<times> string) list" where
  "kick_list rooms users =
     (if length rooms = 1 then map (Pair (hd rooms)) users
      else if length rooms = length users then zip rooms users else [])"

fun room_command :: "(string \<Rightarrow> 'p option) \<Rightarrow> 'p \<Rightarrow> string \<Rightarrow> string list \<Rightarrow> 'p rooms \<Rightarrow> 'p rooms" where
  "room_command whom p cmd [] R = R"
| "room_command whom p cmd (a # args) R =
     (if cmd = ''JOIN'' then
        (if a = ''0'' then part_all p R
         else enter_rooms p (splitString a CHR '','')
                (if args = [] then [] else splitString (hd args) CHR '','') R)
      else if cmd = ''MODE'' \<and> args \<noteq> [] then in_room a (change_modes whom p (hd args) (tl args)) R
      else if cmd = ''TOPIC'' \<and> args \<noteq> [] then in_room a (change_topic p (hd args)) R
      else if cmd = ''INVITE'' \<and> args \<noteq> [] then in_room (hd args) (invite_user p (whom a)) R
      else if cmd = ''KICK'' \<and> args \<noteq> [] then
        fold (\<lambda>(n, nick). in_room n (kick_user p (whom nick)))
          (kick_list (splitString a CHR '','') (splitString (hd args) CHR '','')) R
      else R)"

definition pass_user :: "string \<Rightarrow> string list \<Rightarrow> user \<Rightarrow> user" where
  "pass_user password params u =
     (if us_passed u \<or> params = [] \<or> hd params = [] then u
      else if hd params = password then u\<lparr>us_passed := True\<rparr>
      else u\<lparr>us_failures := Suc (us_failures u), us_leaving := us_failures u \<ge> 2\<rparr>)"

definition name_user :: "string list \<Rightarrow> user \<Rightarrow> user" where
  "name_user params u =
     (if us_named u \<or> length params < 4 \<or> \<not> isValidUsername (hd params) then u
      else u\<lparr>us_name := hd params, us_named := True\<rparr>)"

definition take_nick :: "'p \<Rightarrow> string list \<Rightarrow> user \<Rightarrow> 'p network \<Rightarrow> 'p network" where
  "take_nick p params u net =
     (if params = [] \<or> \<not> isValidNickname (hd params) \<or> who net (hd params) \<notin> {None, Some p} then net
      else net\<lparr>nw_users := (nw_users net)(p \<mapsto> u\<lparr>us_nick := hd params, us_nicked := True\<rparr>),
               nw_names := (nw_names net)(toIrcLowerCase (us_nick u) := None, toIrcLowerCase (hd params) \<mapsto> p)\<rparr>)"

definition network_command :: "'p \<Rightarrow> string \<Rightarrow> string list \<Rightarrow> user \<Rightarrow> 'p network \<Rightarrow> 'p network" where
  "network_command p cmd params u net =
     (let put = (\<lambda>v. net\<lparr>nw_users := (nw_users net)(p \<mapsto> v)\<rparr>) in
      if cmd = ''QUIT'' then put (u\<lparr>us_leaving := True\<rparr>)
      else if cmd = ''PASS'' then put (pass_user (nw_password net) params u)
      else if \<not> us_passed u then net
      else if cmd = ''NICK'' then take_nick p params u net
      else if cmd = ''USER'' then put (name_user params u)
      else if \<not> known_user u then net
      else net\<lparr>nw_rooms := room_command (who net) p cmd params (nw_rooms net)\<rparr>)"

text \<open>A line of nobody, or of somebody who is leaving, does nothing.\<close>

definition network_line :: "'p \<Rightarrow> string \<Rightarrow> 'p network \<Rightarrow> 'p network" where
  "network_line p l net =
     (case nw_users net p of
        None \<Rightarrow> net
      | Some u \<Rightarrow>
          if us_leaving u then net
          else network_command p (msg_command (parse l)) (msg_params (parse l)) u net)"

section \<open>Coming and going\<close>

definition new_user :: user where
  "new_user = \<lparr>us_nick = [], us_name = [], us_passed = False, us_nicked = False, us_named = False,
               us_failures = 0, us_leaving = False\<rparr>"

definition connect_user :: "'p \<Rightarrow> 'p network \<Rightarrow> 'p network" where
  "connect_user p net = net\<lparr>nw_users := (nw_users net)(p \<mapsto> new_user)\<rparr>"

text \<open>
  A user who is gone is in no room and on no list of invited users, and its nickname is free. (The rooms
  stay, also those nobody is left in.)
\<close>

definition forget_user :: "'p \<Rightarrow> 'p room \<Rightarrow> 'p room" where
  "forget_user p r = r\<lparr>rm_members := rm_members r - {p}, rm_operators := rm_operators r - {p},
                       rm_invited := rm_invited r - {p}\<rparr>"

definition drop_user :: "'p \<Rightarrow> 'p network \<Rightarrow> 'p network" where
  "drop_user p net =
     net\<lparr>nw_users := (nw_users net)(p := None),
         nw_names := (\<lambda>k. if nw_names net k = Some p then None else nw_names net k),
         nw_rooms := (\<lambda>n. map_option (forget_user p) (nw_rooms net n))\<rparr>"

section \<open>Events\<close>

text \<open>What a round of the server tells the network: a line, the end of the input, a new user.\<close>

datatype 'p event = Said 'p string | Hung_up 'p | Came 'p

definition hang_up :: "'p \<Rightarrow> 'p network \<Rightarrow> 'p network" where
  "hang_up p net =
     (case nw_users net p of
        None \<Rightarrow> net
      | Some u \<Rightarrow> net\<lparr>nw_users := (nw_users net)(p \<mapsto> u\<lparr>us_leaving := True\<rparr>)\<rparr>)"

fun network_event :: "'p event \<Rightarrow> 'p network \<Rightarrow> 'p network" where
  "network_event (Said p l) net = network_line p l net"
| "network_event (Hung_up p) net = hang_up p net"
| "network_event (Came p) net = connect_user p net"

text \<open>Several users leave at once.\<close>

definition forget_users :: "'p set \<Rightarrow> 'p room \<Rightarrow> 'p room" where
  "forget_users P r = r\<lparr>rm_members := rm_members r - P, rm_operators := rm_operators r - P,
                        rm_invited := rm_invited r - P\<rparr>"

definition drop_users :: "'p set \<Rightarrow> 'p network \<Rightarrow> 'p network" where
  "drop_users P net =
     net\<lparr>nw_users := (\<lambda>p. if p \<in> P then None else nw_users net p),
         nw_names := (\<lambda>k. case nw_names net k of None \<Rightarrow> None | Some p \<Rightarrow> if p \<in> P then None else Some p),
         nw_rooms := (\<lambda>n. map_option (forget_users P) (nw_rooms net n))\<rparr>"

lemma drop_user_users: "drop_user p net = drop_users {p} net"
  by (auto simp: drop_user_def drop_users_def forget_user_def forget_users_def fun_eq_iff
      split: option.splits intro!: network.equality arg_cong [of _ _ "\<lambda>f. map_option f _"])

lemma drop_users_twice: "drop_users P (drop_users Q net) = drop_users (P \<union> Q) net"
proof -
  have "forget_users P (forget_users Q r) = forget_users (P \<union> Q) r" for r
    by (auto simp: forget_users_def intro!: room.equality)
  then show ?thesis
    by (auto simp: drop_users_def fun_eq_iff option.map_comp comp_def split: option.splits intro!: network.equality)
qed

lemma drop_nobody: "drop_users {} net = net"
proof -
  have "map_option (forget_users {}) x = x" for x by (cases x) (simp_all add: forget_users_def)
  then show ?thesis by (auto simp: drop_users_def fun_eq_iff split: option.splits intro!: network.equality)
qed

text \<open>
  The end of a round: of the users who are leaving (they said QUIT, their input ended, or they gave too many wrong
  passwords) those are gone for whom nothing is left to be written, the set \<open>written\<close>.
\<close>

definition close_round :: "'p set \<Rightarrow> 'p network \<Rightarrow> 'p network" where
  "close_round written net = drop_users {p \<in> written. \<exists>u. nw_users net p = Some u \<and> us_leaving u} net"

definition network_round :: "'p event list \<times> 'p set \<Rightarrow> 'p network \<Rightarrow> 'p network" where
  "network_round r net = close_round (snd r) (fold network_event (fst r) net)"

end
