(* ===== verification/Network_Refinement.thy ===== *)
theory Network_Refinement
  imports Network_Spec Access_Control Lifecycle
begin

text \<open>
  The server implements the abstract network of \<open>Network_Spec\<close>: \<open>network_of\<close> reads the network off a
  server state, and each operation of the server commutes with it: a line
  (\<open>Server::processLine\<close>), all lines of one read (\<open>handleClientRead\<close>), a new connection
  (\<open>acceptNewClient\<close>) and the end of one (\<open>disconnectClient\<close>).
\<close>

section \<open>The abstraction\<close>

definition user_of :: "client \<Rightarrow> user" where
  "user_of c = \<lparr>us_nick = cl_nickname c, us_name = cl_username c, us_passed = cl_passOk c,
     us_nicked = cl_nickSet c, us_named = cl_userSet c, us_failures = unat (cl_failedPassAttempts c),
     us_leaving = cl_closing c\<rparr>"

definition room_of :: "'p channel \<Rightarrow> 'p room" where
  "room_of ch = \<lparr>rm_topic = ch_topic ch, rm_members = set (ch_members ch),
     rm_operators = set (ch_operators ch), rm_invited = set (ch_invitedClients ch),
     rm_inviteOnly = ch_isInviteOnly ch, rm_topicRestricted = ch_topicRestricted ch,
     rm_key = ch_password ch, rm_limit = ch_userLimit ch\<rparr>"

definition users_of :: "server \<Rightarrow> cptr \<rightharpoonup> user" where
  "users_of s = (\<lambda>p. map_option user_of (sv_heap s p))"

text \<open>The nickname table is what the code's search finds.\<close>

definition names_of :: "server \<Rightarrow> string \<rightharpoonup> cptr" where
  "names_of s = (\<lambda>k. if k = [] then None
                     else case find_nick_loop k (sv_clients s) s of Some r \<Rightarrow> r | None \<Rightarrow> None)"

definition rooms_of :: "server \<Rightarrow> cptr rooms" where
  "rooms_of s = (\<lambda>n. map_option room_of (om_find n (sv_channels s)))"

definition network_of :: "server \<Rightarrow> cptr network" where
  "network_of s = \<lparr>nw_password = sv_password s, nw_users = users_of s, nw_names = names_of s,
     nw_rooms = rooms_of s\<rparr>"

section \<open>Rooms\<close>

lemma rooms_update: "chan_update n r s t \<Longrightarrow> rooms_of t = (rooms_of s)(n := map_option room_of r)"
  by (auto simp: rooms_of_def chan_update_def fun_eq_iff)

lemma room_fields [simp]:
  "rm_members (room_of ch) = set (ch_members ch)" "rm_operators (room_of ch) = set (ch_operators ch)"
  "rm_invited (room_of ch) = set (ch_invitedClients ch)" "rm_topic (room_of ch) = ch_topic ch"
  "rm_inviteOnly (room_of ch) = ch_isInviteOnly ch" "rm_topicRestricted (room_of ch) = ch_topicRestricted ch"
  "rm_key (room_of ch) = ch_password ch" "rm_limit (room_of ch) = ch_userLimit ch"
  by (simp_all add: room_of_def)

lemma rooms_at: "rooms_of s n = map_option room_of (om_find n (sv_channels s))"
  by (simp add: rooms_of_def)

lemma inv_distinct:
  assumes "server_inv s" and "om_find n (sv_channels s) = Some ch"
  shows "distinct (ch_members ch)" "distinct (ch_operators ch)" "distinct (ch_invitedClients ch)"
  using inv_channel [OF assms] by (simp_all add: chan_wf_def)

lemma room_open_iff: "distinct (ch_members ch) \<Longrightarrow> room_open p key (room_of ch) \<longleftrightarrow> may_join p key ch"
  by (auto simp: room_open_def may_join_def isInvited_iff distinct_card)

lemma enter_room_refines:
  assumes "server_inv s"
  shows "(rooms_of s)(n := map_option room_of (join_result p n key (om_find n (sv_channels s)))) =
    enter_room p n key (rooms_of s)"
proof (cases "om_find n (sv_channels s)")
  case None
  have "room_of (addOperator p (addMember p (setTopicRestricted True (new_Channel n)))) = founded_room p"
    by (simp add: room_of_def founded_room_def addOperator_def addMember_def setTopicRestricted_def
        new_Channel_def vec_add_def vec_mem_def)
  then show ?thesis using None by (auto simp: enter_room_def join_result_def fun_eq_iff rooms_at)
next
  case (Some ch)
  note d = inv_distinct [OF assms Some]
  have "room_of (removeInvited p (addMember p ch)) = (room_of ch)
      \<lparr>rm_members := insert p (set (ch_members ch)), rm_invited := set (ch_invitedClients ch) - {p}\<rparr>"
    using d by (simp add: room_of_def removeInvited_def addMember_def)
  then show ?thesis
    using Some room_open_iff [OF d(1)]
    by (auto simp: enter_room_def join_result_def isMember_iff fun_eq_iff rooms_at)
qed

lemma join_loop_refines:
  "server_inv s \<Longrightarrow> p \<in> reg_ptrs s \<Longrightarrow> list_all clean ns \<Longrightarrow>
   wp (join_loop p ns keys s) (\<lambda>t. rooms_of t = enter_rooms p ns keys (rooms_of s))"
proof (induction ns arbitrary: keys s)
  case (Cons n ns)
  let ?k = "case keys of [] \<Rightarrow> [] | key # _ \<Rightarrow> key"
  have "wp (join_one p n ?k s) (\<lambda>t. (server_inv t \<and>
      chan_update n (join_result p n ?k (om_find n (sv_channels s))) s t) \<and> reg_ptrs s \<subseteq> reg_ptrs t)"
    using Cons.prems by (intro wp_handled_reg [OF join_one_wp join_one_frame]) simp_all
  then show ?case
    unfolding join_loop.simps
  proof (rule wp_bindI)
    fix t
    assume t: "(server_inv t \<and> chan_update n (join_result p n ?k (om_find n (sv_channels s))) s t) \<and>
        reg_ptrs s \<subseteq> reg_ptrs t"
    then have "rooms_of t = enter_room p n ?k (rooms_of s)"
      using rooms_update enter_room_refines [OF Cons.prems(1)] by metis
    moreover have "wp (join_loop p ns (tl keys) t) (\<lambda>u. rooms_of u = enter_rooms p ns (tl keys) (rooms_of t))"
      using t Cons.prems by (intro Cons.IH) auto
    ultimately show "wp (join_loop p ns (tl keys) t) (\<lambda>u. rooms_of u = enter_rooms p (n # ns) keys (rooms_of s))"
      by simp
  qed
qed simp

lemma part_room_refines:
  assumes "distinct (ch_members ch)" and "distinct (ch_operators ch)"
  shows "map_option room_of (left_channel p ch) = part_room p (room_of ch)"
proof -
  have "vec_erase p (ch_members ch) = [] \<longleftrightarrow> set (ch_members ch) - {p} = {}"
    using hv.set_remove assms(1) by (metis set_empty2)
  then show ?thesis
    using assms by (auto simp: left_channel_def part_room_def isMember_iff room_of_def)
qed

lemma part_all_refines:
  assumes "server_inv s" and "p \<in> dom (sv_heap s)"
  shows "wp (leave_loop p (om_keys (sv_channels s)) s) (\<lambda>t. rooms_of t = part_all p (rooms_of s))"
proof (rule wp_mono [OF leave_all_wp [OF assms]])
  fix t
  assume t: "server_inv t \<and> (\<forall>n. om_find n (sv_channels t) = om_find n (sv_channels s) \<bind> left_channel p)"
  have "map_option room_of (om_find n (sv_channels s) \<bind> left_channel p) = map_option room_of (om_find n (sv_channels s)) \<bind> part_room p" for n
    using part_room_refines inv_distinct [OF assms(1), of n]
    by (cases "om_find n (sv_channels s)") simp_all
  then show "rooms_of t = part_all p (rooms_of s)"
    using t by (simp add: rooms_of_def part_all_def)
qed

text \<open>A change of one channel, as a change in one room.\<close>

lemma in_room_refines:
  assumes "chan_update n (map_option f (om_find n (sv_channels s))) s t"
    and "\<And>ch. om_find n (sv_channels s) = Some ch \<Longrightarrow> room_of (f ch) = g (room_of ch)"
  shows "rooms_of t = in_room n g (rooms_of s)"
  using rooms_update [OF assms(1)] assms(2)
  by (cases "om_find n (sv_channels s)") (auto simp: in_room_def fun_eq_iff rooms_at)

lemma kick_user_refines:
  "distinct (ch_members ch) \<Longrightarrow> distinct (ch_operators ch) \<Longrightarrow>
   room_of (kick_result p target ch) = kick_user p target (room_of ch)"
  by (auto simp: kick_result_def kick_user_def room_of_def isMember_iff isOperator_iff split: option.splits)

lemma invite_user_refines: "room_of (invite_result p q ch) = invite_user p (Some q) (room_of ch)"
  by (auto simp: invite_result_def invite_user_def room_of_def isMember_iff isOperator_iff addInvited_def)

lemma change_topic_refines:
  "args \<noteq> [] \<Longrightarrow> room_of (topic_result p args ch) = change_topic p (hd args) (room_of ch)"
  by (auto simp: topic_result_def change_topic_def room_of_def isMember_iff isOperator_iff setTopic_def)

subsection \<open>Modes\<close>

lemma valid_key_iff: "bad_key key \<longleftrightarrow> \<not> valid_key key"
  by (auto simp: bad_key_def valid_key_def str_find_char_None)

text \<open>One letter of the mode string against one step of the specification.\<close>

lemma mode_change_refines:
  assumes "distinct (ch_operators ch)" and q: "ma_paramIndex m < length params \<Longrightarrow> q = whom (params ! ma_paramIndex m)"
    and r: "mode_change params q c m ch = (m', ch')"
  shows "set_modes whom (c # cs) (ma_isPlus m) (drop (ma_paramIndex m) params) (room_of ch) =
    set_modes whom cs (ma_isPlus m') (drop (ma_paramIndex m') params) (room_of ch')"
proof -
  consider "c \<in> {CHR ''+'', CHR ''-'', CHR ''i'', CHR ''t''}" | "c = CHR ''k''" | "c = CHR ''l''" | "c = CHR ''o''"
    | "c \<notin> set ''+-itklo''" by auto
  then show ?thesis
  proof cases
    case 1
    then show ?thesis
      using r by (auto simp: mode_change_def Let_def note_mode_def room_of_def setInviteOnly_def
          setTopicRestricted_def split: if_splits)
  next
    case 2
    then show ?thesis
    using r by (cases "ma_paramIndex m < length params")
      (auto simp: mode_change_def Let_def note_mode_def take_param_def room_of_def setPassword_def mode_with_def
        valid_key_iff Cons_nth_drop_Suc [symmetric] split: if_splits)
  next
    case 3
    then show ?thesis
    using r by (cases "ma_paramIndex m < length params")
      (auto simp: mode_change_def Let_def note_mode_def take_param_def room_of_def setUserLimit_def mode_with_def
        Cons_nth_drop_Suc [symmetric] split: if_splits)
  next
    case 4
    then show ?thesis
    using r q assms(1) by (cases "ma_paramIndex m < length params")
      (auto simp: mode_change_def Let_def note_mode_def take_param_def room_of_def addOperator_def removeOperator_def
        mode_with_def isMember_iff isOperator_iff insert_absorb
        Cons_nth_drop_Suc [symmetric] split: if_splits option.splits)
  next
    case 5
    then show ?thesis using r by (auto simp: mode_change_def Let_def split: if_splits)
  qed
qed

section \<open>When nobody is lost\<close>

text \<open>
  A message that overflows the send buffer of its receiver kills it in the middle of a command,
  and its nickname means nobody from then on. \<open>calm\<close>: this did not happen.
\<close>

definition calm :: "server \<Rightarrow> server \<Rightarrow> bool" where
  "calm s t \<longleftrightarrow> (\<forall>q c d. sv_heap s q = Some c \<longrightarrow> sv_heap t q = Some d \<longrightarrow> cl_dead d \<longrightarrow> cl_dead c)"

definition ages :: "server \<Rightarrow> server \<Rightarrow> bool" where
  "ages s t \<longleftrightarrow> (\<forall>q. rel_option (\<lambda>c d. cl_dead c \<longrightarrow> cl_dead d) (sv_heap s q) (sv_heap t q))"

lemma ages_trans: "ages s t \<Longrightarrow> ages t u \<Longrightarrow> ages s u"
  unfolding ages_def by (metis (mono_tags, lifting) rel_option_compose)

lemma touched_ages:
  assumes "touched R p s t" and "\<And>c d. R c d \<Longrightarrow> cl_dead c \<Longrightarrow> cl_dead d"
  shows "ages s t"
  unfolding ages_def
proof
  fix q
  have "rel_option (if q = p then R else sent_client) (sv_heap s q) (sv_heap t q)"
    using assms(1) by (simp add: touched_def)
  then show "rel_option (\<lambda>c d. cl_dead c \<longrightarrow> cl_dead d) (sv_heap s q) (sv_heap t q)"
    by (rule option.rel_mono_strong) (auto dest: assms(2) sent_client_fields(11) split: if_splits)
qed

lemma handled_ages: "handled p s t \<Longrightarrow> ages s t"
  by (erule touched_ages) (simp add: grown_client_def risen_client_def)

lemma calm_split:
  assumes st: "ages s t" and tu: "ages t u" and c: "calm s u"
  shows "calm s t" and "calm t u"
proof -
  have st': "rel_option (\<lambda>c d. cl_dead c \<longrightarrow> cl_dead d) (sv_heap s q) (sv_heap t q)"
    and tu': "rel_option (\<lambda>c d. cl_dead c \<longrightarrow> cl_dead d) (sv_heap t q) (sv_heap u q)" for q
    using st tu by (simp_all add: ages_def)
  show "calm s t"
    unfolding calm_def
  proof (intro allI impI)
    fix q x y
    assume h: "sv_heap s q = Some x" "sv_heap t q = Some y" "cl_dead y"
    with tu' [of q] obtain z where "sv_heap u q = Some z" "cl_dead z" by (auto simp: option_rel_Some1)
    with h c show "cl_dead x" by (auto simp: calm_def)
  qed
  show "calm t u"
    unfolding calm_def
  proof (intro allI impI)
    fix q y z
    assume h: "sv_heap t q = Some y" "sv_heap u q = Some z" "cl_dead z"
    with st' [of q] obtain x where "sv_heap s q = Some x" "cl_dead x \<longrightarrow> cl_dead y" by (auto simp: option_rel_Some2)
    with h c show "cl_dead y" by (auto simp: calm_def)
  qed
qed

text \<open>Only messages and changes of channels: whoever the client is, the frame holds for another one too.\<close>

definition quiet :: "server \<Rightarrow> server \<Rightarrow> bool" where
  "quiet s t \<longleftrightarrow> sv_clients t = sv_clients s \<and> sv_password t = sv_password s \<and>
     (\<forall>q. rel_option sent_client (sv_heap s q) (sv_heap t q))"

lemma handled_quiet:
  assumes "\<And>q. handled q s t"
  shows "quiet s t"
  unfolding quiet_def
proof (intro conjI allI)
  show "sv_clients t = sv_clients s" "sv_password t = sv_password s"
    using touched_fields [OF assms] by simp_all
  show "rel_option sent_client (sv_heap s q) (sv_heap t q)" for q
    using touched_rel [OF assms [of "Suc q"], of q] by simp
qed

lemma pc_quiet: "(\<And>q. pc m (handled q s)) \<Longrightarrow> m = Some t \<Longrightarrow> quiet s t"
  by (rule handled_quiet) (simp add: pc_def)

lemma sent_quiet: "sent s t \<Longrightarrow> quiet s t"
  by (rule handled_quiet) (rule sent_handled)

lemma quiet_users: "quiet s t \<Longrightarrow> users_of t = users_of s"
proof
  fix q
  assume "quiet s t"
  then have "rel_option sent_client (sv_heap s q) (sv_heap t q)" by (simp add: quiet_def)
  then show "users_of t q = users_of s q"
    by (auto simp: users_of_def user_of_def sent_client_fields elim!: option.rel_cases)
qed

lemma names_cong:
  assumes "\<And>p. map_option (\<lambda>c. (cl_dead c, cl_nickname c)) (sv_heap t p) = map_option (\<lambda>c. (cl_dead c, cl_nickname c)) (sv_heap s p)"
    and "sv_clients t = sv_clients s"
  shows "names_of t = names_of s"
  using find_nick_loop_cong [of t s, OF assms(1)] assms(2) by (simp only: names_of_def)

lemma quiet_names:
  assumes q: "quiet s t" and c: "calm s t"
  shows "names_of t = names_of s"
proof -
  have "map_option (\<lambda>c. (cl_dead c, cl_nickname c)) (sv_heap t p) = map_option (\<lambda>c. (cl_dead c, cl_nickname c)) (sv_heap s p)" for p
  proof -
    have "rel_option sent_client (sv_heap s p) (sv_heap t p)" using q by (simp add: quiet_def)
    then show ?thesis
    proof cases
      case (Some c d)
      then have "cl_dead d = cl_dead c" using c sent_client_fields(11) unfolding calm_def by blast
      with Some show ?thesis by (simp add: sent_client_fields)
    qed simp
  qed
  moreover have "sv_clients t = sv_clients s" using q by (simp add: quiet_def)
  ultimately show ?thesis by (rule names_cong)
qed

lemma findClientByNick_names: "findClientByNick n s = Some r \<Longrightarrow> names_of s (toIrcLowerCase n) = r"
  by (auto simp: findClientByNick_def names_of_def toIrcLowerCase_Nil_iff split: if_splits option.splits)

section \<open>Several requests in a line\<close>

lemma kick_loop_refines:
  "server_inv s \<Longrightarrow> p \<in> dom (sv_heap s) \<Longrightarrow> kick_loop p channels i users r s = Some t \<Longrightarrow> calm s t \<Longrightarrow>
   length channels = 1 \<or> i + length users = length channels \<Longrightarrow>
   rooms_of t = fold (\<lambda>(n, nick). in_room n (kick_user p (names_of s (toIrcLowerCase nick))))
     (if length channels = 1 then map (Pair (hd channels)) users else zip (drop i channels) users) (rooms_of s)"
proof (induction users arbitrary: i s)
  case (Cons u users)
  let ?n = "if length channels = 1 then channels ! 0 else channels ! i"
  let ?who = "\<lambda>nick. names_of s (toIrcLowerCase nick)"
  from Cons.prems(3) obtain s1 where s1: "kick_one p ?n u r s = Some s1"
    and rest: "kick_loop p channels (Suc i) users r s1 = Some t"
    by (auto split: Option.bind_splits)
  obtain target where target: "findClientByNick u s = Some target"
    by (rule wpE [OF findClientByNick_wp [OF Cons.prems(1)]])
  from pcD [OF pc_of_wp [OF kick_one_wp [OF Cons.prems(1,2) target]] s1]
  have s1i: "server_inv s1" "chan_update ?n (map_option (kick_result p target) (om_find ?n (sv_channels s))) s s1"
    by simp_all
  have q: "quiet s s1" by (rule pc_quiet [OF kick_one_frame s1])
  have h: "handled p s s1" "handled p s1 t" by (rule pcD [OF kick_one_frame s1] pcD [OF kick_loop_frame rest])+
  note calm = calm_split [OF handled_ages [OF h(1)] handled_ages [OF h(2)] Cons.prems(4)]
  have first: "rooms_of s1 = in_room ?n (kick_user p (?who u)) (rooms_of s)"
    using findClientByNick_names [OF target] inv_distinct [OF Cons.prems(1)]
    by (intro in_room_refines [OF s1i(2)]) (simp add: kick_user_refines)
  have "p \<in> dom (sv_heap s1)" using Cons.prems(2) handled_fields(9) [OF h(1)] by simp
  from Cons.IH [OF s1i(1) this rest calm(2)] Cons.prems(5)
  have "rooms_of t = fold (\<lambda>(n, nick). in_room n (kick_user p (?who nick)))
     (if length channels = 1 then map (Pair (hd channels)) users else zip (drop (Suc i) channels) users) (rooms_of s1)"
    using quiet_names [OF q calm(1)] by auto
  moreover have "drop i channels = channels ! i # drop (Suc i) channels" if "length channels \<noteq> 1"
    using that Cons.prems(5) by (intro Cons_nth_drop_Suc [symmetric]) simp
  ultimately show ?case using first by (cases channels) (auto simp: hd_conv_nth)
qed simp

lemma mode_loop_refines:
  "server_inv s \<Longrightarrow> p \<in> dom (sv_heap s) \<Longrightarrow> om_find target (sv_channels s) = Some ch \<Longrightarrow> list_all clean params \<Longrightarrow>
   mode_loop p target params letters m s = Some (m', t) \<Longrightarrow> calm s t \<Longrightarrow>
   rooms_of t = (rooms_of s)(target \<mapsto> set_modes (\<lambda>nick. names_of s (toIrcLowerCase nick)) letters
     (ma_isPlus m) (drop (ma_paramIndex m) params) (room_of ch))"
proof (induction letters arbitrary: m s ch)
  case (Cons c letters)
  let ?who = "\<lambda>nick. names_of s (toIrcLowerCase nick)"
  from Cons.prems(5) obtain m1 s1 where s1: "mode_letter p target params c m s = Some (m1, s1)"
    and rest: "mode_loop p target params letters m1 s1 = Some (m', t)"
    by (auto split: Option.bind_splits)
  obtain q where q: "findClientByNick (params ! ma_paramIndex m) s = Some q"
    by (rule wpE [OF findClientByNick_wp [OF Cons.prems(1)]])
  obtain m2 ch1 where change: "mode_change params q c m ch = (m2, ch1)" by fastforce
  from pcD [OF pc_of_wp [OF mode_letter_wp [OF Cons.prems(1-4) q, of c]] s1] change
  have s1i: "m2 = m1" "server_inv s1" "p \<in> dom (sv_heap s1)" "chan_update target (Some ch1) s s1"
    by (simp_all add: letter_post_def)
  have h: "handled r s s1" for r using pcD [OF mode_letter_frame s1] by simp
  have "handled p s1 t" using pcD [OF mode_loop_frame rest] by simp
  note calm = calm_split [OF handled_ages [OF h [of p]] handled_ages [OF this] Cons.prems(6)]
  have ch1: "om_find target (sv_channels s1) = Some ch1" using s1i(4) by (simp add: chan_update_def)
  have "rooms_of t = (rooms_of s1)(target \<mapsto> set_modes ?who letters (ma_isPlus m1) (drop (ma_paramIndex m1) params) (room_of ch1))"
    using Cons.IH [OF s1i(2,3) ch1 Cons.prems(4) rest calm(2)] quiet_names [OF handled_quiet [OF h] calm(1)]
    by (simp add: fun_eq_iff)
  also have "\<dots> = (rooms_of s)(target \<mapsto> set_modes ?who letters (ma_isPlus m1) (drop (ma_paramIndex m1) params) (room_of ch1))"
    using rooms_update [OF s1i(4)] by simp
  also have "set_modes ?who letters (ma_isPlus m1) (drop (ma_paramIndex m1) params) (room_of ch1) =
      set_modes ?who (c # letters) (ma_isPlus m) (drop (ma_paramIndex m) params) (room_of ch)"
    using mode_change_refines [of ch m params q ?who c m2 ch1 letters] change s1i(1)
      findClientByNick_names [OF q] inv_distinct(2) [OF Cons.prems(1,3)] by simp
  finally show ?case .
qed (auto simp: fun_eq_iff rooms_at)

section \<open>The commands on rooms\<close>

lemma sent_rooms: "sent s t \<Longrightarrow> rooms_of t = rooms_of s"
  by (simp add: rooms_of_def sent_fields)

lemma pc_sent_rooms: "pc m (sent s) \<Longrightarrow> m = Some t \<Longrightarrow> rooms_of t = rooms_of s"
  by (auto simp: pc_def intro: sent_rooms)

lemma in_room_id: "(\<And>r. R n = Some r \<Longrightarrow> f r = r) \<Longrightarrow> in_room n f R = R"
  by (auto simp: in_room_def fun_upd_triv split: option.splits)

lemma join_refines:
  assumes i: "server_inv s" and p: "p \<in> reg_ptrs s" and cl: "list_all clean params"
    and t: "join_execute p params s = Some t"
  shows "rooms_of t = room_command whom p ''JOIN'' params (rooms_of s)"
proof -
  from p obtain c where c: "sv_heap s p = Some c" by (auto simp: reg_ptrs_def)
  show ?thesis
  proof (cases params)
    case Nil
    then show ?thesis using t c pc_sent_rooms [OF send_to_sent] by (simp add: join_execute_def deref_def)
  next
    case (Cons a args)
    have names: "list_all clean (splitString a CHR '','')" using cl Cons by (simp add: clean_split)
    show ?thesis
      using t c Cons pcD [OF pc_of_wp [OF part_all_refines [OF i reg_dom [OF p]]]]
        pcD [OF pc_of_wp [OF join_loop_refines [OF i p names]]]
      by (cases args) (auto simp: join_execute_def deref_def split: if_splits)
  qed
qed

lemma kick_refines:
  assumes i: "server_inv s" and p: "p \<in> dom (sv_heap s)"
    and t: "kick_execute p params s = Some t" and calm: "calm s t"
  shows "rooms_of t = room_command (\<lambda>nick. names_of s (toIrcLowerCase nick)) p ''KICK'' params (rooms_of s)"
proof -
  from p obtain c where c: "sv_heap s p = Some c" by blast
  note send = pc_sent_rooms [OF send_to_sent]
  show ?thesis
  proof (cases "length params < 2")
    case True
    then show ?thesis using t c send by (cases params) (auto simp: kick_execute_def deref_def)
  next
    case False
    then obtain a b rest where params: "params = a # b # rest"
      by (cases params; cases "tl params") auto
    let ?chs = "splitString a CHR '',''" and ?us = "splitString b CHR '',''"
    show ?thesis
    proof (cases "length ?chs \<noteq> 1 \<and> length ?chs \<noteq> length ?us")
      case True
      then show ?thesis using t c send params by (simp add: kick_execute_def deref_def kick_list_def Let_def)
    next
      case False
      then have "kick_loop p ?chs 0 ?us (if rest = [] then ''No reason given'' else hd rest) s = Some t"
        using t c params by (cases rest) (auto simp: kick_execute_def deref_def Let_def)
      from kick_loop_refines [OF i p this calm] False show ?thesis
        by (cases "length ?chs = 1") (auto simp: params kick_list_def)
    qed
  qed
qed

lemma invite_refines:
  assumes i: "server_inv s" and p: "p \<in> dom (sv_heap s)" and t: "invite_execute p params s = Some t"
  shows "rooms_of t = room_command (\<lambda>nick. names_of s (toIrcLowerCase nick)) p ''INVITE'' params (rooms_of s)"
proof (cases "length params < 2")
  case True
  from p obtain c where "sv_heap s p = Some c" by blast
  then show ?thesis
    using t True pc_sent_rooms [OF send_to_sent] by (cases params) (auto simp: invite_execute_def deref_def)
next
  case False
  then obtain nick n rest where params: "params = nick # n # rest"
    by (cases params; cases "tl params") auto
  obtain target where target: "findClientByNick nick s = Some target"
    by (rule wpE [OF findClientByNick_wp [OF i]])
  note post = pcD [OF pc_of_wp [OF invite_wp [OF i p target params]] t]
  note who = findClientByNick_names [OF target]
  show ?thesis
  proof (cases target)
    case None
    then have "rooms_of t = rooms_of s" using post by (auto simp: rooms_of_def chan_update_def fun_eq_iff)
    then show ?thesis using None who params by (simp add: in_room_id invite_user_def)
  next
    case (Some v)
    have "rooms_of t = in_room n (invite_user p (Some v)) (rooms_of s)"
      using post Some by (intro in_room_refines [where f = "invite_result p v"]) (simp_all add: invite_user_refines)
    then show ?thesis using Some who params by simp
  qed
qed

lemma topic_refines:
  assumes i: "server_inv s" and p: "p \<in> dom (sv_heap s)" and cl: "list_all clean params"
    and t: "topic_execute p params s = Some t"
  shows "rooms_of t = room_command whom p ''TOPIC'' params (rooms_of s)"
proof (cases params)
  case Nil
  from p obtain c where "sv_heap s p = Some c" by blast
  then show ?thesis
    using t Nil pc_sent_rooms [OF send_to_sent] by (auto simp: topic_execute_def deref_def)
next
  case (Cons n args)
  then have "list_all clean args" using cl by simp
  from pcD [OF pc_of_wp [OF topic_wp [OF i p Cons this]] t]
  have up: "chan_update n (map_option (topic_result p args) (om_find n (sv_channels s))) s t" by simp
  show ?thesis
  proof (cases args)
    case Nil
    have "rooms_of t = in_room n (\<lambda>r. r) (rooms_of s)"
      by (rule in_room_refines [OF up]) (simp add: topic_result_def Nil)
    then show ?thesis using Nil Cons by (simp add: in_room_id)
  next
    case tail: (Cons topic rest)
    have "rooms_of t = in_room n (change_topic p topic) (rooms_of s)"
      by (rule in_room_refines [OF up]) (simp add: tail change_topic_refines)
    then show ?thesis using tail Cons by simp
  qed
qed

lemma unknown_letter: "unknown_mode c \<longleftrightarrow> \<not> known_letter c"
  by (auto simp: unknown_mode_def known_letter_def)

lemma mode_may_iff:
  "mode_may p (n # letters # args) ch \<longleftrightarrow> isOperator ch p \<and> list_all known_letter letters"
proof -
  have "\<not> list_ex unknown_mode letters \<longleftrightarrow> list_all known_letter letters"
    by (auto simp: list_ex_iff list_all_iff unknown_letter)
  then show ?thesis by (simp add: mode_may_def)
qed

lemma mode_refines:
  assumes i: "server_inv s" and p: "p \<in> dom (sv_heap s)" and cl: "list_all clean params"
    and t: "mode_execute p params s = Some t" and calm: "calm s t"
  shows "rooms_of t = room_command (\<lambda>nick. names_of s (toIrcLowerCase nick)) p ''MODE'' params (rooms_of s)"
proof (cases "\<exists>ch. params \<noteq> [] \<and> om_find (hd params) (sv_channels s) = Some ch \<and> mode_may p params ch")
  case False
  then have "wp (mode_execute p params s) (sent s)" by (intro mode_refused [OF p]) auto
  then have same: "rooms_of t = rooms_of s" using t sent_rooms by (auto simp: wp_def)
  show ?thesis
  proof (cases "length params < 2")
    case True
    then show ?thesis using same by (cases params) auto
  next
    case False': False
    then obtain n letters args where params: "params = n # letters # args"
      by (cases params; cases "tl params") auto
    have "change_modes whom p letters args r = r" if "rooms_of s n = Some r" for r whom
      using that False by (auto simp: params rooms_at mode_may_iff change_modes_def isOperator_iff)
    then show ?thesis using same params by (simp add: in_room_id)
  qed
next
  case True
  then obtain n args ch where params: "params = n # args"
    and ch: "om_find n (sv_channels s) = Some ch" and may: "mode_may p params ch"
    by (cases params) auto
  then obtain letters rest where args: "args = letters # rest" by (cases args) (auto simp: mode_may_def)
  have name: "first_char n \<in> {CHR ''#'', CHR ''&''}"
    using inv_channel [OF i ch] valid_channel_isChannel [of n]
    by (auto simp: chan_wf_def isChannel_def first_char_def split: if_splits)
  show ?thesis
  proof (rule mode_allowed [OF i p cl params name ch may])
    fix m u c ch'
    assume l: "mode_loop p n params (params ! 1) mode_start s = Some (m, u)"
      and e: "mode_execute p params s = Some
        (if ma_appliedModes m = [] then u else queue (mode_message c n m) (set (ch_members ch)) u)"
      and iu: "server_inv u" and up: "chan_update n (Some ch') s u" and people: "same_people ch ch'"
    have "om_find n (sv_channels u) = Some ch'" using up by (simp add: chan_update_def)
    then have "set (ch_members ch) \<subseteq> dom (sv_heap u)"
      using inv_members(1) [OF iu, of n ch'] people by (simp add: same_people_def)
    then have ut: "sent u t" using e t queue_sent by auto
    have "handled p s u" using pcD [OF mode_loop_frame l] by simp
    note early = calm_split(1) [OF handled_ages [OF this] handled_ages [OF sent_handled [OF ut]] calm]
    have "rooms_of u = (rooms_of s)(n \<mapsto> set_modes (\<lambda>nick. names_of s (toIrcLowerCase nick)) letters True rest (room_of ch))"
      using mode_loop_refines [OF i p ch cl l early] by (simp add: params args mode_start_def)
    then show ?thesis
      using sent_rooms [OF ut] ch may by (simp add: params args in_room_def rooms_at change_modes_def mode_may_iff isOperator_iff)
  qed
qed

section \<open>The commands on users\<close>

lemma names_iff:
  assumes i: "server_inv s"
  shows "names_of s k = Some q \<longleftrightarrow>
     k \<noteq> [] \<and> (\<exists>c. sv_heap s q = Some c \<and> \<not> cl_dead c \<and> toIrcLowerCase (cl_nickname c) = k)"
proof (cases "k = []")
  case False
  note H = invD(1) [OF i, unfolded heap_inv_def]
  have live: "\<forall>(fd, p) \<in> set (sv_clients s). p \<in> dom (sv_heap s)" by (rule inv_entries_live [OF i])
  have owned: "\<exists>fd. (fd, r) \<in> set (sv_clients s)" if "sv_heap s r = Some c" for r c
    using H that by (force simp: dom_def)
  have unique: "r = q" if "sv_heap s r = Some d" "sv_heap s q = Some c" "\<not> cl_dead d" "\<not> cl_dead c"
    "toIrcLowerCase (cl_nickname d) = k" "toIrcLowerCase (cl_nickname c) = k" for r d c
    using invD(3) [OF i, unfolded nick_inv_def, rule_format, OF that(1-4)] that(5,6) False
    by (metis toIrcLowerCase_Nil_iff)
  obtain r where r: "find_nick_loop k (sv_clients s) s = Some r"
    "case r of None \<Rightarrow> \<forall>(fd, p) \<in> set (sv_clients s). \<forall>c. sv_heap s p = Some c \<longrightarrow> \<not> cl_dead c \<longrightarrow>
                 toIrcLowerCase (cl_nickname c) \<noteq> k
     | Some q \<Rightarrow> \<exists>c. sv_heap s q = Some c \<and> \<not> cl_dead c \<and> toIrcLowerCase (cl_nickname c) = k"
    using find_nick_loop_spec [OF live] by blast
  show ?thesis
  proof (cases r)
    case None
    then have "toIrcLowerCase (cl_nickname c) \<noteq> k" if "sv_heap s q = Some c" "\<not> cl_dead c" for c
      using r(2) owned [OF that(1)] that by auto
    with None r(1) False show ?thesis by (auto simp: names_of_def)
  next
    case (Some r')
    with r unique show ?thesis using False by (auto simp: names_of_def)
  qed
qed (simp add: names_of_def)

lemma quiet_network:
  "quiet s t \<Longrightarrow> calm s t \<Longrightarrow> network_of t = (network_of s)\<lparr>nw_rooms := rooms_of t\<rparr>"
  using quiet_users [of s t] quiet_names [of s t] by (simp add: network_of_def quiet_def)

lemma sent_network: "sent s t \<Longrightarrow> calm s t \<Longrightarrow> network_of t = network_of s"
  using quiet_network [OF sent_quiet] sent_rooms by (metis network_of_def network.update_convs(4))

lemma calm_refl [simp]: "calm s s"
  by (auto simp: calm_def)

text \<open>A change of the client's own object, its nickname kept.\<close>

lemma put_network:
  assumes c: "sv_heap s p = Some c" and d: "cl_nickname d = cl_nickname c" "cl_dead d = cl_dead c"
  shows "network_of (put_client p d s) = (network_of s)\<lparr>nw_users := (users_of s)(p \<mapsto> user_of d)\<rparr>"
proof -
  have "names_of (put_client p d s) = names_of s"
    by (rule names_cong) (use c d in \<open>simp_all add: put_client_def\<close>)
  then show ?thesis
    by (simp add: network_of_def users_of_def rooms_of_def put_client_def fun_eq_iff)
qed

text \<open>A change of the object, then messages.\<close>

lemma put_sent_network:
  assumes c: "sv_heap s p = Some c" and d: "cl_dead d = cl_dead c"
    and st: "sent (put_client p d s) t" and calm: "calm s t"
  shows "network_of t = network_of (put_client p d s)"
proof (rule sent_network [OF st])
  show "calm (put_client p d s) t"
    using calm c d by (auto simp: calm_def put_client_def)
qed

lemma users_at: "sv_heap s p = Some c \<Longrightarrow> users_of s p = Some (user_of c)"
  by (simp add: users_of_def)

lemma user_fields [simp]:
  "us_nick (user_of c) = cl_nickname c" "us_name (user_of c) = cl_username c"
  "us_passed (user_of c) = cl_passOk c" "us_nicked (user_of c) = cl_nickSet c"
  "us_named (user_of c) = cl_userSet c" "us_failures (user_of c) = unat (cl_failedPassAttempts c)"
  "us_leaving (user_of c) = cl_closing c" "known_user (user_of c) = isRegistered c"
  by (simp_all add: user_of_def known_user_def isRegistered_def)

lemma network_fields [simp]:
  "nw_users (network_of s) = users_of s" "nw_names (network_of s) = names_of s"
  "nw_rooms (network_of s) = rooms_of s" "nw_password (network_of s) = sv_password s"
  by (simp_all add: network_of_def)

lemma user_of_sendMessage [simp]: "user_of (sendMessage m c) = user_of c"
  by (simp add: user_of_def)

lemma pass_user_refines:
  assumes act: "\<not> cl_dead c" "\<not> cl_closing c" and few: "unat (cl_failedPassAttempts c) < 3"
    and live: "\<not> cl_dead (pass_client pw params c)"
  shows "user_of (pass_client pw params c) = pass_user pw params (user_of c)"
proof (cases "cl_passOk c \<or> params = [] \<or> hd params = [] \<or> hd params = pw")
  case True
  then show ?thesis by (auto simp: pass_client_def pass_user_def user_of_def)
next
  case False
  then show ?thesis
    using act live failed_attempt [OF few]
    by (auto simp: pass_client_def pass_user_def user_of_def Let_def MAX_FAILED_unat split: if_splits)
qed

lemma pass_refines:
  assumes i: "server_inv s" and c: "sv_heap s p = Some c" "\<not> cl_dead c" "\<not> cl_closing c"
    and t: "pass_execute p params s = Some t" and calm: "calm s t"
  shows "network_of t = (network_of s)\<lparr>nw_users := (users_of s)(p \<mapsto> pass_user (sv_password s) params (user_of c))\<rparr>"
proof -
  let ?d = "pass_client (sv_password s) params c"
  have t': "t = put_client p ?d s" using pass_execute_eval [OF c(1), of params] t by (simp add: put_client_def)
  have few: "unat (cl_failedPassAttempts c) < 3"
    using inv_client [OF i c(1)] c(2,3) by (auto simp: client_inv_def attempts_wf_def)
  have live: "\<not> cl_dead ?d" using calm c by (auto simp: calm_def t' put_client_def)
  have "cl_nickname ?d = cl_nickname c" by (rule pass_client_kept(2) [OF inv_client [OF i c(1)] c(2,3)])
  with put_network [OF c(1), of ?d] live c(2) pass_user_refines [OF c(2,3) few live] show ?thesis
    by (simp add: t')
qed

lemma user_refines:
  assumes c: "sv_heap s p = Some c"
    and t: "user_execute p params s = Some t" and calm: "calm s t"
  shows "network_of t = (network_of s)\<lparr>nw_users := (users_of s)(p \<mapsto> name_user params (user_of c))\<rparr>"
proof (cases "cl_userSet c \<or> length params < 4 \<or> \<not> isValidUsername (hd params)")
  case True
  then have "pc (user_execute p params s) (sent s)"
    using c by (auto simp: user_execute_def deref_def intro!: send_to_sent)
  then have "network_of t = network_of s" using t calm sent_network by (auto simp: pc_def)
  moreover have "(users_of s)(p \<mapsto> name_user params (user_of c)) = users_of s"
    using True users_at [OF c] by (auto simp: name_user_def fun_eq_iff)
  ultimately show ?thesis by (simp add: network_of_def)
next
  case False
  let ?d = "c\<lparr>cl_username := hd params, cl_userSet := True\<rparr>"
  have "user_execute p params s =
      (if isRegistered ?d then send_to p (welcome_message ?d) (put_client p ?d s) else Some (put_client p ?d s))"
    using False c by (auto simp: user_execute_def deref_def invoke_def put_client_def)
  then have "sent (put_client p ?d s) t"
    using t pcD [OF send_to_sent] by (auto split: if_splits)
  from put_sent_network [OF c _ this calm] put_network [OF c, of ?d]
  have "network_of t = (network_of s)\<lparr>nw_users := (users_of s)(p \<mapsto> user_of ?d)\<rparr>" by simp
  moreover have "user_of ?d = name_user params (user_of c)" using False by (simp add: user_of_def name_user_def)
  ultimately show ?thesis by simp
qed

lemma who_network: "findClientByNick n s = Some r \<Longrightarrow> who (network_of s) n = r"
  by (simp add: who_def findClientByNick_names)

text \<open>NICK, refused and accepted.\<close>

lemma nick_accepted:
  assumes c: "sv_heap s p = Some c" and n: "isValidNickname n"
    and free: "findClientByNick n s = Some r" "r = None \<or> r = Some p"
    and t: "nick_execute p (n # rest) s = Some t"
  shows "sent (put_client p (c\<lparr>cl_nickname := n, cl_nickSet := True\<rparr>) s) t"
proof -
  let ?s1 = "put_client p (c\<lparr>cl_nickname := n, cl_nickSet := True\<rparr>) s"
  have ne: "n \<noteq> []" using n by (rule valid_nickname_chars)
  have "nick_execute p (n # rest) s = do {
      s2 \<leftarrow> (if isRegistered c \<and> cl_nickname c \<noteq> n then broadcastNicknameChange p (cl_nickname c) n ?s1 else Some ?s1);
      c2 \<leftarrow> deref p s2;
      if \<not> isRegistered c \<and> isRegistered c2 then send_to p (welcome_message c2) s2 else Some s2 }"
    using c n ne free by (auto simp: nick_execute_def deref_def invoke_def put_client_def)
  moreover have "pc (do {
      s2 \<leftarrow> (if isRegistered c \<and> cl_nickname c \<noteq> n then broadcastNicknameChange p (cl_nickname c) n ?s1 else Some ?s1);
      c2 \<leftarrow> deref p s2;
      if \<not> isRegistered c \<and> isRegistered c2 then send_to p (welcome_message c2) s2 else Some s2 }) (sent ?s1)"
    by (intro sent_rules nickChange_sent) simp_all
  ultimately show ?thesis using t by (simp add: pc_def)
qed

lemma nick_refused:
  assumes c: "sv_heap s p = Some c" and owner: "findClientByNick (hd params) s = Some r"
    and no: "params = [] \<or> \<not> isValidNickname (hd params) \<or> r \<notin> {None, Some p}"
    and t: "nick_execute p params s = Some t"
  shows "sent s t"
proof -
  have "pc (nick_execute p params s) (sent s)"
    using c owner no by (auto simp: nick_execute_def deref_def intro!: send_to_sent)
  then show ?thesis using t by (simp add: pc_def)
qed

text \<open>The nickname table after the change: the old nickname is free, the new one is the client's.\<close>

lemma nick_names:
  assumes i: "server_inv s" "server_inv t" and c: "sv_heap s p = Some c" "\<not> cl_dead c"
    and n: "isValidNickname n" and st: "sent (put_client p (c\<lparr>cl_nickname := n, cl_nickSet := True\<rparr>) s) t"
    and calm: "calm s t"
  shows "names_of t = (names_of s)(toIrcLowerCase (cl_nickname c) := None, toIrcLowerCase n \<mapsto> p)"
    (is "_ = ?names")
proof -
  let ?lc = toIrcLowerCase
  have ne: "?lc n \<noteq> []" using valid_nickname_chars(1) [OF n] by (simp add: toIrcLowerCase_Nil_iff)
  have other: "(\<exists>d. sv_heap t q = Some d \<and> \<not> cl_dead d \<and> ?lc (cl_nickname d) = k) \<longleftrightarrow>
      (\<exists>d. sv_heap s q = Some d \<and> \<not> cl_dead d \<and> ?lc (cl_nickname d) = k)" if "q \<noteq> p" for q k
  proof -
    have "rel_option sent_client (sv_heap s q) (sv_heap t q)"
      using st that by (auto simp: sent_def put_client_def dest: spec [of _ q])
    then show ?thesis
      using calm by (cases rule: option.rel_cases) (auto simp: calm_def sent_client_fields)
  qed
  obtain d where d: "sv_heap t p = Some d" "sent_client (c\<lparr>cl_nickname := n, cl_nickSet := True\<rparr>) d"
    using sent_object [OF st, of p] by (auto simp: put_client_def)
  then have own: "cl_nickname d = n" "\<not> cl_dead d"
    using sent_client_fields(4) [OF d(2)] calm c by (auto simp: calm_def)
  have old: "q = p" if h: "names_of s (?lc (cl_nickname c)) = Some q" for q
  proof -
    obtain e where "sv_heap s q = Some e" "\<not> cl_dead e" "?lc (cl_nickname e) = ?lc (cl_nickname c)" "cl_nickname c \<noteq> []"
      using h by (auto simp: names_iff [OF i(1)])
    then show ?thesis
      using invD(3) [OF i(1), unfolded nick_inv_def, rule_format, of p c q e] c by metis
  qed
  have "names_of t k = Some q \<longleftrightarrow> ?names k = Some q" for k q
  proof (cases "q = p")
    case True
    have "names_of t k = Some p \<longleftrightarrow> k = ?lc n" using ne d own by (auto simp: names_iff [OF i(2)])
    moreover have "names_of s k = Some p \<longrightarrow> k = ?lc (cl_nickname c)" using c by (auto simp: names_iff [OF i(1)])
    ultimately show ?thesis using True by auto
  next
    case False
    have same: "names_of t k = Some q \<longleftrightarrow> names_of s k = Some q"
      using other [OF False] by (simp add: names_iff i)
    have "names_of t k \<noteq> Some q" if "k = ?lc n"
    proof -
      have "names_of t k = Some p" using that ne d own by (auto simp: names_iff [OF i(2)])
      then show ?thesis using False by simp
    qed
    with same old False show ?thesis by auto
  qed
  then show ?thesis
    by (metis ext not_Some_eq)
qed

lemma nick_refines:
  assumes i: "server_inv s" and c: "sv_heap s p = Some c" "\<not> cl_dead c" "\<not> cl_closing c"
    and t: "nick_execute p params s = Some t" and calm: "calm s t"
  shows "network_of t = take_nick p params (user_of c) (network_of s)"
proof -
  obtain r where r: "findClientByNick (hd params) s = Some r"
    by (rule wpE [OF findClientByNick_wp [OF i]])
  show ?thesis
  proof (cases "params = [] \<or> \<not> isValidNickname (hd params) \<or> r \<notin> {None, Some p}")
    case True
    from sent_network [OF nick_refused [OF c(1) r True t] calm] show ?thesis
      using True by (simp add: take_nick_def who_network [OF r])
  next
    case False
    then obtain rest where params: "params = hd params # rest" and n: "isValidNickname (hd params)"
      and free: "r = None \<or> r = Some p" by (cases params) auto
    let ?d = "c\<lparr>cl_nickname := hd params, cl_nickSet := True\<rparr>"
    have st: "sent (put_client p ?d s) t"
      using nick_accepted [OF c(1) n r free, of rest] t params by simp
    have "active p s" using c by (simp add: active_def)
    then have it: "server_inv t" using nick_safe [OF i, of p params] t by (auto simp: wp_def)
    have "users_of t = (users_of s)(p \<mapsto> (user_of c)\<lparr>us_nick := hd params, us_nicked := True\<rparr>)"
      using quiet_users [OF sent_quiet [OF st]] by (auto simp: users_of_def put_client_def user_of_def fun_eq_iff)
    moreover have "rooms_of t = rooms_of s" using sent_rooms [OF st] by (simp add: rooms_of_def put_client_def)
    moreover have "sv_password t = sv_password s" using sent_fields(2) [OF st] by (simp add: put_client_def)
    moreover have "take_nick p params (user_of c) (network_of s) = (network_of s)
        \<lparr>nw_users := (users_of s)(p \<mapsto> (user_of c)\<lparr>us_nick := hd params, us_nicked := True\<rparr>),
         nw_names := (names_of s)(toIrcLowerCase (cl_nickname c) := None, toIrcLowerCase (hd params) \<mapsto> p)\<rparr>"
      using False who_network [OF r] by (auto simp: take_nick_def)
    ultimately show ?thesis
      using nick_names [OF i it c(1,2) n st calm] by (simp add: network_of_def)
  qed
qed

section \<open>A line\<close>

lemma rooms_network:
  assumes "\<And>q. pc (execute k p params s) (handled q s)" and "execute k p params s = Some t" and "calm s t"
    and "rooms_of t = R"
  shows "network_of t = (network_of s)\<lparr>nw_rooms := R\<rparr>"
  using quiet_network [OF pc_quiet [OF assms(1,2)] assms(3)] assms(4) by simp

lemma room_command_other:
  "cmd \<notin> {''JOIN'', ''MODE'', ''TOPIC'', ''INVITE'', ''KICK''} \<Longrightarrow> room_command whom p cmd params R = R"
  by (cases params) auto

lemma network_rooms_same [simp]: "(network_of s)\<lparr>nw_rooms := rooms_of s\<rparr> = network_of s"
  by (simp add: network_of_def)

lemma execute_rooms_refines:
  assumes i: "server_inv s" and p: "p \<in> reg_ptrs s" and cl: "list_all clean params"
    and k: "om_find cmd (sv_commands s) = Some k" "k \<notin> {PassCommand, NickCommand, UserCommand}"
    and t: "execute k p params s = Some t" and calm: "calm s t"
  shows "network_of t = (network_of s)\<lparr>nw_rooms := room_command (who (network_of s)) p cmd params (rooms_of s)\<rparr>"
proof -
  have pd: "p \<in> dom (sv_heap s)" by (rule reg_dom [OF p])
  have who: "who (network_of s) = (\<lambda>nick. names_of s (toIrcLowerCase nick))" by (simp add: fun_eq_iff who_def)
  note frames = join_frame kick_frame invite_frame topic_frame mode_frame privmsg_sent [THEN sent_pc_handled]
  have frame: "pc (execute k p params s) (handled q s)" for q
    using k(2) by (cases k) (simp_all add: execute_def frames)
  have "rooms_of t = room_command (who (network_of s)) p cmd params (rooms_of s)"
  proof (cases k)
    case PrivmsgCommand
    then have "cmd = ''PRIVMSG''" using k(1) by (auto simp: commands_table [OF i] split: if_splits)
    then show ?thesis
      using t PrivmsgCommand pc_sent_rooms [OF privmsg_sent] by (simp add: execute_def room_command_other)
  qed (use k t i p pd cl calm in \<open>auto simp: who execute_def commands_table [OF i] join_refines kick_refines
      invite_refines topic_refines mode_refines split: if_splits\<close>)
  then show ?thesis by (rule rooms_network [OF frame t calm])
qed

lemma line_cases:
  assumes i: "server_inv s" and c: "sv_heap s p = Some c" "\<not> cl_dead c" "\<not> cl_closing c"
    and cl: "list_all clean params" and k: "om_find cmd (sv_commands s) = Some k"
    and gate: "cmd = ''PASS'' \<or> cl_passOk c" "cmd \<in> {''PASS'', ''NICK'', ''USER''} \<or> isRegistered c"
    and t: "execute k p params s = Some t" and calm: "calm s t"
  shows "network_of t = network_command p cmd params (user_of c) (network_of s)"
proof (cases "k \<in> {PassCommand, NickCommand, UserCommand}")
  case True
  then consider "cmd = ''PASS''" "k = PassCommand" | "cmd = ''NICK''" "k = NickCommand" | "cmd = ''USER''" "k = UserCommand"
    using k by (auto simp: commands_table [OF i] split: if_splits)
  then show ?thesis
  proof cases
    case 1
    then show ?thesis using pass_refines [OF i c] t calm by (simp add: network_command_def execute_def)
  next
    case 2
    then show ?thesis using nick_refines [OF i c] t calm gate by (simp add: network_command_def execute_def)
  next
    case 3
    then show ?thesis using user_refines [OF c(1)] t calm gate by (simp add: network_command_def execute_def)
  qed
next
  case False
  then have other: "cmd \<notin> {''QUIT'', ''PASS'', ''NICK'', ''USER''}"
    using k by (auto simp: commands_table [OF i])
  then have reg: "p \<in> reg_ptrs s" and pass: "cl_passOk c" "isRegistered c" using gate c(1) by (auto simp: reg_ptrs_def)
  from execute_rooms_refines [OF i reg cl k False t calm] other pass show ?thesis
    by (simp add: network_command_def)
qed

lemma processMessage_refines:
  assumes i: "server_inv s" and c: "sv_heap s p = Some c" "\<not> cl_dead c" "\<not> cl_closing c"
    and cl: "list_all clean (msg_params msg)"
    and t: "processMessage p msg s = Some t" and calm: "calm s t"
  shows "network_of t = network_command p (msg_command msg) (msg_params msg) (user_of c) (network_of s)"
proof -
  let ?cmd = "msg_command msg" and ?ps = "msg_params msg"
  have silent: "network_of t = network_of s" if "pc (processMessage p msg s) (sent s)"
    using that t calm sent_network by (simp add: pc_def)
  have idle: "network_command p ?cmd ?ps (user_of c) (network_of s) = network_of s"
    if "?cmd \<notin> {''QUIT'', ''PASS''}" "?cmd \<in> {''NICK'', ''USER''} \<Longrightarrow> \<not> cl_passOk c"
      "om_find ?cmd (sv_commands s) = None \<or> \<not> isRegistered c \<and> (?cmd \<in> {''NICK'', ''USER''} \<longrightarrow> \<not> cl_passOk c)"
    using that
    by (auto simp: network_command_def commands_table [OF i] room_command_other split: if_splits)
  consider (quit) "?cmd = ''QUIT''"
    | (other) "?cmd \<noteq> ''QUIT''" "om_find ?cmd (sv_commands s) = None"
    | (known) k where "?cmd \<noteq> ''QUIT''" "om_find ?cmd (sv_commands s) = Some k" by blast
  then show ?thesis
  proof cases
    case quit
    then obtain r where t': "t = put_client p (markClosing r c) s"
      using t c by (auto simp: processMessage_def Let_def invoke_def deref_def put_client_def)
    have "user_of (markClosing r c) = (user_of c)\<lparr>us_leaving := True\<rparr>"
      using c by (simp add: user_of_def)
    then show ?thesis
      using put_network [OF c(1), of "markClosing r c"] quit by (simp add: t' network_command_def)
  next
    case other
    have "pc (processMessage p msg s) (sent s)"
      using other c by (auto simp: processMessage_def Let_def deref_def intro!: send_to_sent)
    from silent [OF this] idle other show ?thesis by (simp add: commands_table [OF i] split: if_splits)
  next
    case (known k)
    then have in_table: "?cmd \<notin> {[], ''CAP'', ''PING''}" by (auto simp: commands_table [OF i] split: if_splits)
    show ?thesis
    proof (cases "(?cmd = ''PASS'' \<or> cl_passOk c) \<and> (?cmd \<in> {''PASS'', ''NICK'', ''USER''} \<or> isRegistered c)")
      case True
      then have "execute k p ?ps s = Some t"
        using known in_table t c by (auto simp: processMessage_def Let_def deref_def)
      from line_cases [OF i c cl known(2) _ _ this calm] True show ?thesis by blast
    next
      case False
      then have "pc (processMessage p msg s) (sent s)"
        using known in_table c by (auto simp: processMessage_def Let_def deref_def intro!: send_to_sent)
      from silent [OF this] idle known False show ?thesis by (auto simp: isRegistered_def)
    qed
  qed
qed

lemma processLine_refines:
  assumes i: "server_inv s" and a: "active p s" and l: "clean l"
    and t: "processLine p l s = Some t" and calm: "calm s t"
  shows "network_of t = network_line p l (network_of s)"
proof -
  from a obtain c where c: "sv_heap s p = Some c" "\<not> cl_dead c" "\<not> cl_closing c" by (auto simp: active_def)
  have "list_all clean (msg_params (parse l))" using l by (rule clean_params)
  from processMessage_refines [OF i c this t [unfolded processLine_def] calm] c show ?thesis
    by (simp add: network_line_def users_at)
qed

section \<open>The lines of a read\<close>

text \<open>Moving bytes changes nothing in the network.\<close>

lemma put_same_network:
  assumes c: "sv_heap s p = Some c" and d: "user_of d = user_of c" "cl_dead d = cl_dead c"
  shows "network_of (put_client p d s) = network_of s"
proof -
  have "cl_nickname d = cl_nickname c" using d(1) by (simp add: user_of_def)
  moreover have "(users_of s)(p \<mapsto> user_of c) = users_of s" using users_at [OF c] by (auto simp: fun_eq_iff)
  ultimately show ?thesis using put_network [OF c _ d(2)] d(1) by (simp add: network_of_def)
qed

lemma calm_put:
  assumes "sv_heap s p = Some c" and "cl_dead d = cl_dead c" and "calm s t"
  shows "calm (put_client p d s) t"
  using assms by (auto simp: calm_def put_client_def)

lemma network_line_leaving:
  "nw_users net p = Some u \<Longrightarrow> us_leaving u \<Longrightarrow> fold (network_line p) ls net = net"
  by (induction ls) (auto simp: network_line_def)

text \<open>Which lines are read, and what is left, depends on the bytes only.\<close>

lemma drain_same:
  "cl_recvBuffer d = cl_recvBuffer c \<Longrightarrow>
   fst (drain d) = fst (drain c) \<and> cl_recvBuffer (snd (drain d)) = cl_recvBuffer (snd (drain c))"
proof (induction c arbitrary: d rule: drain.induct)
  case (1 c)
  obtain r c' where e: "extractLine c = (r, c')" by (cases "extractLine c")
  obtain r' d' where e': "extractLine d = (r', d')" by (cases "extractLine d")
  have same: "r' = r" "cl_recvBuffer d' = cl_recvBuffer c'"
    using e e' 1(2) by (auto simp: extractLine_def Let_def split: option.splits if_splits)
  show ?case
  proof (cases r)
    case (Some l)
    then show ?thesis
      using 1(1) [OF e [symmetric] Some, of d'] e e' same
      by (simp add: drain.simps [of c] drain.simps [of d] case_prod_beta)
  qed (use e e' same in \<open>simp add: drain.simps [of c] drain.simps [of d]\<close>)
qed

lemmas drain_buffer = drain_same [THEN conjunct1] drain_same [THEN conjunct2]

definition lines_run :: "cptr \<Rightarrow> client \<Rightarrow> server \<Rightarrow> server \<Rightarrow> bool" where
  "lines_run p c s t \<longleftrightarrow>
     network_of t = fold (network_line p) (fst (drain c)) (network_of s) \<and>
     (\<forall>d. sv_heap t p = Some d \<longrightarrow> \<not> cl_closing d \<longrightarrow> cl_recvBuffer d = cl_recvBuffer (snd (drain c)))"

lemma read_loop_refines:
  assumes "server_inv s" and "active p s" and "sv_heap s p = Some c"
    and "read_loop p s = Some t" and "calm s t"
  shows "lines_run p c s t"
  using assms
proof (induction p s arbitrary: c rule: read_loop.induct)
  case (1 p s)
  note c = "1.prems"(3)
  have live: "\<not> cl_dead c" "\<not> cl_closing c" using "1.prems"(2) c by (auto simp: active_def)
  obtain r c' where e: "extractLine c = (r, c')" by (cases "extractLine c")
  note f = extractLine_fields [OF e] and k = extractLine_kept [OF e]
  let ?s = "put_client p c' s"
  have u: "user_of c' = user_of c" using f by (simp add: user_of_def)
  have h: "sv_heap ?s p = Some c'" by (simp add: put_client_def)
  show ?case
  proof (cases r)
    case None
    then have t: "t = ?s" using "1.prems"(4) c e by (simp add: read_loop.simps [of p s] deref_def)
    with h "1.prems"(5) c f(11) have "cl_dead c' = cl_dead c" unfolding calm_def by blast
    from put_same_network [OF c u this] None e h show ?thesis
      by (simp add: t lines_run_def drain.simps [of c])
  next
    case (Some l)
    have d: "cl_dead c' = cl_dead c" using k(4) Some by simp
    have s: "server_inv ?s" by (rule put_client_wp(1) [OF "1.prems"(1) c k(1-3)])
    have cl: "clean l" using client_lines.extract_Some [of c l c'] e Some by simp
    have a: "active p ?s" using h d live f(10) by (simp add: active_def)
    from processLine_wp [OF s a cl] obtain s1 where
      s1: "processLine p l ?s = Some s1" "server_inv s1" "handled p ?s s1" by (auto elim: wpE)
    obtain c1 where c1: "sv_heap s1 p = Some c1" "cl_recvBuffer c1 = cl_recvBuffer c'"
      using handled_recvBuffer [OF s1(3) h] by blast
    let ?stop = "cl_dead c1 \<or> cl_closing c1"
    have t: "(if ?stop then Some s1 else read_loop p s1) = Some t"
      using "1.prems"(4) c e Some s1(1) c1(1) by (simp add: read_loop.simps [of p s] deref_def)
    have later: "ages s1 t"
    proof (cases ?stop)
      case False
      then have "active p s1" using c1 by (simp add: active_def)
      from read_loop_wp [OF s1(2) this] t False have "fed p s1 t" by (auto simp: wp_def)
      then show ?thesis by (rule touched_ages) (simp add: fed_client_iff input_client_def risen_client_def)
    qed (use t in \<open>simp add: ages_def option.rel_refl\<close>)
    note calm = calm_split [OF handled_ages [OF s1(3)] later calm_put [OF c d "1.prems"(5)]]
    have step: "network_of s1 = network_line p l (network_of s)"
      using processLine_refines [OF s a cl s1(1) calm(1)] put_same_network [OF c u d] by simp
    have live1: "\<not> cl_dead c1" using calm(1) h c1(1) d live unfolding calm_def by blast
    have lines: "fst (drain c) = l # fst (drain c')" "snd (drain c) = snd (drain c')"
      using e Some by (simp_all add: drain.simps [of c] case_prod_beta)
    show ?thesis
    proof (cases ?stop)
      case True
      then have "fold (network_line p) (fst (drain c')) (network_of s1) = network_of s1"
        using live1 by (intro network_line_leaving [of _ _ "user_of c1"]) (simp_all add: users_at [OF c1(1)])
      then show ?thesis using True t step lines live1 c1(1) by (simp add: lines_run_def)
    next
      case False
      then have "active p s1" using c1 by (simp add: active_def)
      from "1.IH" [OF _ e [symmetric] Some s1(1) _ False s1(2) this c1(1) _ calm(2)] c c1(1) t False
      have "lines_run p c1 s1 t" by (simp add: deref_def)
      then show ?thesis using step lines drain_buffer [OF c1(2)] by (simp add: lines_run_def)
    qed
  qed
qed

lemma read_refines:
  assumes i: "server_inv s" and f: "getClientByFd fd s = Some p" and c: "sv_heap s p = Some c"
    and live: "\<not> cl_dead c" "\<not> cl_closing c"
    and d: "d \<noteq> []" "length d \<le> 4096" and app: "appendToRecvBuffer d c = (True, c')"
    and t: "handleClientRead fd (Pending d) s = Some t" and calm: "calm s t"
  shows "lines_run p c' s t"
proof -
  note k = append_kept [OF app] and g = appendToRecvBuffer_fields [OF app]
  let ?s = "put_client p c' s"
  have s: "server_inv ?s" by (rule put_client_wp(1) [OF i c k])
  have a: "active p ?s" using live g by (simp add: active_def put_client_def)
  have "read_loop p ?s = Some t"
    using t f c live d app by (simp add: handleClientRead_def deref_def RECV_CHUNK_SIZE_def Let_def)
  moreover have "calm ?s t" by (rule calm_put [OF c g(11) calm])
  ultimately have "lines_run p c' ?s t"
    using read_loop_refines [OF s a] by (simp add: put_client_def)
  moreover have "user_of c' = user_of c" using g by (simp add: user_of_def)
  ultimately show ?thesis using put_same_network [OF c _ g(11)] by (simp add: lines_run_def)
qed

lemma closing_reads:
  assumes "getClientByFd fd s = Some p" and "sv_heap s p = Some c" and "cl_dead c \<or> cl_closing c"
  shows "for_each (\<lambda>d. handleClientRead fd (Pending d)) ds s = Some s"
  by (induction ds) (simp_all add: read_inactive [OF assms])

lemma append_fits:
  assumes split: "cl_recvBuffer c @ d = concat (map to_wire ls) @ r" "length r < MAX_IRC_MESSAGE_SIZE"
    and len: "length (cl_recvBuffer c) < MAX_IRC_MESSAGE_SIZE" "length d \<le> 4096"
  shows "appendToRecvBuffer d c = (True, c\<lparr>cl_recvBuffer := cl_recvBuffer c @ d\<rparr>)"
proof -
  have "length (cl_recvBuffer c) + length d \<le> MAX_RECV_BUFFER"
    using len by (simp add: MAX_RECV_BUFFER_def MAX_IRC_MESSAGE_SIZE_def)
  moreover have "LF \<notin> set (cl_recvBuffer c @ d) \<Longrightarrow> length (cl_recvBuffer c @ d) < MAX_IRC_MESSAGE_SIZE"
    using split by (cases ls) (auto simp: to_wire_def)
  ultimately show ?thesis by (auto simp: appendToRecvBuffer_def Let_def)
qed

text \<open>One client's bytes, in any number of reads.\<close>

definition reads :: "int \<Rightarrow> string list \<Rightarrow> server \<Rightarrow> server option" where
  "reads fd ds s = for_each (\<lambda>d. handleClientRead fd (Pending d)) ds s"

lemma serves_ages: "serves fd s t \<Longrightarrow> ages s t"
proof (cases "getClientByFd fd s")
  case None
  then show "serves fd s t \<Longrightarrow> ages s t" by (simp add: serves_def ages_def option.rel_refl)
next
  case (Some p)
  then show "serves fd s t \<Longrightarrow> ages s t"
    by (auto simp: serves_def input_client_def grown_client_def risen_client_def intro: touched_ages)
qed

lemma reads_wp: "server_inv s \<Longrightarrow> wp (reads fd ds s) (\<lambda>t. server_inv t \<and> ages s t)"
  unfolding reads_def
proof (rule for_each_wp [where I = "\<lambda>t. server_inv t \<and> ages s t"])
  fix d t
  assume t: "server_inv t \<and> ages s t"
  then show "wp (handleClientRead fd (Pending d) t) (\<lambda>u. server_inv u \<and> ages s u)"
    by (intro wp_mono [OF handleClientRead_wp]) (auto intro: ages_trans serves_ages)
qed (simp add: ages_def option.rel_refl)

lemma reads_refine:
  assumes "server_inv s" and "getClientByFd fd s = Some p" and "sv_heap s p = Some c"
    and "\<not> cl_dead c" "\<not> cl_closing c"
    and "list_all wire_line ls" and "concat (map to_wire ls) = cl_recvBuffer c @ concat ds"
    and "LF \<notin> set (cl_recvBuffer c)" and "length (cl_recvBuffer c) < MAX_IRC_MESSAGE_SIZE"
    and "\<forall>d \<in> set ds. d \<noteq> [] \<and> length d \<le> 4096"
    and "reads fd ds s = Some t" and "calm s t"
  shows "network_of t = fold (network_line p) ls (network_of s)"
  using assms
proof (induction ds arbitrary: s c ls)
  case Nil
  have "ls = []"
  proof (cases ls)
    case (Cons l ls')
    then have "LF \<in> set (concat (map to_wire ls))" by (simp add: to_wire_def)
    with Nil.prems(7,8) show ?thesis by simp
  qed
  with Nil.prems(11) show ?case by (simp add: reads_def)
next
  case (Cons d ds)
  note i = Cons.prems(1) and f = Cons.prems(2) and c = Cons.prems(3)
  have "concat (map to_wire ls) = (cl_recvBuffer c @ d) @ concat ds" using Cons.prems(7) by simp
  from wire_prefix_split [OF Cons.prems(6) this] obtain ls1 ls2 r where split:
    "ls = ls1 @ ls2" "cl_recvBuffer c @ d = concat (map to_wire ls1) @ r" "LF \<notin> set r"
    "length r < MAX_IRC_MESSAGE_SIZE" "concat (map to_wire ls2) = r @ concat ds"
    by blast
  have ls12: "list_all wire_line ls1" "list_all wire_line ls2" using Cons.prems(6) split(1) by simp_all
  have d: "d \<noteq> []" "length d \<le> 4096" using Cons.prems(10) by simp_all
  let ?c1 = "c\<lparr>cl_recvBuffer := cl_recvBuffer c @ d\<rparr>"
  note app = append_fits [OF split(2,4) Cons.prems(9) d(2)]
  from Cons.prems(11) obtain s1 where s1: "handleClientRead fd (Pending d) s = Some s1" "reads fd ds s1 = Some t"
    by (auto simp: reads_def split: Option.bind_splits)
  from handleClientRead_wp [OF i, of fd "Pending d"] s1(1) have s1i: "server_inv s1" "serves fd s s1" by (auto simp: wp_def)
  then have "served p s s1" using f by (simp add: serves_def)
  then have f1: "getClientByFd fd s1 = Some p" using f touched_fields(5) by (simp add: getClientByFd_def)
  have ages: "ages s s1" "ages s1 t"
    using serves_ages [OF s1i(2)] reads_wp [OF s1i(1), of fd ds] s1(2) by (auto simp: wp_def)
  note calm = calm_split [OF ages Cons.prems(12)]
  have run: "lines_run p ?c1 s s1" by (rule read_refines [OF i f c Cons.prems(4,5) d app s1(1) calm(1)])
  have dr: "fst (drain ?c1) = ls1" "cl_recvBuffer (snd (drain ?c1)) = r"
    using drain_wire [OF ls12(1), of ?c1 r] split(2,3) by simp_all
  have step: "network_of s1 = fold (network_line p) ls1 (network_of s)" using run dr(1) by (simp add: lines_run_def)
  from getClientByFd_wp [OF s1i(1) f1] obtain c1 where c1: "sv_heap s1 p = Some c1" by blast
  have live1: "\<not> cl_dead c1" using calm(1) c c1 Cons.prems(4) unfolding calm_def by blast
  show ?case
  proof (cases "cl_closing c1")
    case True
    then have "t = s1" using closing_reads [OF f1 c1] s1(2) by (simp add: reads_def)
    moreover have "fold (network_line p) ls2 (network_of s1) = network_of s1"
      using True by (intro network_line_leaving [of _ _ "user_of c1"]) (simp_all add: users_at [OF c1])
    ultimately show ?thesis using step split(1) by simp
  next
    case False
    then have buf: "cl_recvBuffer c1 = r" using run c1 dr(2) by (simp add: lines_run_def)
    from Cons.IH [OF s1i(1) f1 c1 live1 False ls12(2) _ _ _ _ s1(2) calm(2)] buf split(3-5) Cons.prems(10) step split(1)
    show ?thesis by simp
  qed
qed

section \<open>Coming and going\<close>

lemma forget_user_refines:
  assumes "distinct (ch_members ch)" "distinct (ch_operators ch)" "distinct (ch_invitedClients ch)"
  shows "room_of (removeInvited p (removeMember p ch)) = forget_user p (room_of ch)"
  using assms by (simp add: room_of_def forget_user_def removeInvited_def)

lemma forget_rooms:
  assumes "server_inv s"
  shows "map_option room_of (om_find n (forget_client p (sv_channels s))) = map_option (forget_user p) (rooms_of s n)"
  using forget_user_refines [OF inv_distinct [OF assms, of n]]
  by (cases "om_find n (sv_channels s)") (simp_all add: om_find_forget rooms_at)

text \<open>Who is left keeps its nickname.\<close>

lemma drop_names:
  assumes i: "server_inv s" "server_inv t" and gone: "sv_heap t p = None"
    and rest: "\<And>q. q \<noteq> p \<Longrightarrow> rel_option (\<lambda>c d. cl_nickname d = cl_nickname c \<and> cl_dead d = cl_dead c) (sv_heap s q) (sv_heap t q)"
  shows "names_of t = (\<lambda>k. if names_of s k = Some p then None else names_of s k)"
proof -
  have "names_of t k = Some q \<longleftrightarrow> (if names_of s k = Some p then None else names_of s k) = Some q" for k q
  proof (cases "q = p")
    case False
    from rest [OF False] have "names_of t k = Some q \<longleftrightarrow> names_of s k = Some q"
      by (cases rule: option.rel_cases) (auto simp: names_iff i)
    then show ?thesis using False by auto
  qed (use gone in \<open>auto simp: names_iff i\<close>)
  then show ?thesis by (metis ext not_Some_eq)
qed

lemma disconnect_refines:
  assumes i: "server_inv s" and f: "om_find fd (sv_clients s) = Some p"
    and t: "disconnectClient fd s = Some t" and calm: "calm s t"
  shows "network_of t = drop_user p (network_of s)"
proof -
  from getClientByFd_wp [OF i, of fd p] f obtain c where c: "sv_heap s p = Some c" by (auto simp: getClientByFd_def)
  let ?s1 = "if isRegistered c then queue (quit_message c) (neighbours p s) s else s"
  have t': "t = drop_client fd p c ?s1" using disconnect_eval [OF i f c] t by simp
  have st: "sent s ?s1" using queue_sent [OF neighbours_live [OF i]] by simp
  have it: "server_inv t" using disconnect_wp [OF i, of fd] t by (auto simp: wp_def)
  have rest: "rel_option sent_client (sv_heap s q) (sv_heap t q)" if "q \<noteq> p" for q
    using st that by (simp add: t' sent_def)
  have kept: "rel_option (\<lambda>c d. cl_nickname d = cl_nickname c \<and> cl_dead d = cl_dead c) (sv_heap s q) (sv_heap t q)" if "q \<noteq> p" for q
    using rest [OF that]
  proof cases
    case (Some a b)
    then have "cl_dead b = cl_dead a" using calm sent_client_fields(11) unfolding calm_def by blast
    with Some show ?thesis by (simp add: sent_client_fields)
  qed simp
  have "names_of t = (\<lambda>k. if names_of s k = Some p then None else names_of s k)"
    by (rule drop_names [OF i it _ kept]) (simp_all add: t')
  moreover have "users_of t = (users_of s)(p := None)"
  proof
    fix q
    show "users_of t q = ((users_of s)(p := None)) q"
    proof (cases "q = p")
      case False
      from rest [OF this] show ?thesis
        using False by cases (simp_all add: users_of_def user_of_def sent_client_fields)
    qed (simp add: users_of_def t')
  qed
  moreover have "rooms_of t = (\<lambda>n. map_option (forget_user p) (rooms_of s n))"
    using forget_rooms [OF i] sent_fields(6) [OF st] by (simp add: rooms_of_def t')
  moreover have "sv_password t = sv_password s" using sent_fields(2) [OF st] by (simp add: t')
  ultimately show ?thesis by (intro network.equality) (simp_all add: drop_user_def cong: if_cong)
qed

lemma accept_refines:
  assumes i: "server_inv s" and kernel: "\<And>fd nb ip m. r = Accepted fd nb ip m \<Longrightarrow> 0 \<le> fd \<and> fd \<notin> os_fds s"
    and t: "acceptNewClient r s = Some t"
  shows "network_of t = (if admits r s = None then network_of s else connect_user (sv_next s) (network_of s))"
proof (cases "admits r s")
  case None
  then show ?thesis using accept_eval [OF i kernel] t by simp
next
  case (Some e)
  obtain fd c where e: "e = (fd, c)" by (cases e)
  have t': "t = register_client fd c (s\<lparr>os_fds := insert fd (os_fds s)\<rparr>)"
    using accept_eval [OF i, of r, OF kernel] t Some e by simp
  obtain ip where c: "new_Client fd ip = Inr c"
    using Some e by (auto simp: admits_def split: accept_result.splits bool.splits option.splits memory.splits
        sum.splits if_splits)
  note new = new_Client_simps [OF c]
  have it: "server_inv t" using accept_wp [OF i, of r, OF kernel] t by (auto simp: wp_def)
  have heap: "sv_heap t = (sv_heap s)(sv_next s \<mapsto> c)" by (simp add: t' register_client_def)
  have fresh: "sv_heap s (sv_next s) = None"
    using invD(1) [OF i] by (auto simp: heap_inv_def dom_def)
  have "names_of t k = Some q \<longleftrightarrow> names_of s k = Some q" for k q
    using new(5) fresh by (auto simp: names_iff i it heap toIrcLowerCase_Nil_iff)
  then have "names_of t = names_of s" by (metis ext not_Some_eq)
  moreover have "user_of c = new_user" using c by (auto simp: new_Client_def user_of_def new_user_def split: if_splits)
  then have "users_of t = (users_of s)(sv_next s \<mapsto> new_user)" by (auto simp: users_of_def heap)
  moreover have "rooms_of t = rooms_of s" "sv_password t = sv_password s"
    by (simp_all add: rooms_of_def t' register_client_def)
  ultimately show ?thesis using Some by (intro network.equality) (simp_all add: connect_user_def)
qed

end
