(* ===== verification/Round_Refinement.thy ===== *)
theory Round_Refinement
  imports Network_Refinement Event_Loop
begin

text \<open>
  A whole round of the event loop (\<open>Server::run\<close>) does to the abstract network what \<open>round_events\<close>, read off
  the state at its start and the answers of the kernel, says, in the order of the poll vector; then the users who are
  leaving and for whom nothing is left to be written (\<open>drained\<close>) leave the network (\<open>close_round\<close>).
\<close>

section \<open>Reading and writing\<close>

text \<open>What a read tells the network.\<close>

definition read_events :: "cptr \<Rightarrow> client \<Rightarrow> recv_result \<Rightarrow> cptr event list" where
  "read_events p c received =
     (if cl_dead c \<or> cl_closing c then []
      else case received of
        RecvFailed e \<Rightarrow> []
      | Pending bytes \<Rightarrow>
          let chunk = take RECV_CHUNK_SIZE bytes in
          if chunk = [] then [Hung_up p]
          else map (Said p) (fst (drain (snd (appendToRecvBuffer chunk c)))))"

lemma said_fold: "fold network_event (map (Said p) ls) = fold (network_line p) ls"
  by (induction ls) (simp_all add: fun_eq_iff)

text \<open>A client that dies is not calm.\<close>

lemma calm_invoke:
  assumes "sv_heap s p = Some c" and "\<not> cl_dead c" and "invoke f p s = Some t" and "calm s t"
  shows "\<not> cl_dead (f c)"
proof
  assume d: "cl_dead (f c)"
  have "sv_heap t p = Some (f c)" using assms(1,3) by (auto simp: invoke_def deref_def)
  then show False using assms(1,2,4) d unfolding calm_def by blast
qed

lemma invoke_eval: "sv_heap s p = Some c \<Longrightarrow> invoke f p s = Some (put_client p (f c) s)"
  by (simp add: invoke_def deref_def put_client_def)

lemma invoke_network:
  assumes c: "sv_heap s p = Some c" and t: "invoke f p s = Some t" and calm: "calm s t"
    and u: "user_of (f c) = user_of c" and d: "cl_dead c \<Longrightarrow> cl_dead (f c)"
  shows "network_of t = network_of s"
proof -
  have "cl_dead (f c) = cl_dead c" using calm_invoke [OF c _ t calm] d by blast
  from put_same_network [OF c u this] show ?thesis using invoke_eval [OF c, of f] t by simp
qed

lemma hang_up_refines:
  assumes c: "sv_heap s p = Some c" and live: "\<not> cl_dead c" "\<not> cl_closing c"
  shows "network_of (put_client p (markClosing r c) s) = hang_up p (network_of s)"
proof -
  have "user_of (markClosing r c) = (user_of c)\<lparr>us_leaving := True\<rparr>"
    using live by (simp add: user_of_def markClosing_def)
  then show ?thesis
    using put_network [OF c, of "markClosing r c"] by (simp add: hang_up_def users_at [OF c])
qed

lemma read_chunk: "handleClientRead fd (Pending (take RECV_CHUNK_SIZE bytes)) s = handleClientRead fd (Pending bytes) s"
  by (simp add: handleClientRead_def cong: if_cong option.case_cong)

lemma read_events_refine:
  assumes i: "server_inv s" and f: "getClientByFd fd s = Some p" and c: "sv_heap s p = Some c"
    and t: "handleClientRead fd received s = Some t" and calm: "calm s t"
  shows "network_of t = fold network_event (read_events p c received) (network_of s)"
proof (cases "cl_dead c \<or> cl_closing c")
  case True
  then show ?thesis using t read_inactive [OF f c] by (simp add: read_events_def)
next
  case live: False
  show ?thesis
  proof (cases received)
    case (RecvFailed e)
    have "transient e"
    proof (rule ccontr)
      assume "\<not> transient e"
      then have "invoke (markDead (cat [''recv() failed: '', strerror e])) p s = Some t"
        using t f c live RecvFailed by (simp add: handleClientRead_def deref_def)
      from calm_invoke [OF c _ this calm] live show False by simp
    qed
    then show ?thesis using t f c live RecvFailed by (simp add: handleClientRead_def deref_def read_events_def)
  next
    case (Pending bytes)
    let ?chunk = "take RECV_CHUNK_SIZE bytes"
    show ?thesis
    proof (cases "?chunk = []")
      case True
      then have "t = put_client p (markClosing ''client closed the connection'' c) s"
        using t f c live Pending by (simp add: handleClientRead_def deref_def invoke_eval)
      then show ?thesis
        using hang_up_refines [OF c] live True Pending by (simp add: read_events_def)
    next
      case False
      obtain ok c' where app: "appendToRecvBuffer ?chunk c = (ok, c')" by (cases "appendToRecvBuffer ?chunk c")
      have ok
      proof (rule ccontr)
        assume "\<not> ok"
        let ?s = "put_client p c' s"
        have c': "sv_heap ?s p = Some c'" by (simp add: put_client_def)
        from \<open>\<not> ok\<close> have "invoke (markDead ''input flood: recv buffer overflow'') p ?s = Some t"
          using t f c live Pending False app by (simp add: handleClientRead_def deref_def Let_def)
        then have "sv_heap t p = Some (markDead ''input flood: recv buffer overflow'' c')"
          using invoke_eval [OF c'] by (auto simp: put_client_def)
        then show False using calm c live unfolding calm_def by (metis markDead_fields(12))
      qed
      moreover have "handleClientRead fd (Pending ?chunk) s = Some t"
        using t Pending by (simp add: read_chunk)
      ultimately have "lines_run p c' s t"
        using live False app by (intro read_refines [OF i f c _ _ _ _ _ _ calm]) (simp_all add: RECV_CHUNK_SIZE_def)
      then show ?thesis using live False Pending app by (simp add: lines_run_def read_events_def Let_def said_fold)
    qed
  qed
qed

lemma write_network:
  assumes f: "getClientByFd fd s = Some p" and c: "sv_heap s p = Some c"
    and t: "handleClientWrite fd r s = Some t" and calm: "calm s t"
  shows "network_of t = network_of s"
proof -
  have e: "handleClientWrite fd r s =
      (if cl_dead c \<or> cl_sendBuffer c = [] then Some s
       else case r of
         SendFailed e \<Rightarrow> if transient e then Some s
                          else invoke (markDead (cat [''send() failed: '', strerror e])) p s
       | Sent n \<Rightarrow> if n = 0 then invoke (markDead ''send() returned zero bytes'') p s
                    else invoke (consumeSendBuffer n \<circ> on_wire n) p s)"
    by (simp add: handleClientWrite_def f deref_def c)
  consider "t = s" | x where "invoke (markDead x) p s = Some t" | n where "invoke (consumeSendBuffer n \<circ> on_wire n) p s = Some t"
  proof (cases "cl_dead c \<or> cl_sendBuffer c = []")
    case True
    with e t that(1) show thesis by simp
  next
    case False
    note e' = e [unfolded if_not_P [OF False] t]
    show thesis
    proof (cases r)
      case (SendFailed x)
      then show thesis using e' [symmetric] that(1) that(2) by (cases "transient x") simp_all
    next
      case (Sent n)
      then show thesis using e' [symmetric] that(2) that(3) by (cases "n = 0") simp_all
    qed
  qed
  then show ?thesis
  proof cases
    case 2
    show ?thesis by (rule invoke_network [OF c 2 calm]) (simp_all add: user_of_def)
  next
    case 3
    show ?thesis by (rule invoke_network [OF c 3 calm]) (auto simp: user_of_def consumeSendBuffer_def)
  qed simp
qed

section \<open>Nobody is lost in a round\<close>

text \<open>As \<open>calm\<close>, for a round, in which a client may be new: whoever is dead at its end was dead before.\<close>

definition spared :: "server \<Rightarrow> server \<Rightarrow> bool" where
  "spared s t \<longleftrightarrow> (\<forall>q d. sv_heap t q = Some d \<longrightarrow> cl_dead d \<longrightarrow> (\<exists>c. sv_heap s q = Some c \<and> cl_dead c))"

definition grows :: "server \<Rightarrow> server \<Rightarrow> bool" where
  "grows s t \<longleftrightarrow> (\<forall>q c. sv_heap s q = Some c \<longrightarrow> (\<exists>d. sv_heap t q = Some d \<and> (cl_dead c \<longrightarrow> cl_dead d)))"

lemma grows_refl [simp]: "grows s s"
  by (simp add: grows_def)

lemma grows_trans: "grows s t \<Longrightarrow> grows t u \<Longrightarrow> grows s u"
  unfolding grows_def by meson

lemma ages_grows: "ages s t \<Longrightarrow> grows s t"
  unfolding grows_def
proof (intro allI impI)
  fix q c
  assume "ages s t" and c: "sv_heap s q = Some c"
  then have "rel_option (\<lambda>c d. cl_dead c \<longrightarrow> cl_dead d) (Some c) (sv_heap t q)" unfolding ages_def by metis
  then show "\<exists>d. sv_heap t q = Some d \<and> (cl_dead c \<longrightarrow> cl_dead d)" by (simp add: option_rel_Some1)
qed

lemma spared_calm: "spared s t \<Longrightarrow> calm s t"
  unfolding spared_def calm_def by fastforce

lemma spared_split:
  assumes "grows s t" and "grows t u" and "spared s u"
  shows "spared s t" and "spared t u"
  using assms unfolding grows_def spared_def by meson+

lemma admitted_grows:
  assumes "server_inv s" and "admitted fd ip s t"
  shows "grows s t"
proof -
  have "sv_heap s (sv_next s) = None" using invD(1) [OF assms(1)] by (auto simp: heap_inv_def dom_def)
  then show ?thesis using assms(2) by (auto simp: grows_def admitted_def register_client_def)
qed

section \<open>One entry of the poll vector\<close>

definition entry_events :: "environment \<Rightarrow> server \<Rightarrow> pollfd \<Rightarrow> cptr event list" where
  "entry_events env s e =
     (if \<not> has_event (pfd_revents e) POLLIN then []
      else if pfd_fd e = sv_listenFd s
      then (case admits (en_accept env) s of None \<Rightarrow> [] | Some _ \<Rightarrow> [Came (sv_next s)])
      else case getClientByFd (pfd_fd e) s of
        None \<Rightarrow> []
      | Some p \<Rightarrow> (case sv_heap s p of
                    None \<Rightarrow> []
                  | Some c \<Rightarrow> read_events p c (en_recv env (pfd_fd e))))"

lemma no_events [simp]: "\<not> has_event 0 x"
  by (simp add: has_event_def)

lemma serve_client_parts:
  assumes "serve_fd env fd returned s = Some (Inr t)" and "fd \<noteq> sv_listenFd s"
  obtains s1 s2 where
    "(if has_event returned POLLIN then handleClientRead fd (en_recv env fd) s else Some s) = Some s1"
    "(if has_event returned POLLOUT then handleClientWrite fd (en_send env fd) s1 else Some s1) = Some s2"
    "t = s2 \<or> (\<exists>p x. getClientByFd fd s2 = Some p \<and> invoke (markDead x) p s2 = Some t)"
proof -
  obtain s1 where s1: "(if has_event returned POLLIN then handleClientRead fd (en_recv env fd) s else Some s) = Some s1"
    using assms unfolding serve_fd_def if_not_P [OF assms(2)] by (auto split: Option.bind_splits)
  obtain s2 where s2: "(if has_event returned POLLOUT then handleClientWrite fd (en_send env fd) s1 else Some s1) = Some s2"
    using assms(1) unfolding serve_fd_def if_not_P [OF assms(2)] s1 by (auto split: Option.bind_splits)
  have "t = s2 \<or> (\<exists>p x. getClientByFd fd s2 = Some p \<and> invoke (markDead x) p s2 = Some t)"
    using assms(1) unfolding serve_fd_def if_not_P [OF assms(2)] s1 Option.bind.bind_lunit s2 Option.bind.bind_lunit
    by (auto split: if_splits option.splits Option.bind_splits)
  with s1 s2 show thesis by (rule that)
qed

lemma serve_client_refines:
  assumes i: "server_inv s" and fd: "fd \<noteq> sv_listenFd s"
    and t: "serve_fd env fd returned s = Some (Inr t)" and calm: "calm s t"
    and e: "pfd_fd e = fd" "pfd_revents e = returned"
  shows "network_of t = fold network_event (entry_events env s e) (network_of s)"
proof -
  obtain s1 s2 where
    s1: "(if has_event returned POLLIN then handleClientRead fd (en_recv env fd) s else Some s) = Some s1"
    and s2: "(if has_event returned POLLOUT then handleClientWrite fd (en_send env fd) s1 else Some s1) = Some s2"
    and t': "t = s2 \<or> (\<exists>p x. getClientByFd fd s2 = Some p \<and> invoke (markDead x) p s2 = Some t)"
    using serve_client_parts [OF t fd] .
  have i1: "server_inv s1" "serves fd s s1"
    using handleClientRead_wp [OF i, of fd "en_recv env fd"] s1 i by (auto simp: wp_def split: if_splits)
  have i2: "server_inv s2" "serves fd s1 s2"
    using handleClientWrite_wp [OF i1(1), of fd "en_send env fd"] s2 i1(1) by (auto simp: wp_def split: if_splits)
  have same: "getClientByFd fd s1 = getClientByFd fd s" "getClientByFd fd s2 = getClientByFd fd s"
    using serves_fields(1) [OF i1(2)] serves_fields(1) [OF i2(2)] by (simp_all add: getClientByFd_def)
  show ?thesis
  proof (cases "getClientByFd fd s")
    case None
    then have "s1 = s" "s2 = s1" "t = s2" using i1(2) i2(2) t' same by (auto simp: serves_def)
    then show ?thesis using None fd e by (simp add: entry_events_def)
  next
    case (Some p)
    have live: "\<exists>c. sv_heap u p = Some c" if "server_inv u" "getClientByFd fd u = getClientByFd fd s" for u
      using getClientByFd_wp [OF that(1), of fd p] that(2) Some by auto
    obtain c where c: "sv_heap s p = Some c" using live [OF i] by blast
    obtain c1 where c1: "sv_heap s1 p = Some c1" using live [OF i1(1) same(1)] by blast
    obtain c2 where c2: "sv_heap s2 p = Some c2" using live [OF i2(1) same(2)] by blast
    have t2: "t = s2 \<or> (\<exists>x. invoke (markDead x) p s2 = Some t)" using t' same Some by auto
    have a: "ages s s1" "ages s1 s2" by (rule serves_ages [OF i1(2)], rule serves_ages [OF i2(2)])
    have "ages s2 t"
      using t2 invoke_eval [OF c2] c2
      by (auto simp: ages_def put_client_def option.rel_refl)
    note calm2 = calm_split [OF ages_trans [OF a] this calm]
    note calm1 = calm_split [OF a calm2(1)]
    have "network_of t = network_of s2"
      using t2 invoke_network [OF c2 _ calm2(2)] by (auto simp: user_of_def)
    moreover have "network_of s2 = network_of s1"
      using s2 write_network [OF _ c1 _ calm1(2)] same(1) Some by (cases "has_event returned POLLOUT") auto
    moreover have "network_of s1 = fold network_event (entry_events env s e) (network_of s)"
      using s1 read_events_refine [OF i Some c _ calm1(1)] Some c fd e
      by (cases "has_event returned POLLIN") (auto simp: entry_events_def)
    ultimately show ?thesis by simp
  qed
qed

section \<open>The other entries\<close>

lemma append_same:
  assumes "cl_recvBuffer d = cl_recvBuffer c"
  shows "cl_recvBuffer (snd (appendToRecvBuffer x d)) = cl_recvBuffer (snd (appendToRecvBuffer x c))"
  using assms by (simp add: appendToRecvBuffer_def Let_def)

lemma read_events_same:
  assumes "cl_dead d = cl_dead c" "cl_closing d = cl_closing c" "cl_recvBuffer d = cl_recvBuffer c"
  shows "read_events p d r = read_events p c r"
proof -
  have "fst (drain (snd (appendToRecvBuffer x d))) = fst (drain (snd (appendToRecvBuffer x c)))" for x
    by (rule drain_buffer(1) [OF append_same [OF assms(3)]])
  then show ?thesis using assms by (simp add: read_events_def Let_def split: recv_result.splits)
qed

lemma load_same:
  assumes "sv_clients t = sv_clients s"
    and "\<And>q. rel_option (\<lambda>c d. cl_ip d = cl_ip c \<and> cl_dead d = cl_dead c) (sv_heap s q) (sv_heap t q)"
  shows "ip_load ip t = ip_load ip s"
proof -
  have "from_ip ip t q = from_ip ip s q" for q
    using assms(2) [of q] by cases (auto simp: from_ip_def)
  then have "from_ip ip t = from_ip ip s" by blast
  then show ?thesis using assms(1) by (simp add: ip_load_def)
qed

lemma served_calm:
  assumes h: "served p s t" and calm: "calm s t"
  shows "rel_option (\<lambda>c d. cl_ip d = cl_ip c \<and> cl_dead d = cl_dead c) (sv_heap s q) (sv_heap t q)"
    and "q \<noteq> p \<Longrightarrow> rel_option (\<lambda>c d. cl_dead d = cl_dead c \<and> cl_closing d = cl_closing c \<and>
           cl_recvBuffer d = cl_recvBuffer c) (sv_heap s q) (sv_heap t q)"
proof -
  have r: "rel_option (if q = p then input_client else sent_client) (sv_heap s q) (sv_heap t q)"
    using h by (simp add: touched_def)
  have d: "cl_dead d \<Longrightarrow> cl_dead c" if "sv_heap s q = Some c" "sv_heap t q = Some d" for c d
    using calm that unfolding calm_def by blast
  show "rel_option (\<lambda>c d. cl_ip d = cl_ip c \<and> cl_dead d = cl_dead c) (sv_heap s q) (sv_heap t q)"
    using r
  proof cases
    case (Some c e)
    have "(cl_dead c \<longrightarrow> cl_dead e) \<and> cl_ip e = cl_ip c"
    proof (cases "q = p")
      case True
      then show ?thesis using Some(3) by (simp add: input_client_def grown_client_def risen_client_def)
    next
      case False
      then have "sent_client c e" using Some(3) by simp
      from sent_client_fields [OF this] show ?thesis by simp
    qed
    then have "cl_dead e = cl_dead c" "cl_ip e = cl_ip c" using d [OF Some(1,2)] by blast+
    then show ?thesis by (simp add: Some(1,2))
  qed simp
  show "rel_option (\<lambda>c d. cl_dead d = cl_dead c \<and> cl_closing d = cl_closing c \<and>
           cl_recvBuffer d = cl_recvBuffer c) (sv_heap s q) (sv_heap t q)" if "q \<noteq> p"
    using r
  proof cases
    case (Some c e)
    then have "sent_client c e" using that by simp
    note f = sent_client_fields [OF this]
    from f have "cl_dead e = cl_dead c" using d [OF Some(1,2)] by blast
    then show ?thesis using f by (simp add: Some(1,2))
  qed simp
qed

lemma served_entry:
  assumes i: "server_inv s" and h: "serves fd s t" and calm: "calm s t" and ne: "pfd_fd e \<noteq> fd"
  shows "entry_events env t e = entry_events env s e"
proof (cases "getClientByFd fd s")
  case None
  then show ?thesis using h by (simp add: serves_def)
next
  case (Some p)
  then have h': "served p s t" using h by (simp add: serves_def)
  note f = touched_fields [OF h']
  have adm: "admits r t = admits r s" for r
    using load_same [OF f(5) served_calm(1) [OF h' calm]] f(5) by (simp add: admits_def cong: if_cong accept_result.case_cong bool.case_cong option.case_cong memory.case_cong)
  have client: "(case sv_heap t q of None \<Rightarrow> [] | Some c \<Rightarrow> read_events q c r) =
      (case sv_heap s q of None \<Rightarrow> [] | Some c \<Rightarrow> read_events q c r)"
    if "getClientByFd (pfd_fd e) s = Some q" for q r
  proof -
    have "q \<noteq> p"
      using getClientByFd_wp [OF i that] getClientByFd_wp [OF i Some] ne by auto
    from served_calm(2) [OF h' calm this] show ?thesis
    proof cases
      case (Some c d)
      then have "read_events q d r = read_events q c r" by (intro read_events_same) simp_all
      then show ?thesis by (simp add: Some(1,2))
    qed simp
  qed
  have "getClientByFd (pfd_fd e) t = getClientByFd (pfd_fd e) s" using f(5) by (simp add: getClientByFd_def)
  then show ?thesis
    unfolding entry_events_def adm f(3,7) using client by (cases "getClientByFd (pfd_fd e) s") simp_all
qed

lemma admitted_entry:
  assumes i: "server_inv s" and a: "admitted fd ip s t" and ne: "pfd_fd e \<noteq> sv_listenFd s" "pfd_fd e \<noteq> fd"
  shows "entry_events env t e = entry_events env s e"
proof -
  have fresh: "sv_heap s (sv_next s) = None" using invD(1) [OF i] by (auto simp: heap_inv_def dom_def)
  have f: "sv_listenFd t = sv_listenFd s" "getClientByFd (pfd_fd e) t = getClientByFd (pfd_fd e) s"
    using a ne by (auto simp: admitted_def register_client_def getClientByFd_def)
  have "sv_heap t q = sv_heap s q" if "getClientByFd (pfd_fd e) s = Some q" for q
    using getClientByFd_wp [OF i that] fresh a by (auto simp: admitted_def register_client_def)
  then show ?thesis using f ne by (simp add: entry_events_def split: option.splits)
qed

section \<open>All entries\<close>

lemma serve_step_grows:
  assumes i: "server_inv s"
    and post: "if fd = sv_listenFd s then t = s \<or> (\<exists>fd ip. admitted fd ip s t) else serves fd s t"
  shows "grows s t"
  using post admitted_grows [OF i] ages_grows [OF serves_ages] by (auto split: if_splits)

lemma serve_loop_grows:
  "round_inv env i s \<Longrightarrow> serve_loop env i s = Some (Inr t) \<Longrightarrow> grows s t"
proof (induction env i s rule: serve_loop.induct)
  case (1 env i s)
  have si: "server_inv s" using "1.prems"(1) by (simp add: round_inv_def)
  show ?case
  proof (cases "i < length (sv_pollFds s)")
    case False
    then show ?thesis using "1.prems"(2) by (simp add: serve_loop.simps [of env i s])
  next
    case i: True
    show ?thesis
    proof (cases "pfd_revents (sv_pollFds s ! i) = 0")
      case True
      then have "serve_loop env (Suc i) s = Some (Inr t)" using "1.prems"(2) i by (simp add: serve_loop.simps [of env i s])
      then show ?thesis by (rule "1.IH"(1) [OF i True round_inv_next [OF "1.prems"(1) i si refl refl refl]])
    next
      case ev: False
      from serve_step_wp [OF "1.prems"(1) i ev] obtain r where
        r: "serve_fd env (pfd_fd (sv_pollFds s ! i)) (pfd_revents (sv_pollFds s ! i)) s = Some r"
        and post: "\<And>u. r = Inr u \<Longrightarrow> round_inv env (Suc i) u \<and>
          (if pfd_fd (sv_pollFds s ! i) = sv_listenFd s then u = s \<or> (\<exists>fd ip. admitted fd ip s u)
           else serves (pfd_fd (sv_pollFds s ! i)) s u)"
        by (auto elim!: wpE split: sum.splits)
      obtain u where u: "r = Inr u" "serve_loop env (Suc i) u = Some (Inr t)"
        using "1.prems"(2) r i ev by (cases r) (simp_all add: serve_loop.simps [of env i s])
      have "grows s u" by (rule serve_step_grows [OF si]) (use post [OF u(1)] in blast)
      moreover have "grows u t" using "1.IH"(2) [OF i ev r u(1) _ u(2)] post [OF u(1)] by blast
      ultimately show ?thesis by (rule grows_trans)
    qed
  qed
qed

lemma serve_entry_refines:
  assumes r: "round_inv env i s" and i: "i < length (sv_pollFds s)"
    and ev: "pfd_revents (sv_pollFds s ! i) \<noteq> 0" and calm: "calm s t"
    and t: "serve_fd env (pfd_fd (sv_pollFds s ! i)) (pfd_revents (sv_pollFds s ! i)) s = Some (Inr t)"
  shows "network_of t = fold network_event (entry_events env s (sv_pollFds s ! i)) (network_of s)"
proof (cases "pfd_fd (sv_pollFds s ! i) = sv_listenFd s")
  case False
  have si: "server_inv s" using r by (simp add: round_inv_def)
  show ?thesis by (rule serve_client_refines [OF si False t calm refl refl])
next
  case True
  have si: "server_inv s" using r by (simp add: round_inv_def)
  have k: "kernel_ok env s" using r True i unfolding round_inv_def by blast
  have p: "has_event (pfd_revents (sv_pollFds s ! i)) POLLIN" and a: "acceptNewClient (en_accept env) s = Some t"
    using t True by (auto simp: serve_fd_def split: if_splits Option.bind_splits)
  have "network_of t = (if admits (en_accept env) s = None then network_of s else connect_user (sv_next s) (network_of s))"
    by (rule accept_refines [OF si _ a]) (use k in \<open>simp add: kernel_ok_def\<close>)
  then show ?thesis using True p by (auto simp: entry_events_def split: option.splits)
qed

lemma later_entry:
  assumes "distinct (map pfd_fd es)" and "i < length es" and "e \<in> set (drop (Suc i) es)"
  shows "pfd_fd e \<noteq> pfd_fd (es ! i)"
proof -
  have "distinct (map pfd_fd (drop i es))" using assms(1) by (simp add: drop_map [symmetric])
  then have "distinct (map pfd_fd (es ! i # drop (Suc i) es))" using assms(2) by (simp add: Cons_nth_drop_Suc)
  then have "pfd_fd (es ! i) \<notin> set (map pfd_fd (drop (Suc i) es))" by simp
  then show ?thesis using assms(3) by (metis image_eqI set_map)
qed

lemma later_events:
  assumes s: "server_inv s" and u: "server_inv u" and i: "i < length (sv_pollFds s)" and calm: "calm s u"
    and post: "if pfd_fd (sv_pollFds s ! i) = sv_listenFd s then u = s \<or> (\<exists>fd ip. admitted fd ip s u)
           else serves (pfd_fd (sv_pollFds s ! i)) s u"
  shows "concat (map (entry_events env u) (drop (Suc i) (sv_pollFds u))) =
    concat (map (entry_events env s) (drop (Suc i) (sv_pollFds s)))"
proof -
  note later = later_entry [OF poll_distinct [OF s] i]
  consider "u = s" | fd ip where "pfd_fd (sv_pollFds s ! i) = sv_listenFd s" "admitted fd ip s u"
    | "serves (pfd_fd (sv_pollFds s ! i)) s u"
    using post by (auto split: if_splits)
  then show ?thesis
  proof cases
    case (2 fd ip)
    have polls: "sv_pollFds u = sv_pollFds s @ [\<lparr>pfd_fd = fd, pfd_events = POLLIN, pfd_revents = 0\<rparr>]"
      using 2(2) by (auto simp: admitted_def register_client_def)
    have "pfd_fd e \<noteq> fd" if "e \<in> set (sv_pollFds s)" for e
      using poll_distinct [OF u] that by (auto simp: polls)
    then have "entry_events env u e = entry_events env s e" if "e \<in> set (drop (Suc i) (sv_pollFds s))" for e
      using admitted_entry [OF s 2(2)] later [OF that] 2(1) in_set_dropD [OF that] by simp
    moreover have "entry_events env u \<lparr>pfd_fd = fd, pfd_events = POLLIN, pfd_revents = 0\<rparr> = []"
      by (simp add: entry_events_def)
    ultimately show ?thesis using i by (simp add: polls cong: map_cong)
  next
    case 3
    have "entry_events env u e = entry_events env s e" if "e \<in> set (drop (Suc i) (sv_pollFds s))" for e
      by (rule served_entry [OF s 3 calm later [OF that]])
    then show ?thesis using serves_fields(4) [OF 3] by (simp cong: map_cong)
  qed simp
qed

lemma serve_loop_refines:
  "round_inv env i s \<Longrightarrow> serve_loop env i s = Some (Inr t) \<Longrightarrow> spared s t \<Longrightarrow>
   network_of t = fold network_event (concat (map (entry_events env s) (drop i (sv_pollFds s)))) (network_of s)"
proof (induction env i s rule: serve_loop.induct)
  case (1 env i s)
  have si: "server_inv s" using "1.prems"(1) by (simp add: round_inv_def)
  show ?case
  proof (cases "i < length (sv_pollFds s)")
    case False
    then show ?thesis using "1.prems"(2) by (simp add: serve_loop.simps [of env i s])
  next
    case i: True
    let ?e = "sv_pollFds s ! i"
    have split: "drop i (sv_pollFds s) = ?e # drop (Suc i) (sv_pollFds s)" using i by (simp add: Cons_nth_drop_Suc)
    show ?thesis
    proof (cases "pfd_revents ?e = 0")
      case True
      then have t: "serve_loop env (Suc i) s = Some (Inr t)" using "1.prems"(2) i by (simp add: serve_loop.simps [of env i s])
      have "entry_events env s ?e = []" using True by (simp add: entry_events_def)
      then show ?thesis
        using "1.IH"(1) [OF i True round_inv_next [OF "1.prems"(1) i si refl refl refl] t "1.prems"(3)] by (simp add: split)
    next
      case ev: False
      from serve_step_wp [OF "1.prems"(1) i ev] obtain r where
        r: "serve_fd env (pfd_fd ?e) (pfd_revents ?e) s = Some r"
        and post: "\<And>u. r = Inr u \<Longrightarrow> round_inv env (Suc i) u \<and>
          (if pfd_fd ?e = sv_listenFd s then u = s \<or> (\<exists>fd ip. admitted fd ip s u) else serves (pfd_fd ?e) s u)"
        by (auto elim!: wpE split: sum.splits)
      obtain u where u: "r = Inr u" "serve_loop env (Suc i) u = Some (Inr t)"
        using "1.prems"(2) r i ev by (cases r) (simp_all add: serve_loop.simps [of env i s])
      have post': "if pfd_fd ?e = sv_listenFd s then u = s \<or> (\<exists>fd ip. admitted fd ip s u) else serves (pfd_fd ?e) s u"
        and ri: "round_inv env (Suc i) u" using post [OF u(1)] by blast+
      note spared = spared_split [OF serve_step_grows [OF si post'] serve_loop_grows [OF ri u(2)] "1.prems"(3)]
      have "network_of u = fold network_event (entry_events env s ?e) (network_of s)"
        by (rule serve_entry_refines [OF "1.prems"(1) i ev spared_calm [OF spared(1)] r [unfolded u(1)]])
      moreover have "server_inv u" using ri by (simp add: round_inv_def)
      ultimately show ?thesis
        using "1.IH"(2) [OF i ev r u(1) ri u(2) spared(2)] later_events [OF si _ i spared_calm [OF spared(1)] post']
        by (simp add: split)
    qed
  qed
qed

section \<open>Reaping\<close>

definition owners :: "int list \<Rightarrow> server \<Rightarrow> cptr set" where
  "owners fds s = {p. \<exists>fd \<in> set fds. om_find fd (sv_clients s) = Some p}"

lemma disconnects_refine:
  assumes "server_inv s" and "for_each disconnectClient fds s = Some t" and "calm s t"
    and "\<And>p c. p \<in> owners fds s \<Longrightarrow> sv_heap s p = Some c \<Longrightarrow> cl_dead c"
  shows "network_of t = drop_users (owners fds s) (network_of s)"
  using assms
proof (induction fds arbitrary: s)
  case Nil
  then show ?case by (simp add: owners_def drop_nobody)
next
  case (Cons fd fds)
  obtain u where u: "disconnectClient fd s = Some u" "for_each disconnectClient fds u = Some t"
    using Cons.prems(2) by (auto split: Option.bind_splits)
  have su: "server_inv u" "outlives {fd} s u" using disconnect_wp [OF Cons.prems(1), of fd] u(1) by (auto simp: wp_def)
  have ut: "server_inv t" "outlives (set fds) u t" using disconnect_all_wp [OF su(1), of fds] u(2) by (auto simp: wp_def)
  have later: "owners fds u \<subseteq> owners (fd # fds) s"
    using su(2) by (auto simp: owners_def outlives_def split: if_splits)
  have from_s: "\<exists>c. sv_heap s q = Some c \<and> sent_client c d" if "sv_heap u q = Some d" for q d
    using su(2) that by (simp add: outlives_def)
  have dies: "cl_dead d" if "q \<in> owners fds u" "sv_heap u q = Some d" for q d
    using from_s [OF that(2)] Cons.prems(4) [of q] that(1) later sent_client_fields(11) by blast
  have gone: "q \<in> owners fds u" if q: "sv_heap u q = Some d" "sv_heap t q = None" for q d
  proof -
    obtain f where f: "om_find f (sv_clients u) = Some q"
      using no_entry_no_object [OF su(1), of q] q(1) by fastforce
    have "f \<in> set fds"
    proof (rule ccontr)
      assume "f \<notin> set fds"
      then have "om_find f (sv_clients t) = Some q" using ut(2) f by (simp add: outlives_def)
      then show False using getClientByFd_wp [OF ut(1), of f q] q(2) by (simp add: getClientByFd_def)
    qed
    then show ?thesis using f by (auto simp: owners_def)
  qed
  have su_calm: "calm s u"
    unfolding calm_def
  proof (intro allI impI)
    fix q x y
    assume h: "sv_heap s q = Some x" "sv_heap u q = Some y" "cl_dead y"
    show "cl_dead x"
    proof (cases "sv_heap t q")
      case None
      then have "q \<in> owners (fd # fds) s" using gone [OF h(2)] later by blast
      then show ?thesis using Cons.prems(4) h(1) by blast
    next
      case (Some z)
      obtain y' where "sv_heap u q = Some y'" "sent_client y' z" using ut(2) Some unfolding outlives_def by blast
      then have "cl_dead z" using h(2,3) sent_client_fields(11) by fastforce
      then show ?thesis using Cons.prems(3) h(1) Some unfolding calm_def by blast
    qed
  qed
  have ut_calm: "calm u t"
    unfolding calm_def
  proof (intro allI impI)
    fix q y z
    assume h: "sv_heap u q = Some y" "sv_heap t q = Some z" "cl_dead z"
    obtain x where x: "sv_heap s q = Some x" "sent_client x y" using from_s [OF h(1)] by blast
    then have "cl_dead x" using Cons.prems(3) h(2,3) unfolding calm_def by blast
    then show "cl_dead y" using sent_client_fields(11) [OF x(2)] by blast
  qed
  show ?case
  proof (cases "om_find fd (sv_clients s)")
    case None
    then have "u = s" using u(1) by (simp add: disconnectClient_def)
    moreover have "owners (fd # fds) s = owners fds s" using None by (simp add: owners_def)
    ultimately show ?thesis using Cons.IH [OF Cons.prems(1)] u(2) Cons.prems(3,4) by simp
  next
    case (Some p)
    have "network_of u = drop_users {p} (network_of s)"
      using disconnect_refines [OF Cons.prems(1) Some u(1) su_calm] by (simp add: drop_user_users)
    moreover have "network_of t = drop_users (owners fds u) (network_of u)"
      by (rule Cons.IH [OF su(1) u(2) ut_calm dies])
    moreover have "om_find f (sv_clients u) = (if f = fd then None else om_find f (sv_clients s))" for f
      using su(2) by (simp add: outlives_def)
    then have "owners (fd # fds) s = owners fds u \<union> {p}"
      using Some by (auto simp: owners_def split: if_splits) (metis option.inject)
    ultimately show ?thesis by (simp add: drop_users_twice)
  qed
qed

lemma room_present:
  assumes i: "server_inv s" and ch: "om_find n (sv_channels s) = Some ch"
  shows "forget_users (- dom (sv_heap s)) (room_of ch) = room_of ch"
proof -
  have "set (ch_members ch) \<subseteq> dom (sv_heap s)" "set (ch_operators ch) \<subseteq> dom (sv_heap s)"
    "set (ch_invitedClients ch) \<subseteq> dom (sv_heap s)"
    using inv_channel [OF i ch] by (auto simp: chan_wf_def reg_ptrs_def)
  then show ?thesis by (auto simp: forget_users_def intro!: room.equality)
qed

text \<open>Dropping who is not there changes nothing.\<close>

lemma drop_absent:
  assumes i: "server_inv s"
  shows "drop_users (- dom (sv_heap s)) (network_of s) = network_of s"
proof -
  let ?P = "- dom (sv_heap s)"
  have "users_of s p = None" if "p \<notin> dom (sv_heap s)" for p
    using that by (auto simp: users_of_def)
  moreover have "(case names_of s k of None \<Rightarrow> None | Some p \<Rightarrow> if p \<in> ?P then None else Some p) = names_of s k" for k
    using names_iff [OF i, of k] by (cases "names_of s k") auto
  moreover have "map_option (forget_users ?P) (rooms_of s n) = rooms_of s n" for n
    using room_present [OF i] by (cases "om_find n (sv_channels s)") (simp_all add: rooms_at)
  ultimately show ?thesis by (intro network.equality) (simp_all add: drop_users_def fun_eq_iff network_of_def)
qed

lemma settle_user: "user_of (settle c) = user_of c"
  by (simp add: settle_def user_of_def)

lemma settled_drop:
  assumes i: "server_inv s" and u: "u = settled (dom (sv_heap s)) s"
    and P: "\<And>p c. sv_heap s p = Some c \<Longrightarrow> leaving c \<Longrightarrow> p \<in> P"
  shows "drop_users P (network_of u) = drop_users P (network_of s)"
proof -
  have iu: "server_inv u" unfolding u by (rule settled_inv [OF i])
  have heap: "sv_heap u q = map_option settle (sv_heap s q)" for q
    by (cases "sv_heap s q") (auto simp: u settled_def)
  have "users_of u = users_of s"
    by (auto simp: users_of_def heap fun_eq_iff option.map_comp comp_def settle_user)
  moreover have "rooms_of u = rooms_of s" "sv_password u = sv_password s" by (simp_all add: u settled_def rooms_of_def)
  moreover have "names_of u k = Some q \<longleftrightarrow> names_of s k = Some q" if "q \<notin> P" for k q
  proof (cases "sv_heap s q")
    case (Some c)
    then have "cl_dead (settle c) \<longleftrightarrow> cl_dead c" using P [OF Some] that by (auto simp: leaving_def)
    then show ?thesis using Some by (simp add: names_iff i iu heap settle_kept)
  qed (simp add: names_iff i iu heap)
  then have "(case names_of u k of None \<Rightarrow> None | Some p \<Rightarrow> if p \<in> P then None else Some p) =
      (case names_of s k of None \<Rightarrow> None | Some p \<Rightarrow> if p \<in> P then None else Some p)" for k
    by (simp split: option.splits) (metis option.distinct(1) option.inject)
  ultimately show ?thesis by (intro network.equality) (simp_all add: drop_users_def network_of_def cong: if_cong)
qed

lemma reap_refines:
  assumes i: "server_inv s" and t: "reapDeadClients s = Some t" and calm: "calm s t"
  shows "network_of t = drop_users (- dom (sv_heap t)) (network_of s)"
proof -
  let ?u = "settled (dom (sv_heap s)) s"
  let ?P = "owners (leavers s) ?u"
  have own: "snd ` set (sv_clients s) = dom (sv_heap s)" and d: "distinct (map snd (sv_clients s))"
    using invD(1) [OF i] by (simp_all add: heap_inv_def)
  have iu: "server_inv ?u" by (rule settled_inv [OF i])
  have t': "for_each disconnectClient (leavers s) ?u = Some t"
    using t reap_mark_eq [OF d inv_entries_live [OF i]] by (simp add: reapDeadClients_def leavers_def own)
  have heap: "sv_heap ?u q = map_option settle (sv_heap s q)" for q
    by (cases "sv_heap s q") (auto simp: settled_def)
  have entry: "\<exists>fd. om_find fd (sv_clients s) = Some p" if "sv_heap s p = Some c" for p c
    using no_entry_no_object [OF i, of p] that by fastforce
  have P: "p \<in> ?P \<longleftrightarrow> leaving c" if c: "sv_heap s p = Some c" for p c
    using leaver_iff [OF i _ c] entry [OF c] by (auto simp: owners_def settled_def)
  have dead: "cl_dead c" if p: "p \<in> ?P" "sv_heap ?u p = Some c" for p c
    using P [of p] p heap by auto
  have "calm ?u t"
    unfolding calm_def
  proof (intro allI impI)
    fix q x z
    assume h: "sv_heap ?u q = Some x" "sv_heap t q = Some z" "cl_dead z"
    then obtain c where "sv_heap s q = Some c" "x = settle c" using heap by auto
    moreover from this(1) h have "cl_dead c" using calm unfolding calm_def by blast
    ultimately show "cl_dead x" by (simp add: leaving_def)
  qed
  from disconnects_refine [OF iu t' this dead] have "network_of t = drop_users ?P (network_of ?u)" .
  also have "\<dots> = drop_users ?P (drop_users (- dom (sv_heap s)) (network_of s))"
    using settled_drop [OF i refl, of ?P] P drop_absent [OF i] by simp
  also have "\<dots> = drop_users (?P \<union> - dom (sv_heap s)) (network_of s)" by (rule drop_users_twice)
  also have "?P \<union> - dom (sv_heap s) = - dom (sv_heap t)"
  proof -
    have "p \<in> ?P \<union> - dom (sv_heap s) \<longleftrightarrow> p \<in> - dom (sv_heap t)" for p
    proof (cases "sv_heap s p")
      case (Some c)
      from entry [OF Some] obtain fd where fd: "om_find fd (sv_clients s) = Some p" by blast
      show ?thesis using reap_one(2,3) [OF i fd Some t] P [OF Some] Some by auto
    next
      case None
      have "sv_heap t p = None"
      proof (rule ccontr)
        assume "sv_heap t p \<noteq> None"
        moreover have "outlives (set (leavers s)) ?u t" using reap_wp [OF i] t by (auto simp: wp_def)
        ultimately obtain c where "sv_heap ?u p = Some c" unfolding outlives_def by blast
        then show False using heap [of p] None by simp
      qed
      then show ?thesis using None by auto
    qed
    then show ?thesis by blast
  qed
  finally show ?thesis .
qed

text \<open>With nobody dead, reaping is the end of the round of the abstract network.\<close>

definition nobody_dead :: "server \<Rightarrow> bool" where
  "nobody_dead s \<longleftrightarrow> (\<forall>p c. sv_heap s p = Some c \<longrightarrow> \<not> cl_dead c)"

lemma reap_closes_round:
  assumes i: "server_inv s" and t: "reapDeadClients s = Some t" and calm: "calm s t" and live: "nobody_dead s"
  shows "network_of t = close_round {p. \<exists>c. sv_heap s p = Some c \<and> cl_sendBuffer c = []} (network_of s)"
    and "nobody_dead t"
proof -
  let ?N = "network_of s"
  let ?L = "{p \<in> {p. \<exists>c. sv_heap s p = Some c \<and> cl_sendBuffer c = []}. \<exists>u. nw_users ?N p = Some u \<and> us_leaving u}"
  have out: "outlives (set (leavers s)) (settled (dom (sv_heap s)) s) t" using reap_wp [OF i] t by (auto simp: wp_def)
  have from_s: "sv_heap s p \<noteq> None" if "sv_heap t p \<noteq> None" for p
  proof -
    from that obtain c where "sv_heap (settled (dom (sv_heap s)) s) p = Some c"
      using out unfolding outlives_def by blast
    then show ?thesis by (auto simp: settled_def split: if_splits)
  qed
  have stays: "sv_heap t p = None \<longleftrightarrow> cl_closing c \<and> cl_sendBuffer c = []" if c: "sv_heap s p = Some c" for p c
  proof -
    obtain fd where fd: "om_find fd (sv_clients s) = Some p" using no_entry_no_object [OF i, of p] c by fastforce
    have "\<not> cl_dead c" using live c by (simp add: nobody_dead_def)
    then have "leaving c \<longleftrightarrow> cl_closing c \<and> cl_sendBuffer c = []" by (auto simp: leaving_def hasPendingOutput_def)
    then show ?thesis using reap_one(2,3) [OF i fd c t] by (cases "leaving c") auto
  qed
  have "p \<in> - dom (sv_heap t) \<longleftrightarrow> p \<in> ?L \<union> - dom (sv_heap s)" for p
  proof (cases "sv_heap s p")
    case None
    then have "sv_heap t p = None" using from_s [of p] by blast
    with None show ?thesis by auto
  next
    case (Some c)
    then show ?thesis using stays [OF Some] by (auto simp: network_of_def users_of_def user_of_def)
  qed
  then have "- dom (sv_heap t) = ?L \<union> - dom (sv_heap s)" by blast
  then have "network_of t = drop_users ?L (drop_users (- dom (sv_heap s)) ?N)"
    using reap_refines [OF i t calm] by (simp add: drop_users_twice)
  then show "network_of t = close_round {p. \<exists>c. sv_heap s p = Some c \<and> cl_sendBuffer c = []} ?N"
    by (simp add: drop_absent [OF i] close_round_def)
  show "nobody_dead t"
    unfolding nobody_dead_def
  proof (intro allI impI notI)
    fix p d
    assume d: "sv_heap t p = Some d" "cl_dead d"
    then obtain c where "sv_heap s p = Some c" using from_s [of p] by auto
    then show False using d calm live unfolding calm_def nobody_dead_def by blast
  qed
qed

section \<open>The round\<close>

definition round_events :: "environment \<Rightarrow> server \<Rightarrow> cptr event list" where
  "round_events env s =
     (if en_poll env \<noteq> None then []
      else concat (map (\<lambda>e. entry_events env s (e\<lparr>pfd_revents := en_revents env (pfd_fd e)\<rparr>)) (sv_pollFds s)))"

text \<open>The clients for whom nothing is left to be written, when the poll vector has been served.\<close>

definition drained :: "environment \<Rightarrow> server \<Rightarrow> cptr set" where
  "drained env s =
     (case refreshPollEvents s of
        Some (Inr s1) \<Rightarrow>
          if en_poll env \<noteq> None then {}
          else (case serve_loop env 0 (polled env s1) of
                  Some (Inr s2) \<Rightarrow> {p. \<exists>c. sv_heap s2 p = Some c \<and> cl_sendBuffer c = []}
                | _ \<Rightarrow> {})
      | _ \<Rightarrow> {})"

text \<open>No connection fails in the round, and no send buffer overflows.\<close>

definition steady :: "environment \<Rightarrow> server \<Rightarrow> bool" where
  "steady env s \<longleftrightarrow>
     (\<forall>s1 s2. refreshPollEvents s = Some (Inr s1) \<longrightarrow> serve_loop env 0 (polled env s1) = Some (Inr s2) \<longrightarrow>
        spared s s2 \<and> (\<forall>t. reapDeadClients s2 = Some t \<longrightarrow> calm s2 t))"

lemma poll_network [simp]: "network_of (s\<lparr>sv_pollFds := es\<rparr>) = network_of s"
proof -
  have "names_of (s\<lparr>sv_pollFds := es\<rparr>) = names_of s" by (rule names_cong) simp_all
  then show ?thesis by (simp add: network_of_def users_of_def rooms_of_def)
qed

lemma poll_admits [simp]: "admits r (s\<lparr>sv_pollFds := es\<rparr>) = admits r s"
proof -
  have "from_ip ip (s\<lparr>sv_pollFds := es\<rparr>) = from_ip ip s" for ip by (simp add: from_ip_def fun_eq_iff)
  then have "ip_load ip (s\<lparr>sv_pollFds := es\<rparr>) = ip_load ip s" for ip by (simp add: ip_load_def)
  then show ?thesis
    by (simp add: admits_def cong: if_cong accept_result.case_cong bool.case_cong option.case_cong memory.case_cong)
qed

lemma iteration_refines:
  assumes i: "server_inv s" and k: "kernel_ok env s" and t: "iteration env s = Some (Inr t)" and calm: "steady env s"
    and live: "nobody_dead s"
  shows "network_of t = close_round (drained env s) (fold network_event (round_events env s) (network_of s))"
    and "nobody_dead t"
proof -
  let ?s1 = "s\<lparr>sv_pollFds := map (refreshed s) (sv_pollFds s)\<rparr>"
  let ?s2 = "polled env ?s1"
  note r = refresh_eq [OF i]
  have ne: "sv_pollFds ?s1 \<noteq> []" using invD(4) [OF i] by (auto simp: poll_inv_def)
  have "network_of t = close_round (drained env s) (fold network_event (round_events env s) (network_of s)) \<and> nobody_dead t"
  proof (cases "en_poll env")
    case (Some e)
    then have "t = ?s1" using t r ne by (auto simp: iteration_def split: if_splits)
    then show ?thesis using Some live r by (simp add: round_events_def drained_def close_round_def drop_nobody nobody_dead_def)
  next
    case None
    have i2: "server_inv ?s2" unfolding polled_def by (rule inv_pollFds [OF refresh_inv [OF i]]) simp
    have ri: "round_inv env 0 ?s2" using i2 k by (auto simp: round_inv_def polled_def kernel_ok_def)
    obtain u where u: "serve_loop env 0 ?s2 = Some (Inr u)" "reapDeadClients u = Some t"
      using t r ne None by (auto simp: iteration_def split: sum.splits Option.bind_splits)
    from calm r u have c: "spared s u" "calm u t" unfolding steady_def by blast+
    have "spared ?s2 u" using c(1) by (simp add: spared_def polled_def)
    from serve_loop_refines [OF ri u(1) this]
    have "network_of u = fold network_event (concat (map (entry_events env ?s2) (sv_pollFds ?s2))) (network_of ?s2)" by simp
    also have "map (entry_events env ?s2) (sv_pollFds ?s2) =
        map (\<lambda>e. entry_events env s (e\<lparr>pfd_revents := en_revents env (pfd_fd e)\<rparr>)) (sv_pollFds s)"
      by (simp add: polled_def refreshed_def entry_events_def getClientByFd_def comp_def cong: option.case_cong)
    also have "network_of ?s2 = network_of s" by (simp add: polled_def)
    finally have "network_of u = fold network_event (round_events env s) (network_of s)"
      using None by (simp add: round_events_def)
    moreover have "server_inv u" using serve_loop_wp [OF ri] u(1) by (auto simp: wp_def)
    moreover have "nobody_dead u" using c(1) live unfolding spared_def nobody_dead_def by blast
    moreover have "drained env s = {p. \<exists>c. sv_heap u p = Some c \<and> cl_sendBuffer c = []}"
      using r None u(1) by (simp add: drained_def)
    ultimately show ?thesis using reap_closes_round [OF _ u(2) c(2)] by simp
  qed
  then show "network_of t = close_round (drained env s) (fold network_event (round_events env s) (network_of s))"
    "nobody_dead t" by blast+
qed

end
