(* ===== verification/Network_Properties.thy ===== *)
theory Network_Properties
  imports Round_Refinement Example_State
begin

text \<open>
  The refinement of the abstract network, as properties of the server: a line, and the bytes of a
  client in any cut into reads. Rounds and runs of the event loop are in \<open>Run_Refinement\<close>.
\<close>

section \<open>Concrete cases\<close>

lemma demo_kick:
  "\<exists>m. processLine 0 ''KICK #c bob'' demo = Some
     ((queue m {0, 1} demo)\<lparr>sv_channels := [(''#c'', removeMember 1 demo_channel)]\<rparr>)"
proof -
  have parsed: "parse ''KICK #c bob'' = \<lparr>msg_prefix = [], msg_command = ''KICK'', msg_params = [''#c'', ''bob'']\<rparr>"
    by code_simp
  have names: "splitString ''#c'' CHR '','' = [''#c'']" "splitString ''bob'' CHR '','' = [''bob'']" by code_simp+
  let ?m = "cat [user_prefix (demo_client 4 ''alice''), '' KICK '', ''#c'', '' '', ''bob'', '' :'', ''No reason given'', crlf]"
  have "kick_one 0 ''#c'' ''bob'' ''No reason given'' demo = Some
    ((queue ?m (set (ch_members demo_channel)) demo)\<lparr>sv_channels := om_insert ''#c'' (removeMember 1 demo_channel) (sv_channels demo)\<rparr>)"
    by (rule kick_one_allowed [OF demo_inv]) (simp_all add: demo_found demo_operator demo_find)
  then show ?thesis
    using commands_table [OF demo_inv, of "''KICK''"]
    by (intro exI [of _ ?m])
      (simp add: processLine_def processMessage_def deref_def execute_def kick_execute_def parsed names)
qed

text \<open>The first message that is queued for a client never kills it.\<close>

lemma first_message_alive: "cl_sendBuffer c = [] \<Longrightarrow> cl_dead (sendMessage m c) = cl_dead c"
  by (auto simp: sendMessage_def isValidOutboundMessage_def MAX_SEND_BUFFER_def MAX_IRC_MESSAGE_SIZE_def)

lemma calm_queue:
  assumes "\<And>q c. q \<in> Q \<Longrightarrow> sv_heap s q = Some c \<Longrightarrow> cl_sendBuffer c = []"
    and "\<And>q. sv_heap t q = sv_heap (queue m Q s) q \<or> sv_heap t q = None"
  shows "calm s t"
  unfolding calm_def
proof (intro allI impI)
  fix q c d
  assume h: "sv_heap s q = Some c" "sv_heap t q = Some d" "cl_dead d"
  then have "sv_heap (queue m Q s) q = Some d" using assms(2) [of q] by simp
  then show "cl_dead c"
    using h assms(1) [of q c] by (auto simp: queue_heap first_message_alive split: if_splits)
qed

lemma demo_buffers: "sv_heap demo q = Some c \<Longrightarrow> cl_sendBuffer c = []"
  by (auto split: if_splits)

section \<open>The properties\<close>

text \<open>
  C7. Refinement: a line of a client that is neither dead nor closing does to the
  users, the nicknames and the rooms what the abstract network says, as long as no send
  buffer overflows; and it does nothing else to them.
\<close>

theorem line_refines:
  assumes i: "server_inv s" and a: "active p s" and l: "clean l"
    and t: "processLine p l s = Some t" and calm: "calm s t"
  shows "network_of t = network_line p l (network_of s)"
  by (rule processLine_refines [OF assms])

lemma line_refines_witness:
  "\<exists>t. processLine 0 ''KICK #c bob'' demo = Some t \<and>
     network_of t = network_line 0 ''KICK #c bob'' (network_of demo) \<and>
     map_option rm_members (nw_rooms (network_line 0 ''KICK #c bob'' (network_of demo)) ''#c'') = Some {0}"
proof -
  obtain m where t: "processLine 0 ''KICK #c bob'' demo = Some
     ((queue m {0, 1} demo)\<lparr>sv_channels := [(''#c'', removeMember 1 demo_channel)]\<rparr>)" (is "_ = Some ?t")
    using demo_kick by blast
  have "calm demo ?t" by (rule calm_queue [where m = m and Q = "{0, 1}"]) (use demo_buffers in simp_all)
  from line_refines [OF demo_inv demo_active(1) _ t this] have n: "network_of ?t = network_line 0 ''KICK #c bob'' (network_of demo)"
    by simp
  moreover have "nw_rooms (network_of ?t) ''#c'' = Some (room_of (removeMember 1 demo_channel))"
    by (simp add: rooms_at)
  ultimately show ?thesis using t by (intro exI [of _ ?t]) simp
qed

text \<open>
  C8. From the socket to the network: however the bytes of a client's lines are cut into reads of
  at most 4096 bytes, the reads do to users, nicknames and rooms what the abstract
  network says of these lines, one after the other, as long as no send buffer overflows on the way.
\<close>

theorem stream_refines:
  assumes i: "server_inv s" and p: "getClientByFd fd s = Some p" "sv_heap s p = Some c"
    and live: "\<not> cl_dead c" "\<not> cl_closing c"
    and ls: "list_all wire_line ls" "concat (map to_wire ls) = cl_recvBuffer c @ concat ds"
    and buf: "LF \<notin> set (cl_recvBuffer c)" "length (cl_recvBuffer c) < 512"
    and ds: "\<forall>d \<in> set ds. d \<noteq> [] \<and> length d \<le> 4096"
    and t: "for_each (\<lambda>d. handleClientRead fd (Pending d)) ds s = Some t" and calm: "calm s t"
  shows "network_of t = fold (network_line p) ls (network_of s)"
  using reads_refine [OF i p live ls buf(1) _ ds _ calm] buf(2) t by (simp add: MAX_IRC_MESSAGE_SIZE_def reads_def)

lemma stream_refines_witness:
  "\<exists>t. for_each (\<lambda>d. handleClientRead 6 (Pending d)) [concat (map to_wire (bot_opening ''pw''))] demo = Some t \<and>
     network_of t = fold (network_line 2) (bot_opening ''pw'') (network_of demo) \<and>
     who (network_of t) ''FT_BOT'' = Some 2"
proof -
  let ?bytes = "concat (map to_wire (bot_opening ''pw''))"
  let ?c = "demo_client 6 []"
  let ?x = "?c\<lparr>cl_recvBuffer := ?bytes\<rparr>"
  let ?s = "put_client 2 ?x demo"
  define d where "d = ?x\<lparr>cl_recvBuffer := [], cl_passOk := True, cl_nickname := BOT_NICKNAME, cl_nickSet := True,
      cl_username := ''ftbot'', cl_userSet := True\<rparr>"
  let ?e = "sendMessage (welcome_message d) d"
  have pw: "isValidPassword (Some ''pw'')" by (simp add: isValidPassword_iff)
  have wire: "list_all wire_line (bot_opening ''pw'')" by (rule bot_opening_wire [OF pw]) simp
  have len: "length ?bytes \<le> 500" "?bytes \<noteq> []" by (simp_all add: bot_opening_def to_wire_def pass_line_def cat_def)
  have app: "appendToRecvBuffer ?bytes ?c = (True, ?x)"
    using len(1) by (simp add: appendToRecvBuffer_def MAX_RECV_BUFFER_def MAX_IRC_MESSAGE_SIZE_def Let_def)
  have free: "findClientByNick BOT_NICKNAME ?s = Some None"
    by (simp add: findClientByNick_def deref_def toIrcLowerCase_def irc_lower_def is_upper_def BOT_NICKNAME_def put_client_def)
  have inv: "server_inv ?s" by (rule put_client_wp(1) [OF demo_inv _ append_kept [OF app]]) simp
  have "read_loop 2 ?s = Some (put_client 2 ?e ?s)"
    unfolding d_def by (rule bot_registers(1) [OF inv]) (use pw free in simp_all)
  moreover have "getClientByFd 6 demo = Some 2" by (simp add: getClientByFd_def)
  ultimately have h: "handleClientRead 6 (Pending ?bytes) demo = Some (put_client 2 ?e demo)"
    using len app by (intro read_one_chunk) (simp_all add: RECV_CHUNK_SIZE_def)
  then have t: "for_each (\<lambda>d. handleClientRead 6 (Pending d)) [?bytes] demo = Some (put_client 2 ?e demo)" by simp
  have e: "\<not> cl_dead ?e" "cl_nickname ?e = BOT_NICKNAME" using first_message_alive [of d] by (simp_all add: d_def)
  have calm: "calm demo (put_client 2 ?e demo)" using e by (auto simp: calm_def put_client_def split: if_splits)
  have n: "network_of (put_client 2 ?e demo) = fold (network_line 2) (bot_opening ''pw'') (network_of demo)"
    by (rule stream_refines [where c = ?c, OF demo_inv _ _ _ _ wire _ _ _ _ t calm])
      (use len in \<open>simp_all add: getClientByFd_def\<close>)
  have lower: "toIrcLowerCase ''FT_BOT'' = ''ft_bot''" "toIrcLowerCase ''ft_bot'' = ''ft_bot''"
    "toIrcLowerCase ''alice'' = ''alice''" "toIrcLowerCase ''bob'' = ''bob''" by code_simp+
  have "findClientByNick ''FT_BOT'' (put_client 2 ?e demo) = Some (Some 2)"
    using e lower by (simp add: findClientByNick_def deref_def put_client_def BOT_NICKNAME_def)
  from who_network [OF this] n t show ?thesis by auto
qed

text \<open>The first two rounds of the concrete run, in which the bot connects and takes its nickname.\<close>

lemma demo_first_steady: "steady demo_accept demo_start"
  by (rule demo_first_parts) (auto simp: steady_def spared_def calm_def demo_first_fields split: if_splits)

lemma demo_second_steady: "steady demo_opening demo_first"
  using demo_second_parts demo_bot_fields(1) demo_second_fields(2)
  by (auto simp: steady_def spared_def split: if_splits)

lemma demo_second_who: "who (network_of demo_first) ''FT_BOT'' = None" "who (network_of demo_second) ''FT_BOT'' = Some 0"
proof -
  have lower: "toIrcLowerCase ''FT_BOT'' = ''ft_bot''" "toIrcLowerCase ''ft_bot'' = ''ft_bot''"
    "toIrcLowerCase [] = []" by code_simp+
  have "findClientByNick ''FT_BOT'' demo_first = Some None"
    using demo_first_fields by (simp add: findClientByNick_def deref_def lower)
  moreover have "findClientByNick ''FT_BOT'' demo_second = Some (Some 0)"
    using lower demo_second_fields demo_bot_fields(1,4) by (simp add: findClientByNick_def deref_def BOT_NICKNAME_def)
  ultimately show "who (network_of demo_first) ''FT_BOT'' = None" "who (network_of demo_second) ''FT_BOT'' = Some 0"
    using who_network by blast+
qed

end
