(* ===== verification/Run_Refinement.thy ===== *)
theory Run_Refinement
  imports Round_Refinement Main_Loop
begin

text \<open>
  A whole run of the server against the abstract network: it starts empty, and each round of the loop does to it
  what the events of the round say (\<open>run_events\<close>), as long as no connection fails (\<open>steady_run\<close>).
\<close>

definition empty_network :: "string \<Rightarrow> 'p network" where
  "empty_network password =
     \<lparr>nw_password = password, nw_users = Map.empty, nw_names = Map.empty, nw_rooms = Map.empty\<rparr>"

text \<open>
  Round by round: the events, and for whom nothing is left to be written. Which users leave is for the abstract network
  to say (\<open>network_round\<close>).
\<close>

fun run_events :: "environment list \<Rightarrow> server \<Rightarrow> (cptr event list \<times> cptr set) list" where
  "run_events [] s = []"
| "run_events (env # envs) s =
     (case iteration env s of
        Some (Inr t) \<Rightarrow> (round_events env s, drained env s) # run_events envs t
      | _ \<Rightarrow> [])"

fun steady_run :: "environment list \<Rightarrow> server \<Rightarrow> bool" where
  "steady_run [] s \<longleftrightarrow> True"
| "steady_run (env # envs) s \<longleftrightarrow> steady env s \<and>
     (case iteration env s of Some (Inr t) \<Rightarrow> steady_run envs t | _ \<Rightarrow> True)"

lemma start_network:
  assumes "new_Server port pw = Inr s0" and "setupSocket calls s0 = Inr s1"
  shows "network_of (setupCommands s1) = empty_network pw" and "nobody_dead (setupCommands s1)"
proof -
  have s0: "sv_clients s0 = []" "sv_channels s0 = []" "sv_heap s0 = Map.empty" "sv_password s0 = pw"
    using assms(1) by (auto simp: new_Server_def split: if_splits)
  have "sv_clients s1 = [] \<and> sv_channels s1 = [] \<and> sv_heap s1 = Map.empty \<and> sv_password s1 = pw"
    using assms(2) s0 by (auto simp: setupSocket_def Let_def split: sum.splits option.splits)
  then show "network_of (setupCommands s1) = empty_network pw" "nobody_dead (setupCommands s1)"
    by (simp_all add: network_of_def empty_network_def users_of_def names_of_def rooms_of_def setupCommands_def
        fun_eq_iff nobody_dead_def)
qed

lemma rounds_refine:
  assumes "server_inv s" and "kernel_ok_run envs s" and "steady_run (stake n envs) s" and "nobody_dead s"
    and "rounds (stake n envs) s = Some (Inr t)"
  shows "network_of t = fold network_round (run_events (stake n envs) s) (network_of s)"
  using assms
proof (induction n arbitrary: envs s)
  case (Suc n envs s)
  from Suc.prems(1,2) show ?case
  proof (cases rule: first_round)
    case (failed x)
    then show ?thesis using Suc.prems(5) by (cases x) simp
  next
    case (served u)
    have steady: "steady (shd envs) s" "steady_run (stake n (stl envs)) u"
      and later: "rounds (stake n (stl envs)) u = Some (Inr t)"
      using Suc.prems(3,5) served(1) by simp_all
    have "network_of u = network_round (round_events (shd envs) s, drained (shd envs) s) (network_of s)"
      and live: "nobody_dead u"
      using iteration_refines [OF Suc.prems(1) kernel_ok_run_now [OF Suc.prems(2)] served(1) steady(1) Suc.prems(4)]
      by (simp_all add: network_round_def)
    then show ?thesis using Suc.IH [OF served(2,3) steady(2) live later] served(1) by simp
  qed
qed simp

end
