(* ===== verification/Delivery.thy ===== *)
theory Delivery
  imports Example_State
begin

text \<open>
  What reaches a client's socket: the relation \<open>outputs\<close> follows one client through queueing (\<open>Client::sendMessage\<close>)
  and writing (\<open>Server::handleClientWrite\<close>, \<open>Client::consumeSendBuffer\<close>), and \<open>delivered_in_order\<close> says that the socket gets the
  messages whole and in order.
\<close>

section \<open>The output of one client\<close>

datatype output_event = Queued string | Written send_result

fun queued :: "output_event list \<Rightarrow> string list" where
  "queued [] = []"
| "queued (Queued m # evs) = m # queued evs"
| "queued (Written r # evs) = queued evs"

text \<open>The bytes a write takes: \<open>send\<close> is not called for a dead client.\<close>

definition taken :: "send_result \<Rightarrow> client \<Rightarrow> string" where
  "taken r c = (case r of SendFailed e \<Rightarrow> [] | Sent n \<Rightarrow> if cl_dead c then [] else take n (cl_sendBuffer c))"

text \<open>\<open>send\<close> never returns more than it was given.\<close>

definition plausible :: "send_result \<Rightarrow> client \<Rightarrow> bool" where
  "plausible r c = (case r of SendFailed e \<Rightarrow> True | Sent n \<Rightarrow> n \<le> length (cl_sendBuffer c))"

text \<open>
  \<open>outputs fd p s evs w t\<close>: the server goes from \<open>s\<close> to \<open>t\<close>, queueing messages for client \<open>p\<close> and writing to its
  socket \<open>fd\<close> as \<open>evs\<close> says, in this order; \<open>w\<close> are the bytes that the socket took. In between anything may happen
  that leaves the client's send buffer alone.
\<close>

inductive outputs :: "int \<Rightarrow> cptr \<Rightarrow> server \<Rightarrow> output_event list \<Rightarrow> string \<Rightarrow> server \<Rightarrow> bool" for fd p s where
  outputs_none: "outputs fd p s [] [] s"
| outputs_queue: "outputs fd p s evs w t \<Longrightarrow> send_to p m t = Some u \<Longrightarrow> outputs fd p s (evs @ [Queued m]) w u"
| outputs_write: "outputs fd p s evs w t \<Longrightarrow> sv_heap t p = Some c \<Longrightarrow> plausible r c \<Longrightarrow>
    handleClientWrite fd r t = Some u \<Longrightarrow> outputs fd p s (evs @ [Written r]) (w @ taken r c) u"
| outputs_other: "outputs fd p s evs w t \<Longrightarrow> getClientByFd fd u = Some p \<Longrightarrow> sv_heap t p = Some c \<Longrightarrow> sv_heap u p = Some d \<Longrightarrow>
    cl_sendBuffer d = cl_sendBuffer c \<Longrightarrow> (cl_dead c \<longrightarrow> cl_dead d) \<Longrightarrow> (cl_closing c \<longrightarrow> cl_closing d) \<Longrightarrow>
    outputs fd p s evs w u"

lemma queued_append [simp]: "queued (evs @ fs) = queued evs @ queued fs"
  by (induction evs rule: queued.induct) simp_all

text \<open>The messages accepted so far: what was taken and what waits are their bytes.\<close>

definition accounted :: "string list \<Rightarrow> string \<Rightarrow> client \<Rightarrow> string list \<Rightarrow> bool" where
  "accounted ms w c all \<longleftrightarrow> subseq ms all \<and> list_all isValidOutboundMessage ms \<and>
     w @ cl_sendBuffer c = concat ms \<and> (\<not> cl_dead c \<and> \<not> cl_closing c \<longrightarrow> ms = filter isValidOutboundMessage all)"

lemma accounted_queue:
  assumes a: "accounted ms w c all"
  shows "\<exists>ms'. accounted ms' w (sendMessage m c) (all @ [m])"
proof -
  have sub: "subseq ms (all @ [m])" "subseq (ms @ [m]) (all @ [m])"
    using a by (auto simp: accounted_def intro: subseq_order.trans)
  consider "cl_dead c \<or> cl_closing c" | "\<not> isValidOutboundMessage m"
    | "\<not> cl_dead c" "\<not> cl_closing c" "isValidOutboundMessage m" by blast
  then show ?thesis
  proof cases
    case 1
    then have "accounted ms w (sendMessage m c) (all @ [m])"
      using a sub by (simp add: accounted_def sendMessage_inactive)
    then show ?thesis by blast
  next
    case 2
    then have "accounted ms w (sendMessage m c) (all @ [m])"
      using a sub by (simp add: accounted_def sendMessage_invalid)
    then show ?thesis by blast
  next
    case 3
    show ?thesis
    proof (cases "length (cl_sendBuffer c) + length m \<le> MAX_SEND_BUFFER")
      case True
      then have "accounted (ms @ [m]) w (sendMessage m c) (all @ [m])"
        using a sub 3 by (auto simp: accounted_def sendMessage_accepts)
      then show ?thesis by blast
    next
      case False
      then have "sendMessage m c = markDead ''send buffer overflow (slow or stuck client)'' c"
        using 3 by (auto simp: sendMessage_def)
      then have "accounted ms w (sendMessage m c) (all @ [m])"
        using a sub by (simp add: accounted_def)
      then show ?thesis by blast
    qed
  qed
qed

lemma write_result:
  assumes f: "getClientByFd fd t = Some p" and c: "sv_heap t p = Some c" and r: "plausible r c"
    and u: "handleClientWrite fd r t = Some u"
  shows "getClientByFd fd u = Some p" and
    "\<exists>d. sv_heap u p = Some d \<and> taken r c @ cl_sendBuffer d = cl_sendBuffer c \<and>
       (cl_dead c \<longrightarrow> cl_dead d) \<and> (cl_closing c \<longrightarrow> cl_closing d)"
  using assms
  by (auto simp: handleClientWrite_def deref_def invoke_def taken_def plausible_def getClientByFd_def consumeSendBuffer_def
      split: send_result.splits if_splits)

lemma outputs_accounted:
  assumes o: "outputs fd p s evs w t" and f: "getClientByFd fd s = Some p" and c: "sv_heap s p = Some c" "cl_sendBuffer c = []"
  shows "getClientByFd fd t = Some p \<and> (\<exists>d ms. sv_heap t p = Some d \<and> accounted ms w d (queued evs))"
  using o
proof induction
  case outputs_none
  then show ?case using f c by (auto simp: accounted_def intro!: exI [of _ "[]"])
next
  case (outputs_queue evs w t m u)
  then obtain d ms where d: "sv_heap t p = Some d" "accounted ms w d (queued evs)" "getClientByFd fd t = Some p" by blast
  then have "u = t\<lparr>sv_heap := (sv_heap t)(p \<mapsto> sendMessage m d)\<rparr>"
    using outputs_queue.hyps(2) by (simp add: send_to_def invoke_def deref_def)
  then show ?case using d accounted_queue [OF d(2), of m] by (auto simp: getClientByFd_def)
next
  case (outputs_write evs w t c r u)
  then obtain ms where ms: "accounted ms w c (queued evs)" "getClientByFd fd t = Some p" by auto
  from write_result [OF ms(2) outputs_write.hyps(2-4)] obtain d where
    "getClientByFd fd u = Some p" "sv_heap u p = Some d" "taken r c @ cl_sendBuffer d = cl_sendBuffer c"
    "cl_dead c \<longrightarrow> cl_dead d" "cl_closing c \<longrightarrow> cl_closing d" by blast
  then show ?case using ms(1) by (auto simp: accounted_def)
next
  case (outputs_other evs w t u c d)
  then obtain ms where "accounted ms w c (queued evs)" by auto
  then have "accounted ms w d (queued evs)" using outputs_other.hyps by (auto simp: accounted_def)
  then show ?case using outputs_other.hyps by blast
qed

text \<open>
  What a client's socket has taken, followed by what still waits in its send buffer, are the bytes of
  the messages queued for it, whole and in the order in which they were queued, however the socket cuts them. Only
  messages that are no IRC lines are left out, unless the client died or was closing.
\<close>

lemma delivered_in_order:
  assumes o: "outputs fd p s evs w t" and f: "getClientByFd fd s = Some p" and c: "sv_heap s p = Some c" "cl_sendBuffer c = []"
  shows "\<exists>d ms. sv_heap t p = Some d \<and> w @ cl_sendBuffer d = concat ms \<and> subseq ms (queued evs) \<and>
     list_all isValidOutboundMessage ms \<and>
     (\<not> cl_dead d \<and> \<not> cl_closing d \<longrightarrow> ms = filter isValidOutboundMessage (queued evs))"
  using outputs_accounted [OF assms] by (auto simp: accounted_def)

lemma delivered_in_order_witness:
  "\<exists>t d. outputs 4 0 demo [Queued ''PING x'', Queued (to_wire ''PING y''), Written (Sent 3)] ''PIN'' t \<and>
     sv_heap t 0 = Some d \<and> ''PIN'' @ cl_sendBuffer d = to_wire ''PING y''"
proof -
  let ?c = "demo_client 4 ''alice''"
  let ?m1 = "''PING x''" and ?m2 = "to_wire ''PING y''"
  have valid: "\<not> isValidOutboundMessage ?m1" "isValidOutboundMessage ?m2" by code_simp+
  let ?c2 = "?c\<lparr>cl_sendBuffer := ?m2\<rparr>"
  have c2: "sendMessage ?m2 (sendMessage ?m1 ?c) = ?c2"
    using valid by (simp add: sendMessage_def MAX_SEND_BUFFER_def to_wire_def)
  let ?t1 = "put_client 0 (sendMessage ?m1 ?c) demo" and ?t2 = "put_client 0 ?c2 demo"
  let ?d = "?c\<lparr>cl_wire := ''PIN'', cl_sendBuffer := drop 3 ?m2\<rparr>"
  have s1: "send_to 0 ?m1 demo = Some ?t1" by (simp add: send_to_def invoke_def deref_def put_client_def)
  have s2: "send_to 0 ?m2 ?t1 = Some ?t2" by (simp add: send_put c2)
  have fd: "getClientByFd 4 ?t2 = Some 0" by (simp add: getClientByFd_def put_client_def)
  have s3: "handleClientWrite 4 (Sent 3) ?t2 = Some (put_client 0 ?d demo)"
    unfolding handleClientWrite_def fd by (simp add: deref_put invoke_put consumeSendBuffer_def on_wire_def to_wire_def)
  have "outputs 4 0 demo ((([] @ [Queued ?m1]) @ [Queued ?m2]) @ [Written (Sent 3)]) ([] @ taken (Sent 3) ?c2) (put_client 0 ?d demo)"
    by (intro outputs.intros(1) outputs.intros(2) [OF _ s1] outputs.intros(2) [OF _ s2] outputs.intros(3) [OF _ _ _ s3])
      (simp_all add: plausible_def to_wire_def)
  then have o: "outputs 4 0 demo [Queued ?m1, Queued ?m2, Written (Sent 3)] ''PIN'' (put_client 0 ?d demo)"
    by (simp add: taken_def to_wire_def)
  from delivered_in_order [OF o, of ?c] obtain d ms where
    "sv_heap (put_client 0 ?d demo) 0 = Some d" "''PIN'' @ cl_sendBuffer d = concat ms"
    "\<not> cl_dead d \<and> \<not> cl_closing d \<longrightarrow> ms = filter isValidOutboundMessage [?m1, ?m2]"
    by (auto simp: getClientByFd_def)
  with valid o show ?thesis by (intro exI [of _ "put_client 0 ?d demo"] exI [of _ d]) auto
qed

end
