(* ===== verification/Delivery_Run.thy ===== *)
theory Delivery_Run
  imports Flush Main_Loop Delivery
begin

text \<open>
  The output of a client over rounds of the event loop: what its socket takes in each round (\<open>wired\<close>,
  \<open>took\<close>), and that what is queued for it is delivered, whole and in order, as long as it stays.
\<close>

section \<open>Bytes that leave a send buffer\<close>

text \<open>
  The socket took the bytes \<open>w\<close>; they left the buffer at its front, and whole messages went into it behind what was there.
\<close>

definition wired :: "string \<Rightarrow> client \<Rightarrow> client \<Rightarrow> bool" where
  "wired w c d \<longleftrightarrow> cl_wire d = cl_wire c @ w \<and>
     (\<exists>ms. list_all isValidOutboundMessage ms \<and> cl_sendBuffer c @ concat ms = w @ cl_sendBuffer d)"

lemma wired_append: "wired v c d \<Longrightarrow> wired w d e \<Longrightarrow> wired (v @ w) c e"
proof -
  assume "wired v c d" and "wired w d e"
  then obtain ms ns where "list_all isValidOutboundMessage ms" "cl_sendBuffer c @ concat ms = v @ cl_sendBuffer d"
    and "list_all isValidOutboundMessage ns" "cl_sendBuffer d @ concat ns = w @ cl_sendBuffer e"
    unfolding wired_def by blast
  then have "list_all isValidOutboundMessage (ms @ ns)"
    "cl_sendBuffer c @ concat (ms @ ns) = (v @ w) @ cl_sendBuffer e" by (simp, metis append_assoc concat_append)
  moreover have "cl_wire e = cl_wire c @ v @ w"
    using \<open>wired v c d\<close> \<open>wired w d e\<close> by (simp add: wired_def)
  ultimately show ?thesis unfolding wired_def by (intro conjI exI [of _ "ms @ ns"]) simp_all
qed

lemma appended_wired: "appended c d \<Longrightarrow> wired [] c d"
  by (auto simp: appended_def wired_def)

lemma wired_same: "cl_sendBuffer d = cl_sendBuffer c \<Longrightarrow> cl_wire d = cl_wire c \<Longrightarrow> wired [] c d"
  by (rule appended_wired) simp

text \<open>The kernel reports the socket writable in the round; \<open>send\<close> takes something.\<close>

definition writable :: "environment \<Rightarrow> int \<Rightarrow> bool" where
  "writable env fd \<longleftrightarrow> en_poll env = None \<and> has_event (en_revents env fd) POLLOUT"

definition takes_some :: "environment \<Rightarrow> int \<Rightarrow> bool" where
  "takes_some env fd \<longleftrightarrow> writable env fd \<and> (\<exists>n. en_send env fd = Sent (Suc n))"

text \<open>
  The bytes that a socket takes in a round: none, unless the kernel reports it writable, then exactly as many as
  \<open>send\<close> says; and some, when \<open>send\<close> takes some and the client had something to send and is still alive.
\<close>

definition took :: "environment \<Rightarrow> int \<Rightarrow> string \<Rightarrow> client \<Rightarrow> client \<Rightarrow> bool" where
  "took env fd w c d \<longleftrightarrow> wired w c d \<and>
     (w \<noteq> [] \<longrightarrow> writable env fd \<and> en_send env fd = Sent (length w)) \<and>
     (takes_some env fd \<longrightarrow> \<not> cl_dead d \<longrightarrow> w \<noteq> [] \<or> cl_sendBuffer c = [])"

lemma took_before: "wired [] b c \<Longrightarrow> took env fd w c d \<Longrightarrow> took env fd w b d"
  using wired_append [of "[]" b c w d] by (auto simp: took_def wired_def)

lemma took_after: "took env fd w c d \<Longrightarrow> wired [] d e \<Longrightarrow> (cl_dead d \<longrightarrow> cl_dead e) \<Longrightarrow> took env fd w c e"
  using wired_append [of w c d "[]" e] by (auto simp: took_def)

section \<open>One entry of the poll vector\<close>

text \<open>The client's own entry: what is read may queue messages for it, then its buffer is written.\<close>

lemma write_took:
  assumes poll: "en_poll env = None" and f: "getClientByFd fd s = Some p" and c: "sv_heap s p = Some c"
    and t: "(if has_event (en_revents env fd) POLLOUT then handleClientWrite fd (en_send env fd) s else Some s) = Some t"
  shows "getClientByFd fd t = Some p \<and> (\<exists>d w. sv_heap t p = Some d \<and> took env fd w c d)"
proof -
  have put: ?thesis if "t = put_client p d s" "took env fd w c d" for d w
    using that f by (auto simp: put_client_def getClientByFd_def)
  have same: ?thesis if "t = s" "took env fd [] c c" using that f c by blast
  show ?thesis
  proof (cases "has_event (en_revents env fd) POLLOUT \<and> \<not> cl_dead c \<and> cl_sendBuffer c \<noteq> []")
    case False
    then have "t = s" using t f c by (auto simp: handleClientWrite_def deref_def split: if_splits)
    moreover have "took env fd [] c c" using False by (auto simp: took_def wired_same takes_some_def writable_def)
    ultimately show ?thesis by (rule same)
  next
    case out: True
    then have e: "handleClientWrite fd (en_send env fd) s = Some t" using t by simp
    show ?thesis
    proof (cases "en_send env fd")
      case (SendFailed x)
      then have t: "t = s \<or> t = put_client p (markDead (cat [''send() failed: '', strerror x]) c) s"
        using e out f c by (auto simp: handleClientWrite_def deref_def invoke_def put_client_def split: if_splits)
      have "took env fd [] c (markDead r c)" "took env fd [] c c" for r
        using SendFailed by (auto simp: took_def wired_same takes_some_def)
      with t put same show ?thesis by blast
    next
      case (Sent n)
      show ?thesis
      proof (cases "n = 0")
        case True
        then have "t = put_client p (markDead ''send() returned zero bytes'' c) s"
          using e out f c Sent by (simp add: handleClientWrite_def deref_def invoke_def put_client_def)
        moreover have "took env fd [] c (markDead ''send() returned zero bytes'' c)"
          using Sent True by (auto simp: took_def wired_same takes_some_def)
        ultimately show ?thesis by (rule put)
      next
        case False
        then have t: "t = put_client p (consumeSendBuffer n (on_wire n c)) s"
          using e out f c Sent by (simp add: handleClientWrite_def deref_def invoke_def put_client_def)
        have "\<exists>w. took env fd w c (consumeSendBuffer n (on_wire n c))"
        proof (cases "n \<le> length (cl_sendBuffer c)")
          case True
          then have "wired (take n (cl_sendBuffer c)) c (consumeSendBuffer n (on_wire n c))"
            unfolding wired_def by (intro conjI exI [of _ "[]"]) (simp_all add: consumeSendBuffer_def on_wire_def)
          then have "took env fd (take n (cl_sendBuffer c)) c (consumeSendBuffer n (on_wire n c))"
            using out poll False Sent True by (auto simp: took_def writable_def min_absorb2)
          then show ?thesis by blast
        next
          case False
          then have "took env fd [] c (consumeSendBuffer n (on_wire n c))"
            by (simp add: took_def wired_same consumeSendBuffer_def on_wire_def)
          then show ?thesis by blast
        qed
        then obtain w where "took env fd w c (consumeSendBuffer n (on_wire n c))" by blast
        with t show ?thesis by (rule put)
      qed
    qed
  qed
qed

lemma serve_took:
  assumes poll: "en_poll env = None" and i: "server_inv s" and f: "getClientByFd fd s = Some p" and c: "sv_heap s p = Some c"
    and fd: "fd \<noteq> sv_listenFd s" and t: "serve_fd env fd (en_revents env fd) s = Some (Inr t)"
  shows "\<exists>d w. sv_heap t p = Some d \<and> took env fd w c d"
proof -
  let ?ev = "en_revents env fd"
  obtain s1 s2 where s1: "(if has_event ?ev POLLIN then handleClientRead fd (en_recv env fd) s else Some s) = Some s1"
    and s2: "(if has_event ?ev POLLOUT then handleClientWrite fd (en_send env fd) s1 else Some s1) = Some s2"
    and t: "(if \<not> has_event ?ev POLLIN \<and> has_event ?ev (or (or POLLERR POLLHUP) POLLNVAL)
        then (case getClientByFd fd s2 of
                None \<Rightarrow> Some (Inr s2)
              | Some p \<Rightarrow> do { s3 \<leftarrow> invoke (markDead ''socket error (POLLERR/POLLHUP)'') p s2; Some (Inr s3) })
        else Some (Inr s2)) = Some (Inr t :: server thrown)"
    using t fd unfolding serve_fd_def if_not_P [OF fd] by (auto simp only: bind_eq_Some_conv)
  have "hears fd s s1"
    using s1 handleClientRead_fed [OF i, of fd "en_recv env fd"] f by (auto simp: wp_def hears_def split: if_splits)
  then have fed: "fed p s s1" using f by (simp add: hears_def)
  then obtain c1 where c1: "sv_heap s1 p = Some c1" "fed_client c c1" using touched_own [of fed_client p s s1] c by blast
  have f1: "getClientByFd fd s1 = Some p" using f touched_fields(5) [OF fed] by (simp add: getClientByFd_def)
  from write_took [OF poll f1 c1(1) s2] obtain d w where
    f2: "getClientByFd fd s2 = Some p" and d: "sv_heap s2 p = Some d" "took env fd w c1 d" by blast
  have cd: "took env fd w c d"
    by (rule took_before [OF appended_wired d(2)]) (use c1(2) in \<open>simp add: fed_client_iff\<close>)
  let ?d = "markDead ''socket error (POLLERR/POLLHUP)'' d"
  have "t = s2 \<or> t = put_client p ?d s2"
    using t f2 d(1) by (auto simp: invoke_def deref_def put_client_def split: if_splits)
  then have "sv_heap t p = Some d \<or> sv_heap t p = Some ?d" using d(1) by (auto simp: put_client_def)
  moreover have "took env fd w c ?d" by (rule took_after [OF cd wired_same]) simp_all
  ultimately show ?thesis using cd by blast
qed

section \<open>One round\<close>

text \<open>While the vector is served: \<open>j\<close> is the client's entry; before it, messages may come in, from it on its bytes may have left.\<close>

definition followed :: "environment \<Rightarrow> int \<Rightarrow> cptr \<Rightarrow> nat \<Rightarrow> nat \<Rightarrow> client \<Rightarrow> server \<Rightarrow> bool" where
  "followed env fd p j i c s \<longleftrightarrow>
     om_find fd (sv_clients s) = Some p \<and> j < length (sv_pollFds s) \<and>
     pfd_fd (sv_pollFds s ! j) = fd \<and> pfd_revents (sv_pollFds s ! j) = en_revents env fd \<and>
     (\<exists>d. sv_heap s p = Some d \<and> (if i \<le> j then wired [] c d else \<exists>w. took env fd w c d))"

lemma followed_step:
  assumes poll: "en_poll env = None" and r: "round_inv env i s" and w: "followed env fd p j i c s"
    and i: "i < length (sv_pollFds s)" and ev: "pfd_revents (sv_pollFds s ! i) \<noteq> 0"
    and e: "e = sv_pollFds s ! i"
    and t: "serve_fd env (pfd_fd e) (pfd_revents e) s = Some (Inr t)"
  shows "round_inv env (Suc i) t \<and> followed env fd p j (Suc i) c t"
proof -
  have si: "server_inv s" using r by (simp add: round_inv_def)
  obtain d where f: "om_find fd (sv_clients s) = Some p" and j: "j < length (sv_pollFds s)"
    and entry: "pfd_fd (sv_pollFds s ! j) = fd" "pfd_revents (sv_pollFds s ! j) = en_revents env fd"
    and d: "sv_heap s p = Some d" and obj: "if i \<le> j then wired [] c d else \<exists>w. took env fd w c d"
    using w by (auto simp: followed_def)
  have lf: "fd \<noteq> sv_listenFd s"
    using invD(4) [OF si] om_find_mem [OF f] by (auto simp: poll_inv_def image_iff)
  have same: "pfd_fd e = fd \<longleftrightarrow> i = j"
    using nth_eq_iff_index_eq [OF poll_distinct [OF si], of i j] i j entry by (simp add: e)
  from serve_step_wp [OF r i ev] t e
  have step: "round_inv env (Suc i) t" "sv_listenFd t = sv_listenFd s"
    "if pfd_fd e = sv_listenFd s then t = s \<or> (\<exists>fd ip. admitted fd ip s t) else serves (pfd_fd e) s t"
    by simp_all
  show ?thesis
  proof (cases "i = j")
    case True
    then have own: "pfd_fd e = fd" "pfd_revents e = en_revents env fd" "wired [] c d"
      using entry obj e by simp_all
    have "serve_fd env fd (en_revents env fd) s = Some (Inr t)" using t own(1,2) by simp
    from serve_took [OF poll si _ d lf this] f obtain d' w where
      d': "sv_heap t p = Some d'" "took env fd w d d'" unfolding getClientByFd_def by blast
    have "serves fd s t" using step(3) lf own(1) by simp
    with d' took_before [OF own(3) d'(2)] step(1) f j entry True show ?thesis
      by (auto simp: followed_def serves_fields)
  next
    case False
    have "t = s \<or> (\<exists>a ip. admitted a ip s t) \<or> serves (pfd_fd e) s t"
      using step(3) by (auto split: if_splits)
    moreover have "server_inv t" using step(1) by (simp add: round_inv_def)
    moreover have "pfd_fd e \<noteq> fd" using same False by simp
    ultimately have keep: "om_find fd (sv_clients t) = Some p" "\<exists>d'. sv_heap t p = Some d' \<and> sent_client d d'"
      "sv_pollFds t = sv_pollFds s \<or> (\<exists>x. sv_pollFds t = sv_pollFds s @ [x])"
      using serve_other [OF si _ f d] by blast+
    then obtain d' where d': "sv_heap t p = Some d'" "sent_client d d'" by blast
    note more = appended_wired [OF sent_appended [OF d'(2)]]
    have "wired [] c d \<Longrightarrow> wired [] c d'" using wired_append [of "[]" c d "[]" d'] more by simp
    moreover have "took env fd w c d \<Longrightarrow> took env fd w c d'" for w
      using took_after [OF _ more] sent_client_fields(11) [OF d'(2)] by blast
    moreover have "i \<le> j \<longleftrightarrow> Suc i \<le> j" using False by linarith
    ultimately have "if Suc i \<le> j then wired [] c d' else \<exists>w. took env fd w c d'"
      using obj by (cases "i \<le> j") (simp, simp, blast)
    then show ?thesis
      using step(1) keep(1,3) j entry d'(1) by (auto simp: followed_def nth_append)
  qed
qed

lemma followed_loop:
  assumes "en_poll env = None" and "round_inv env i s" and "followed env fd p j i c s" and "serve_loop env i s = Some (Inr t)"
  shows "server_inv t \<and> om_find fd (sv_clients t) = Some p \<and> (\<exists>d w. sv_heap t p = Some d \<and> took env fd w c d)"
  using assms
proof (induction env i s rule: serve_loop.induct)
  case (1 env i s)
  have si: "server_inv s" using "1.prems"(2) by (simp add: round_inv_def)
  show ?case
  proof (cases "i < length (sv_pollFds s)")
    case False
    then have "t = s" using "1.prems"(4) by (subst (asm) serve_loop.simps) simp
    with False "1.prems"(3) si show ?thesis by (auto simp: followed_def)
  next
    case i: True
    show ?thesis
    proof (cases "pfd_revents (sv_pollFds s ! i) = 0")
      case True
      have now: "took env fd [] c d" if "i = j" "wired [] c d" for d
        using "1.prems"(3) True that by (auto simp: followed_def took_def takes_some_def writable_def has_event_def)
      have "followed env fd p j (Suc i) c s"
      proof (cases "i = j")
        case True
        with now "1.prems"(3) show ?thesis by (auto simp: followed_def)
      next
        case False
        then have "Suc i \<le> j \<longleftrightarrow> i \<le> j" by linarith
        with "1.prems"(3) show ?thesis by (simp add: followed_def)
      qed
      moreover have "serve_loop env (Suc i) s = Some (Inr t)"
        using "1.prems"(4) i True by (subst (asm) serve_loop.simps) simp
      ultimately show ?thesis
        using "1.IH"(1) [OF i True "1.prems"(1) round_inv_next [OF "1.prems"(2) i si]] "1.prems"(1) by blast
    next
      case ev: False
      obtain t1 where t1: "serve_fd env (pfd_fd (sv_pollFds s ! i)) (pfd_revents (sv_pollFds s ! i)) s = Some (Inr t1)"
        and next_entry: "serve_loop env (Suc i) t1 = Some (Inr t)"
        using "1.prems"(4) i ev
        by (subst (asm) serve_loop.simps) (auto split: Option.bind_splits sum.splits)
      from followed_step [OF "1.prems"(1-3) i ev refl t1] "1.IH"(2) [OF i ev t1 refl "1.prems"(1)] next_entry "1.prems"(1)
      show ?thesis by blast
    qed
  qed
qed

text \<open>The round as a whole, for a client that is still there at its end.\<close>

lemma round_took_polled:
  assumes i: "server_inv s" and k: "kernel_ok env s" and f: "om_find fd (sv_clients s) = Some p"
    and c: "sv_heap s p = Some c" and poll: "en_poll env = None" and it: "iteration env s = Some (Inr t)" and d: "sv_heap t p = Some d"
  shows "om_find fd (sv_clients t) = Some p \<and> (\<exists>w. took env fd w c d)"
proof -
  let ?s1 = "s\<lparr>sv_pollFds := map (refreshed s) (sv_pollFds s)\<rparr>"
  let ?s2 = "polled env ?s1"
  obtain s3 where s3: "serve_loop env 0 ?s2 = Some (Inr s3)" and reap: "reapDeadClients s3 = Some t"
    using it refresh_eq [OF i] poll
    by (auto simp: iteration_def split: if_splits option.splits sum.splits Option.bind_splits)
  have i2: "server_inv ?s2"
    unfolding polled_def by (rule inv_pollFds [OF refresh_inv [OF i]]) simp
  have r: "round_inv env 0 ?s2"
    using i2 k by (auto simp: round_inv_def polled_def kernel_ok_def)
  have "fd \<in> fst ` set (sv_clients s)" using om_find_mem [OF f] by force
  then have "fd \<in> set (map pfd_fd (sv_pollFds s))"
    using invD(4) [OF i] by (simp add: poll_inv_def)
  then obtain j where j: "j < length (sv_pollFds s)" "pfd_fd (sv_pollFds s ! j) = fd"
    by (auto simp: in_set_conv_nth)
  have w: "followed env fd p j 0 c ?s2"
    using j f c by (simp add: followed_def polled_def refreshed_def wired_same)
  from followed_loop [OF poll r w s3] obtain c3 w where
    s3': "server_inv s3" "om_find fd (sv_clients s3) = Some p" "sv_heap s3 p = Some c3" "took env fd w c c3"
    by blast
  note reaped = reap_one [OF s3'(1-3) reap]
  have "\<not> leaving c3" using reaped(2) d by auto
  from reaped(3) [OF this] d have t: "om_find fd (sv_clients t) = Some p" "sent_client c3 d" by auto
  have "took env fd w c d"
    using took_after [OF s3'(4) appended_wired [OF sent_appended [OF t(2)]]] sent_client_fields(11) [OF t(2)] by blast
  with t(1) show ?thesis by blast
qed

lemma round_took:
  assumes i: "server_inv s" and k: "kernel_ok env s" and f: "om_find fd (sv_clients s) = Some p"
    and c: "sv_heap s p = Some c" and it: "iteration env s = Some (Inr t)" and d: "sv_heap t p = Some d"
  shows "om_find fd (sv_clients t) = Some p \<and> (\<exists>w. took env fd w c d)"
proof (cases "en_poll env")
  case None
  with round_took_polled [OF i k f c _ it d] show ?thesis by blast
next
  case (Some e)
  have "sv_pollFds s \<noteq> []" using invD(4) [OF i] by (auto simp: poll_inv_def)
  with Some it refresh_eq [OF i] have "t = s\<lparr>sv_pollFds := map (refreshed s) (sv_pollFds s)\<rparr>"
    by (auto simp: iteration_def split: if_splits)
  moreover have "took env fd [] c c" using Some by (simp add: took_def wired_same takes_some_def writable_def)
  ultimately show ?thesis using f c d by auto
qed

section \<open>Round after round\<close>

lemma prefix_step:
  assumes "b @ m = w @ b'" and "w \<noteq> []" and "prefix (take n b') v"
  shows "prefix (take (Suc n) b) (w @ v)"
proof -
  have "prefix (take (Suc n) b) (take (Suc n) (b @ m))" by (simp add: prefix_def)
  also have "take (Suc n) (b @ m) = take (Suc n) w @ take (Suc n - length w) b'" by (simp add: assms(1))
  also have "prefix \<dots> (w @ take n b')"
  proof (cases "Suc n \<le> length w")
    case True
    then have "take (Suc n) w @ take (Suc n - length w) b' = take (Suc n) w" by simp
    then show ?thesis using take_is_prefix [of "Suc n" w] by (auto intro: prefix_order.trans)
  next
    case False
    moreover have "0 < length w" using assms(2) by simp
    ultimately have "Suc n - length w \<le> n" "take (Suc n) w = w" by (linarith, simp)
    moreover have "prefix (take k b') (take n b')" if "k \<le> n" for k
      using that take_is_prefix [of k "take n b'"] by (simp add: min_absorb1)
    ultimately show ?thesis by simp
  qed
  also have "prefix (w @ take n b') (w @ v)" using assms(3) by simp
  finally show ?thesis .
qed

text \<open>The client is connected and alive after each of the rounds.\<close>

definition stays :: "cptr \<Rightarrow> nat \<Rightarrow> environment stream \<Rightarrow> server \<Rightarrow> bool" where
  "stays p n envs s \<longleftrightarrow> (\<forall>k u. k \<le> n \<longrightarrow> rounds (stake k envs) s = Some (Inr u) \<longrightarrow>
     (\<exists>d. sv_heap u p = Some d \<and> \<not> cl_dead d))"

lemma rounds_delivered:
  assumes "server_inv s" and "kernel_ok_run envs s" and "\<not> failing envs s"
    and "om_find fd (sv_clients s) = Some p" and "sv_heap s p = Some c"
    and "stays p n envs s"
  shows "\<exists>t d ws. rounds (stake n envs) s = Some (Inr t) \<and> sv_heap t p = Some d \<and> length ws = n \<and>
     wired (concat ws) c d \<and>
     (\<forall>i < n. ws ! i \<noteq> [] \<longrightarrow> writable (envs !! i) fd \<and> en_send (envs !! i) fd = Sent (length (ws ! i))) \<and>
     ((\<forall>i < n. takes_some (envs !! i) fd) \<longrightarrow> prefix (take n (cl_sendBuffer c)) (concat ws))"
  using assms
proof (induction n arbitrary: envs s c)
  case 0
  then show ?case by (auto simp: wired_same)
next
  case (Suc n envs s c)
  from Suc.prems(1,2) show ?case
  proof (cases rule: first_round)
    case (failed x)
    with Suc.prems(3) show ?thesis using failing_now by blast
  next
    case (served u)
    have "rounds (stake 1 envs) s = Some (Inr u)" using served(1) by simp
    moreover have "1 \<le> Suc n" by simp
    ultimately obtain d0 where d0: "sv_heap u p = Some d0" "\<not> cl_dead d0"
      using Suc.prems(6) unfolding stays_def by blast
    from round_took [OF Suc.prems(1) kernel_ok_run_now [OF Suc.prems(2)] Suc.prems(4,5) served(1) d0(1)]
    obtain w where f: "om_find fd (sv_clients u) = Some p" and w: "took (shd envs) fd w c d0" by blast
    have fine: "\<not> failing (stl envs) u" using Suc.prems(3) failing_next [OF served(1)] by blast
    have "stays p n (stl envs) u"
      unfolding stays_def
    proof (intro allI impI)
      fix k v
      assume "k \<le> n" and "rounds (stake k (stl envs)) u = Some (Inr v)"
      then have "Suc k \<le> Suc n" "rounds (stake (Suc k) envs) s = Some (Inr v)" using served(1) by simp_all
      then show "\<exists>d. sv_heap v p = Some d \<and> \<not> cl_dead d" using Suc.prems(6) unfolding stays_def by blast
    qed
    from Suc.IH [OF served(2,3) fine f d0(1) this] obtain t d ws where
      t: "rounds (stake n (stl envs)) u = Some (Inr t)" "sv_heap t p = Some d" "length ws = n" "wired (concat ws) d0 d"
      and sent: "\<forall>i < n. ws ! i \<noteq> [] \<longrightarrow> writable (stl envs !! i) fd \<and>
         en_send (stl envs !! i) fd = Sent (length (ws ! i))"
      and pre: "(\<forall>i < n. takes_some (stl envs !! i) fd) \<longrightarrow> prefix (take n (cl_sendBuffer d0)) (concat ws)" by blast
    have all: "wired (concat (w # ws)) c d"
      using wired_append [of w c d0 "concat ws" d] w t(4) by (simp add: took_def)
    have each: "\<forall>i < Suc n. (w # ws) ! i \<noteq> [] \<longrightarrow> writable (envs !! i) fd \<and>
         en_send (envs !! i) fd = Sent (length ((w # ws) ! i))"
      using w sent by (auto simp: took_def less_Suc_eq_0_disj)
    have "prefix (take (Suc n) (cl_sendBuffer c)) (w @ concat ws)" if some: "\<forall>i < Suc n. takes_some (envs !! i) fd"
    proof -
      have "takes_some (shd envs) fd" using some by (metis snth.simps(1) zero_less_Suc)
      then have "w \<noteq> [] \<or> cl_sendBuffer c = []" using w d0(2) by (simp add: took_def)
      moreover have "\<forall>i < n. takes_some (stl envs !! i) fd" using some by (metis Suc_less_eq snth.simps(2))
      then have "prefix (take n (cl_sendBuffer d0)) (concat ws)" using pre by blast
      moreover obtain ms where "cl_sendBuffer c @ concat ms = w @ cl_sendBuffer d0" using w by (auto simp: took_def wired_def)
      ultimately show ?thesis using prefix_step by fastforce
    qed
    with t each all served(1) show ?thesis
      by (intro exI [of _ t] exI [of _ d] exI [of _ "w # ws"]) simp
  qed
qed

section \<open>Delivered\<close>

text \<open>
  C19. Delivery: over any number of rounds in which a client stays connected, the bytes that \<open>send\<close> took for it go out one round's
  share after the other, and they, followed by what still waits in its
  send buffer, are what waited before followed by whole messages, in order: no byte is lost, repeated or changed. Bytes go out only when the kernel reports the
  socket writable, and then as many as \<open>send\<close> reports. Whenever in each of \<open>n\<close> rounds the socket is
  writable and takes something, the first \<open>n\<close> bytes that were waiting (all of them, if there were no more) have
  been delivered, whatever the other clients do in the meantime.
\<close>

theorem queued_is_delivered:
  assumes "server_inv s" and "kernel_ok_run envs s" and "\<not> failing envs s"
    and "om_find fd (sv_clients s) = Some p" and "sv_heap s p = Some c" and "stays p n envs s"
  shows "\<exists>t d ws. rounds (stake n envs) s = Some (Inr t) \<and> sv_heap t p = Some d \<and> length ws = n \<and>
     cl_wire d = cl_wire c @ concat ws \<and>
     (\<exists>ms. list_all isValidOutboundMessage ms \<and> cl_sendBuffer c @ concat ms = concat ws @ cl_sendBuffer d) \<and>
     (\<forall>i < n. ws ! i \<noteq> [] \<longrightarrow> writable (envs !! i) fd \<and> en_send (envs !! i) fd = Sent (length (ws ! i))) \<and>
     ((\<forall>i < n. takes_some (envs !! i) fd) \<longrightarrow> prefix (take n (cl_sendBuffer c)) (concat ws))"
  using rounds_delivered [OF assms] unfolding wired_def by blast

text \<open>The bot, to which the server owes its welcome, takes the first byte of it.\<close>

definition demo_flush :: environment where
  "demo_flush = demo_env (\<lambda>fd. if fd = 4 then POLLOUT else 0) (AcceptFailed EAGAIN) (Pending [])"

lemma demo_welcome: "1 < length (cl_sendBuffer demo_bot)"
  by (simp add: demo_bot_def sendMessage_def isValidOutboundMessage_def MAX_SEND_BUFFER_def MAX_IRC_MESSAGE_SIZE_def
      welcome_message_def BOT_NICKNAME_def cat_def)

abbreviation flushed_bot :: client where
  "flushed_bot \<equiv> consumeSendBuffer 1 (on_wire 1 demo_bot)"

lemma demo_flushed: "flushed_bot = (on_wire 1 demo_bot)\<lparr>cl_sendBuffer := drop 1 (cl_sendBuffer demo_bot)\<rparr>"
proof -
  have "\<not> length (cl_sendBuffer demo_bot) < 1" "1 \<noteq> length (cl_sendBuffer demo_bot)" using demo_welcome by linarith+
  then show ?thesis unfolding consumeSendBuffer_def by simp
qed

lemma demo_flush_round: "\<exists>t. iteration demo_flush demo_second = Some (Inr t) \<and> sv_heap t = [0 \<mapsto> flushed_bot]"
proof -
  let ?s1 = "demo_second\<lparr>sv_pollFds := map (refreshed demo_second) (sv_pollFds demo_second)\<rparr>"
  let ?s2 = "polled demo_flush ?s1"
  let ?d = "flushed_bot"
  let ?t = "put_client 0 ?d ?s2"
  have inv: "server_inv demo_second" by (rule reachable_inv [OF demo_second_reachable])
  have fields: "sv_clients ?s2 = [(4, 0)]" "sv_heap ?s2 = [0 \<mapsto> demo_bot]" "sv_listenFd ?s2 = 3"
    using demo_second_fields by (simp_all add: polled_def)
  have polls: "length (sv_pollFds ?s2) = 2" "pfd_revents (sv_pollFds ?s2 ! 0) = 0"
    "pfd_fd (sv_pollFds ?s2 ! 1) = 4" "pfd_revents (sv_pollFds ?s2 ! 1) = POLLOUT"
    by (simp_all add: polled_def demo_second_def put_client_def refreshed_def demo_flush_def demo_env_def)
  have "handleClientWrite 4 (Sent 1) ?s2 = Some ?t"
    using demo_welcome demo_bot_fields(1) fields
    by (auto simp: handleClientWrite_def getClientByFd_def deref_def invoke_def put_client_def)
  then have "serve_fd demo_flush 4 POLLOUT ?s2 = Some (Inr ?t)"
    using fields(3) by (simp add: serve_fd_def has_event_def POLLIN_def POLLOUT_def POLLERR_def POLLHUP_def POLLNVAL_def
        demo_flush_def demo_env_def)
  then have serve: "serve_loop demo_flush 0 ?s2 = Some (Inr ?t)"
    using polls by (intro serve_second) (simp_all add: POLLOUT_def put_client_def)
  have "\<not> cl_dead ?d" "\<not> cl_closing ?d"
    using demo_bot_fields(1,2) by (simp_all only: demo_flushed) simp_all
  moreover have "cl_sendBuffer ?d \<noteq> []" using demo_welcome by (simp only: demo_flushed) simp
  ultimately have "reapDeadClients ?t = Some ?t"
    using fields by (simp add: reapDeadClients_def put_client_def deref_def)
  then have "iteration demo_flush demo_second = Some (Inr ?t)"
    using refresh_eq [OF inv] serve demo_second_fields(5)
    by (auto simp: iteration_def demo_flush_def demo_env_def)
  then show ?thesis using fields(2) by (auto simp: put_client_def)
qed

lemma queued_is_delivered_witness:
  "\<exists>t d w. rounds [demo_flush] demo_second = Some (Inr t) \<and> sv_heap t 0 = Some d \<and>
     prefix (take 1 (cl_sendBuffer demo_bot)) w \<and> cl_wire d = cl_wire demo_bot @ w \<and>
     (\<exists>ms. list_all isValidOutboundMessage ms \<and> cl_sendBuffer demo_bot @ concat ms = w @ cl_sendBuffer d)"
proof -
  let ?envs = "demo_flush ## sconst demo_quiet"
  have i: "server_inv demo_second" by (rule reachable_inv [OF demo_second_reachable])
  have "kernel_ok (?envs !! k) t" for k t
    by (cases k) (simp_all add: kernel_ok_def demo_flush_def demo_quiet_def demo_env_def)
  then have ok: "kernel_ok_run ?envs demo_second" by (simp only: kernel_ok_run_def) blast
  have "\<not> fatal (?envs !! k) t" if "rounds (stake k ?envs) demo_second = Some (Inr t)" for k t
    using that by (cases k) (auto simp: fatal_def demo_flush_def demo_quiet_def demo_env_def demo_second_fields)
  then have fine: "\<not> failing ?envs demo_second" unfolding failing_def by blast
  have f: "om_find 4 (sv_clients demo_second) = Some 0" "sv_heap demo_second 0 = Some demo_bot"
    by (simp_all add: demo_second_fields)
  have some: "takes_some demo_flush 4"
    by (simp add: takes_some_def writable_def demo_flush_def demo_env_def has_event_def POLLOUT_def)
  obtain t where t: "iteration demo_flush demo_second = Some (Inr t)" "sv_heap t = [0 \<mapsto> flushed_bot]"
    using demo_flush_round by blast
  have alive: "\<not> cl_dead demo_bot" "\<not> cl_dead (flushed_bot)"
    using demo_bot_fields(1) by (simp_all only: demo_flushed) simp_all
  have "stays 0 1 ?envs demo_second"
    unfolding stays_def
  proof (intro allI impI)
    fix k u
    assume "k \<le> (1::nat)" and u: "rounds (stake k ?envs) demo_second = Some (Inr u)"
    then consider "k = 0" | "k = 1" by linarith
    then show "\<exists>d. sv_heap u 0 = Some d \<and> \<not> cl_dead d"
    proof cases
      case 1
      then show ?thesis using u f alive by auto
    next
      case 2
      then show ?thesis using u t alive by auto
    qed
  qed
  from queued_is_delivered [OF i ok fine f this] obtain u d ws ms where
    "rounds [demo_flush] demo_second = Some (Inr u)" "sv_heap u 0 = Some d"
    "cl_wire d = cl_wire demo_bot @ concat ws" "list_all isValidOutboundMessage ms" "cl_sendBuffer demo_bot @ concat ms = concat ws @ cl_sendBuffer d"
    "prefix (take 1 (cl_sendBuffer demo_bot)) (concat ws)"
    using some by auto
  then show ?thesis by blast
qed

end
