(* ===== verification/Spec2Isabelle.thy ===== *)
theory Spec2Isabelle
  imports Command_Properties Audience Flush Network_Properties Run_Refinement Delivery_Run
begin

text \<open>
  A model of \<open>ircserv\<close>, an IRC server in C++98 (\<open>src/src/\<close>, \<open>src/include/\<close>), and of
  \<open>ircbot\<close>, the greeting bot that comes with it (\<open>src/src/bot/\<close>).

  \<^bold>\<open>The program.\<close> One thread runs \<open>Server::run\<close>: refresh the events asked for, \<open>poll\<close>, then for each
  descriptor with events accept a connection (\<open>acceptNewClient\<close>), read (\<open>handleClientRead\<close>) or write
  (\<open>handleClientWrite\<close>), and at the end of the round drop the clients that are dead, or closing with
  nothing left to send (\<open>reapDeadClients\<close>, \<open>disconnectClient\<close>). Reading appends to the receive buffer
  of the \<open>Client\<close>, cuts lines out of it (\<open>extractLine\<close>) and hands each to \<open>Server::processLine\<close>, which
  parses it (\<open>Parser::parse\<close>) and calls one of nine commands through the virtual \<open>Command::execute\<close>.
  Commands change the client, the channels, and queue messages in send buffers (\<open>Client::sendMessage\<close>).
  The bot connects as a client, registers, joins a channel and greets whoever joins it.

  \<^bold>\<open>Theories and sources.\<close>
  \<^item> \<open>Irc_Prelude\<close>: computations that may run into undefined behaviour (\<open>wp\<close>, \<open>pc\<close>), the loop over
    receivers, substring search, the theorem collections \<open>irc_simps\<close> and \<open>irc_frames\<close>.
  \<^item> \<open>Ordered_Map\<close> (\<open>std::map\<close>), \<open>Handle_Vector\<close> (a \<open>std::vector<Client*>\<close> used as a set), \<open>Cxx_Text\<close>
    (\<open><cctype>\<close>, \<open>getline\<close>, \<open>operator>>\<close>, \<open>atoi\<close>): what the code uses of the C++ library, and
    \<open>splitString\<close>, \<open>toUpperCase\<close>.
  \<^item> \<open>Parser\<close>: \<open>parser/Parser.cpp\<close>. \<open>Line_Framing\<close>: the contract that \<open>Client::extractLine\<close> and
    \<open>Bot::extractLine\<close> share. \<open>Client\<close>: \<open>client/Client.cpp\<close>. \<open>Identifiers\<close>: the checks of nicknames, user and
    channel names and the casemapping. \<open>Channel\<close>: \<open>channel/Channel.cpp\<close>.
  \<^item> \<open>Server_State\<close>: the members of \<open>Server\<close>, its lookups and broadcasts; \<open>Server_Inv\<close>: the invariant.
  \<^item> \<open>Command_Contract\<close>: the locale \<open>command_handler\<close>, what the dispatcher relies on. \<open>Cmd_Registration\<close>
    (\<open>Pass.cpp\<close>, \<open>Nick.cpp\<close>, \<open>User.cpp\<close>), \<open>Cmd_Join\<close>, \<open>Cmd_Channel_Admin\<close> (\<open>Kick.cpp\<close>,
    \<open>InviteCommand.cpp\<close>, \<open>TopicCommand.cpp\<close>), \<open>Cmd_Privmsg\<close>, \<open>Cmd_Mode\<close>: each command, and an
    interpretation of the contract for each.
  \<^item> \<open>Dispatch\<close>: \<open>processLine\<close>, \<open>handleClientRead\<close>, \<open>handleClientWrite\<close>. \<open>Lifecycle\<close>: accepting, refreshing,
    reaping, disconnecting. \<open>Event_Loop\<close>: \<open>run\<close>, constructor, destructor, \<open>setupSignals\<close>,
    \<open>setupSocket\<close>, the handler of the signals, the step relation and the reachable states. \<open>Main_Loop\<close>: the loop
    of \<open>run\<close> as a whole, when it ends and when it does not. \<open>Flush\<close>: how a closing client leaves.
    \<open>Access_Control\<close>: the locale \<open>guarded_command\<close>, which extends the contract of the commands by the access
    rules of channels, and what any line can change in channels. \<open>Audience\<close>: the locale \<open>confined_command\<close>, which extends it by
    the circle of clients that may hear of a command. \<open>Server_Main\<close>: \<open>main.cpp\<close>.
  \<^item> \<open>Network_Spec\<close>: what the server promises, without descriptors, buffers, vectors or replies: an abstract network
    of users, nicknames and rooms, and what each line, each new connection and each departure does to it.
    \<open>Network_Refinement\<close>: the abstraction \<open>network_of\<close>, and that the server's operations commute with it;
    \<open>Round_Refinement\<close>: a whole round of the loop as a list of events on the network, at whose end those leave it who
    are leaving in the network and have no output pending in the server (\<open>close_round\<close>, \<open>drained\<close>); \<open>Run_Refinement\<close>: a whole run, from
    the empty network on.
    \<open>Network_Properties\<close>: the properties that follow. \<open>Delivery\<close>, \<open>Delivery_Run\<close>: the output of one client, from \<open>sendMessage\<close> to
    the bytes its socket takes, in any order of operations and round by round of the loop.
  \<^item> \<open>Bot\<close>: \<open>bot/Bot.cpp\<close>. \<open>Bot_Session\<close>: \<open>bot/main.cpp\<close> and the two programs together.
  \<^item> \<open>Example_State\<close>: concrete servers on which hypotheses are discharged. \<open>Command_Properties\<close> and this
    theory: the properties of the commands, and those that span components.

  \<^bold>\<open>How state and operations correspond.\<close> A class is a record with the members of the class in their order (and, in
  \<open>server\<close> and \<open>bot\<close>, the heap and what the kernel holds, in \<open>client\<close> the bytes \<open>cl_wire\<close> that its socket
  has taken so far, which no operation reads); a
  method is a function of its name that takes the object last and returns it. A \<open>Client*\<close> is an address
  into \<open>sv_heap\<close>; addresses are never used again after \<open>delete\<close>, so a stale pointer stays stale.
  An access through a pointer to no object is undefined behaviour: the computation is \<open>None\<close>. A
  \<open>Channel*\<close> is the key of its entry in \<open>_channels\<close>, which is the one owner of the object. \<open>os_fds\<close> is the
  set of open descriptors. An exception is an \<open>Inl\<close>, with the object as it
  was thrown where a destructor will run. A system call is an argument: \<open>environment\<close> has what
  \<open>poll\<close>, \<open>accept\<close>, \<open>recv\<close> and \<open>send\<close> answer in a round, for each descriptor, and whether a signal
  arrives in it, \<open>start_calls\<close> what the calls at the start return; for the bot they are lists of answers. Of the kernel the theorems assume only
  that \<open>accept\<close> and \<open>socket\<close> return descriptors that are not negative and, for \<open>accept\<close>, were not open
  (\<open>kernel_ok\<close>); \<open>recv\<close> returns at most the 4096 bytes asked for.
  The \<open>unsigned\<close> counter of wrong passwords is a 32-bit word, poll events are 16-bit words, and
  \<open>atoi\<close> keeps the low 32 bits of the \<open>long\<close> that glibc's \<open>strtol\<close> saturates, as it does on
  an LP64 machine. \<open>isdigit\<close> and \<open>isalpha\<close> are those of the "C" locale. In three places the code does what the C++ standard leaves
  undefined, and the model has what glibc and libstdc++ do: the two calls of \<open>isalpha\<close> and \<open>isdigit\<close> in \<open>ModeCommand.cpp\<close> that
  pass a plain \<open>char\<close> answer 0 for a byte over 127, and \<open>target[0]\<close> of an empty parameter of MODE is \<open>NUL\<close>. No theorem says that
  these are free of undefined behaviour.

  \<^bold>\<open>What the lemmas show.\<close> \<open>server_inv\<close> joins the invariants of clients, channels, nicknames, heap, poll
  vector and quotas. The frame lemmas (\<open>handled\<close>, \<open>touched\<close>, \<open>sent\<close>) bound what a computation changes (\<open>sent_client\<close>: the object of another
  client is what it was, with some messages queued), the \<open>_wp\<close>
  lemmas say that it is free of undefined behaviour and what it does; each command's are put
  together in its interpretation of \<open>command_handler\<close>. From these follow the invariant of every reachable
  state, the effect of each command, access control, the accounting of descriptors and memory, and that a
  closing client leaves. The refinement lemmas (\<open>_refines\<close>) say that \<open>network_of\<close> maps each operation to its
  counterpart on the abstract network; they hold where no send buffer overflows (\<open>calm\<close>), since a client that overflows
  is dead and loses its nickname at once, which the abstract network does not know; for a whole round and a whole run,
  where no connection fails (\<open>steady\<close>, \<open>steady_run\<close>). The contract of the commands is extended twice more: by the circle of
  clients that a command may reach (\<open>confined_command\<close>), and by access control (\<open>guarded_command\<close>). \<open>outputs\<close> and
  \<open>accounted\<close> follow the messages of a client through its send buffer, \<open>wired\<close> and \<open>took\<close> the bytes that leave it in a
  round.

  \<^bold>\<open>Bounds.\<close> No fuel is used. Loops over containers recurse on them; the line loops shrink the
  receive buffer; the loop over the poll vector, which \<open>accept\<close> extends, has the measure \<open>serve_work\<close>. The main loop
  is a partial function over an infinite stream of environments: it ends in the round in which a signal arrives or an
  exception leaves it, and has no value when neither ever happens; \<open>rounds\<close> runs a finite list of them. The bot's loops
  run until the list of answers ends, and are then blocked in a system call (\<open>None\<close>). That the bot's
  calls return is proved where the socket takes bytes (\<open>bot_sends_whole_lines\<close>).

  \<^bold>\<open>Not modelled.\<close> Failing memory allocation, except where \<open>acceptNewClient\<close> rolls a registration back (the argument
  \<open>memory\<close> says which of the three allocations fails): so the \<open>catch\<close> of \<open>processLine\<close>, which nothing else reaches,
  is left out. A signal that arrives in the middle of a round is seen, as in the code, at the next test of the flag: the
  model sets the flag with the round it arrived in. The log lines and warnings that the server writes to \<open>std::cout\<close> and \<open>std::cerr\<close> while it
  serves: of the error stream the model has what \<open>main.cpp\<close> itself writes and, for the bot, everything. The empty constructors and
  destructors of the commands: commands have no state, and \<open>command_kind\<close> stands for the objects that the
  factories allocate. Accessors that return a member are abbreviations of the record's selectors. The
  branches of \<open>appendToRecvBuffer\<close> for a null pointer: its one caller passes a local array. The
  Makefile, the documents and the pictures.
\<close>

section \<open>Every state the server can reach\<close>

text \<open>
  C1. From a reachable state, with any answers of the kernel to \<open>poll\<close>, \<open>accept\<close>, \<open>recv\<close> and
  \<open>send\<close> (\<open>accept\<close> returning a descriptor that was not open), a round of the event loop always
  has a result: no stale \<open>Client*\<close> or \<open>Channel*\<close> is dereferenced and no loop runs forever. It
  ends by an exception only when \<open>poll\<close> or the listening socket failed; in both cases the
  invariant holds again.
\<close>

theorem server_rounds:
  assumes s: "reachable s" and k: "kernel_ok env s"
  shows "\<exists>r. iteration env s = Some r \<and>
     (case r of Inl x \<Rightarrow> fatal env s \<and> server_inv (snd x) | Inr t \<Rightarrow> reachable t \<and> server_inv t)"
proof -
  from iteration_wp [OF reachable_inv [OF s] k] obtain r where r: "iteration env s = Some r"
    "case r of Inl x \<Rightarrow> fatal env s \<and> server_inv (snd x) | Inr t \<Rightarrow> server_inv t" by (rule wpE)
  then show ?thesis
    using reachable.step [OF s server_step.round [OF k]] by (cases r) simp_all
qed

lemma server_rounds_witness: "\<exists>t. iteration demo_quiet demo_first = Some (Inr t) \<and> server_inv t"
proof -
  have k: "kernel_ok demo_quiet demo_first" by (simp add: kernel_ok_def demo_quiet_def demo_env_def)
  have "\<not> fatal demo_quiet demo_first" by (simp add: fatal_def demo_quiet_def demo_env_def)
  moreover from server_rounds [OF demo_first_reachable k] obtain r where "iteration demo_quiet demo_first = Some r"
    "case r of Inl x \<Rightarrow> fatal demo_quiet demo_first \<and> server_inv (snd x) | Inr t \<Rightarrow> reachable t \<and> server_inv t" by blast
  ultimately show ?thesis by (cases r) auto
qed

text \<open>
  C5. In every reachable state two connections that are not dead and hold a nickname hold
  different ones, also under the IRC casemapping (\<open>{|}^\<close> being the lower case of \<open>[\]~\<close>), and every
  nickname held is a valid one.
\<close>

theorem unique_nicknames:
  assumes s: "reachable s" and c: "sv_heap s p = Some c" "\<not> cl_dead c" "cl_nickSet c"
  shows "isValidNickname (cl_nickname c) \<and>
     (\<forall>q d. sv_heap s q = Some d \<longrightarrow> \<not> cl_dead d \<longrightarrow>
        toIrcLowerCase (cl_nickname d) = toIrcLowerCase (cl_nickname c) \<longrightarrow> q = p)"
proof -
  have i: "server_inv s" by (rule reachable_inv [OF s])
  have v: "isValidNickname (cl_nickname c)"
    using inv_client [OF i c(1)] c(3) by (simp add: client_inv_def identity_wf_def)
  then have "cl_nickname c \<noteq> []" by (rule valid_nickname_chars(1))
  with v show ?thesis using invD(3) [OF i] c(1,2) unfolding nick_inv_def by metis
qed

lemma unique_nicknames_witness:
  "\<exists>s. reachable s \<and> (\<exists>d. sv_heap s 0 = Some d \<and> cl_nickname d = BOT_NICKNAME) \<and>
     (\<forall>q d. sv_heap s q = Some d \<longrightarrow> \<not> cl_dead d \<longrightarrow>
        toIrcLowerCase (cl_nickname d) = toIrcLowerCase BOT_NICKNAME \<longrightarrow> q = 0)"
proof -
  obtain s d where s: "reachable s" "sv_heap s 0 = Some d" "isRegistered d" "cl_nickname d = BOT_NICKNAME"
    "\<not> cl_dead d"
    using reachable_registered by blast
  then have "cl_nickSet d" by (simp add: isRegistered_def)
  from unique_nicknames [OF s(1,2,5) this] s show ?thesis by auto
qed

text \<open>
  C6. In every reachable state each channel is filed under its own valid name; its vectors
  have no duplicates and hold no dangling pointer; its members are registered clients and its
  operators are members; its limit fits a C++ \<open>int\<close>.
\<close>

theorem channels_consistent:
  assumes s: "reachable s" and ch: "om_find n (sv_channels s) = Some ch"
  shows "isValidChannelName n \<and> ch_name ch = n \<and> ch_userLimit ch < 2 ^ 31 \<and>
     distinct (ch_members ch) \<and> distinct (ch_operators ch) \<and> distinct (ch_invitedClients ch) \<and>
     set (ch_operators ch) \<subseteq> set (ch_members ch) \<and>
     (\<forall>q. isMember ch q \<longrightarrow> (\<exists>c. sv_heap s q = Some c \<and> isRegistered c)) \<and>
     (\<forall>q. isInvited ch q \<longrightarrow> (\<exists>c. sv_heap s q = Some c))"
  using inv_channel [OF reachable_inv [OF s] ch]
  by (auto simp: chan_wf_def isMember_iff isInvited_iff reg_ptrs_def dest: subsetD)

lemma channels_consistent_witness:
  "\<exists>s ch. reachable s \<and> om_find ''#c'' (sv_channels s) = Some ch \<and> isValidChannelName ''#c'' \<and>
     set (ch_operators ch) \<subseteq> set (ch_members ch)"
proof -
  obtain s ch where s: "reachable s" "om_find ''#c'' (sv_channels s) = Some ch" using reachable_channel by blast
  from channels_consistent [OF this] s show ?thesis by blast
qed

text \<open>
  C21. In every reachable state the open descriptors of the process are the listening socket
  and one for each entry of the client map, the poll vector watches each of them exactly once,
  and the map owns the live client objects, one each, under their own descriptor.
\<close>

theorem descriptors_accounted:
  assumes s: "reachable s"
  shows "os_fds s = insert (sv_listenFd s) (fst ` set (sv_clients s)) \<and>
     distinct (map pfd_fd (sv_pollFds s)) \<and> pfd_fd ` set (sv_pollFds s) = os_fds s \<and>
     distinct (map snd (sv_clients s)) \<and> snd ` set (sv_clients s) = dom (sv_heap s) \<and>
     (\<forall>fd p. om_find fd (sv_clients s) = Some p \<longrightarrow> (\<exists>c. sv_heap s p = Some c \<and> cl_fd c = fd))"
proof -
  have i: "server_inv s" by (rule reachable_inv [OF s])
  show ?thesis
    using invD(1,4) [OF i] getClientByFd_wp [OF i] by (auto simp: heap_inv_def poll_inv_def getClientByFd_def)
qed

lemma descriptors_accounted_witness: "reachable demo_second \<and> os_fds demo_second = {3, 4}"
  using descriptors_accounted [OF demo_second_reachable] demo_second_reachable demo_second_fields by simp

text \<open>
  C22. In every reachable state there are at most 512 clients and at most 128 live ones from
  one address; each object has at most 8192 bytes of input and 65536 bytes of output waiting,
  the output is the unsent rest of whole messages of at most 512 bytes, and at most three
  wrong passwords have been counted.
\<close>

theorem resources_bounded:
  assumes s: "reachable s"
  shows "length (sv_clients s) \<le> 512 \<and> (\<forall>ip. ip_load ip s \<le> 128) \<and>
     (\<forall>p c. sv_heap s p = Some c \<longrightarrow> length (cl_recvBuffer c) \<le> 8192 \<and> length (cl_sendBuffer c) \<le> 65536 \<and>
        framed (cl_sendBuffer c) \<and> unat (cl_failedPassAttempts c) \<le> 3)"
proof -
  have i: "server_inv s" by (rule reachable_inv [OF s])
  show ?thesis
    using invD(5) [OF i] inv_client [OF i]
    by (auto simp: quota_inv_def MAX_TOTAL_CLIENTS_def MAX_CLIENTS_PER_IP_def client_inv_def client_wf_def
        attempts_wf_def MAX_RECV_BUFFER_def MAX_SEND_BUFFER_def)
qed

lemma resources_bounded_witness: "reachable demo_second \<and> framed (cl_sendBuffer demo_bot)"
  using resources_bounded [OF demo_second_reachable] demo_second_reachable demo_second_fields by simp

text \<open>
  C23. From every reachable state the destructor of the server closes every descriptor and
  frees every object.
\<close>

theorem shutdown_closes_everything:
  assumes s: "reachable s"
  shows "\<exists>t. destroy_Server s = Some t \<and> os_fds t = {} \<and> sv_heap t = Map.empty \<and> sv_channels t = []"
  using destroy_closes_all [OF reachable_inv [OF s]] by (auto elim!: wpE)

lemma shutdown_closes_everything_witness: "\<exists>t. destroy_Server demo_second = Some t \<and> os_fds t = {}"
  using shutdown_closes_everything [OF demo_second_reachable] by blast

section \<open>One line of a client\<close>

text \<open>
  C3. A client that is not registered gets nothing done by any command except QUIT, PASS and,
  once its password was accepted, NICK and USER: it receives at most a reply.
\<close>

theorem registration_gate:
  assumes c: "sv_heap s p = Some c" "\<not> isRegistered c"
    and cmd: "msg_command (parse l) \<notin> {''QUIT'', ''PASS''}"
    and pass: "msg_command (parse l) \<in> {''NICK'', ''USER''} \<Longrightarrow> \<not> cl_passOk c"
  shows "replied p s (processLine p l s)"
  using processLine_unregistered [OF c cmd pass] .

lemma registration_gate_witness: "replied 2 demo (processLine 2 ''JOIN #c'' demo)"
proof -
  have "msg_command (parse ''JOIN #c'') = ''JOIN''" by code_simp
  then show ?thesis using registration_gate [of demo 2 "demo_client 6 []" "''JOIN #c''"] by simp
qed

text \<open>
  C4. After a line of client \<open>p\<close> a client \<open>q\<close> counts as authenticated only if it did before, or
  if \<open>q\<close> is \<open>p\<close> and the line was PASS with the server's password.
\<close>

theorem password_guard:
  assumes i: "server_inv s" and p: "p \<in> dom (sv_heap s)"
    and t: "processLine p l s = Some t" and d: "sv_heap t q = Some d" "cl_passOk d"
  shows "(\<exists>c. sv_heap s q = Some c \<and> cl_passOk c) \<or>
    q = p \<and> msg_command (parse l) = ''PASS'' \<and> (\<exists>rest. msg_params (parse l) = sv_password s # rest)"
proof (rule ccontr)
  assume no: "\<not> ?thesis"
  have h: "handled p s t" by (rule pcD [OF processLine_frame t])
  have q: "q = p"
  proof (rule ccontr)
    assume "q \<noteq> p"
    then have "rel_option sent_client (sv_heap s q) (sv_heap t q)" by (rule touched_rel [OF h])
    then obtain c where "sv_heap s q = Some c" "sent_client c d" using d by (auto elim: option.rel_cases)
    then show False using no d(2) sent_client_fields(6) by blast
  qed
  obtain c where c: "sv_heap s p = Some c" using p by blast
  have np: "\<not> cl_passOk c" using no c q by blast
  let ?m = "parse l"
  consider "msg_command ?m = ''PASS''" | "msg_command ?m = ''QUIT''" | "msg_command ?m \<notin> {''QUIT'', ''PASS''}" by auto
  then show False
  proof cases
    case 1
    then have "pass_execute p (msg_params ?m) s = Some t"
      using t c commands_table [OF i, of "''PASS''"]
      by (simp add: processLine_def processMessage_def Let_def deref_def execute_def)
    then have "d = pass_client (sv_password s) (msg_params ?m) c"
      using pass_execute_eval [OF c, of "msg_params ?m"] d(1) q by auto
    then have "\<exists>rest. msg_params ?m = sv_password s # rest"
      using np d(2) by (cases "msg_params ?m") (auto simp: pass_client_def Let_def split: if_splits)
    with no q 1 show False by blast
  next
    case 2
    then obtain r where "sv_heap t p = Some (markClosing r c)"
      using t c by (auto simp: processLine_def processMessage_def Let_def invoke_def deref_def)
    then have "d = markClosing r c" using d(1) q by simp
    then show False using d(2) np by simp
  next
    case 3
    have "\<not> isRegistered c" using np by (simp add: isRegistered_def)
    from processLine_unregistered [OF c this 3 np] t have "replied p s (Some t)" by simp
    from replied_passOk [OF this d(1)] c q np d(2) show False by simp
  qed
qed

lemma password_guard_witness:
  "\<exists>t d. processLine 2 ''PASS pw'' demo = Some t \<and> sv_heap t 2 = Some d \<and> cl_passOk d \<and>
     msg_command (parse ''PASS pw'') = ''PASS''"
proof -
  have parsed: "parse ''PASS pw'' = \<lparr>msg_prefix = [], msg_command = ''PASS'', msg_params = [''pw'']\<rparr>" by code_simp
  let ?d = "(demo_client 6 [])\<lparr>cl_passOk := True\<rparr>"
  have "pass_client ''pw'' [''pw''] (demo_client 6 []) = ?d" by (simp add: pass_client_def)
  then have t: "processLine 2 ''PASS pw'' demo = Some (demo\<lparr>sv_heap := (sv_heap demo)(2 \<mapsto> ?d)\<rparr>)"
    using pass_execute_eval [of demo 2 "demo_client 6 []" "[''pw'']"] commands_table [OF demo_inv, of "''PASS''"] parsed
    by (simp add: processLine_def processMessage_def deref_def execute_def)
  from password_guard [OF demo_inv _ t, of 2 ?d] t show ?thesis by auto
qed

text \<open>
  C2. A line of a client that does not operate a channel, whatever the line, leaves the
  channel's modes, operators, key, limit and the other members alone; the topic changes only if the client is a
  member and the channel is not topic-restricted, the invitations grow only if it is a
  member and the channel is not invite-only, and it becomes a member only where JOIN may
  admit it. The channel disappears only if the client was its one member.
\<close>

theorem no_privilege_escalation:
  assumes i: "server_inv s" and p: "p \<in> dom (sv_heap s)" and l: "clean l"
    and t: "processLine p l s = Some t"
    and ch: "om_find n (sv_channels s) = Some ch" and no: "\<not> isOperator ch p"
  shows "case om_find n (sv_channels t) of
       None \<Rightarrow> set (ch_members ch) = {p}
     | Some ch' \<Rightarrow> unprivileged p ch ch'"
  using pcD [OF processLine_guarded [OF i p l] t] ch no by (simp add: guarded_def)

lemma no_privilege_escalation_witness:
  "\<exists>t ch. processLine 1 ''TOPIC #c :mine'' demo = Some t \<and> om_find ''#c'' (sv_channels t) = Some ch \<and> ch_topic ch = []"
proof -
  have l: "clean ''TOPIC #c :mine''" by simp
  obtain t where t: "processLine 1 ''TOPIC #c :mine'' demo = Some t"
    using processLine_wp [OF demo_inv demo_active(2) l] by (rule wpE)
  have "case om_find ''#c'' (sv_channels t) of None \<Rightarrow> set (ch_members demo_channel) = {1}
      | Some ch' \<Rightarrow> unprivileged 1 demo_channel ch'"
    by (rule no_privilege_escalation [OF demo_inv _ l t]) (simp_all add: demo_operator)
  with t show ?thesis by (auto simp: unprivileged_def split: option.splits)
qed

text \<open>
  C10. Confidentiality and noninterference: the line of one client adds output for nobody but the client itself and the circle of its
  command: for NICK those who share a channel with it; for KICK, TOPIC and MODE the members of the channels named in the first
  parameter, if the client is on them; for PRIVMSG these and the clients named; for INVITE the client named; for JOIN the members of
  the channels that it is on now and was not before, or was on before and is not now; nobody for the rest. Whoever is
  outside is exactly as before, and all that happens to those inside is that messages are queued for them (or that they are marked
  dead, when their send buffer would overflow).
\<close>

theorem who_hears:
  assumes i: "server_inv s" and p: "p \<in> dom (sv_heap s)" and l: "clean l" and t: "processLine p l s = Some t"
  shows "\<forall>q. q \<noteq> p \<longrightarrow> sv_heap t q = sv_heap s q \<or>
     (\<exists>k c d. om_find (msg_command (parse l)) (sv_commands s) = Some k \<and>
        q \<in> circle k p (msg_params (parse l)) s t \<and>
        sv_heap s q = Some c \<and> sv_heap t q = Some d \<and> sent_client c d)"
proof (intro allI impI)
  fix q
  assume q: "q \<noteq> p"
  have "rel_option sent_client (sv_heap s q) (sv_heap t q)" by (rule touched_rel [OF pcD [OF processLine_frame t] q])
  with pcD [OF processLine_confined [OF i p l] t] q
  show "sv_heap t q = sv_heap s q \<or>
     (\<exists>k c d. om_find (msg_command (parse l)) (sv_commands s) = Some k \<and>
        q \<in> circle k p (msg_params (parse l)) s t \<and>
        sv_heap s q = Some c \<and> sv_heap t q = Some d \<and> sent_client c d)"
    by (cases "om_find (msg_command (parse l)) (sv_commands s)")
      (auto simp: confined_def elim: option.rel_cases)
qed

lemma who_hears_witness: "\<exists>t. processLine 0 ''PRIVMSG #c,bob :psst'' demo = Some t \<and> sv_heap t 3 = sv_heap demo 3"
proof -
  have l: "clean ''PRIVMSG #c,bob :psst''" by simp
  obtain t where t: "processLine 0 ''PRIVMSG #c,bob :psst'' demo = Some t"
    using processLine_wp [OF demo_inv demo_active(1) l] by (rule wpE)
  have parsed: "parse ''PRIVMSG #c,bob :psst'' = \<lparr>msg_prefix = [], msg_command = ''PRIVMSG'', msg_params = [''#c,bob'', ''psst'']\<rparr>"
    by code_simp
  have tokens: "splitString ''#c,bob'' CHR '','' = [''#c'', ''bob'']" by code_simp
  have "3 \<notin> circle PrivmsgCommand 0 [''#c,bob'', ''psst''] demo t"
    using demo_operator by (auto simp: circle_def company_def named_def tokens demo_find toIrcLowerCase_def irc_lower_def is_upper_def)
  moreover have "om_find ''PRIVMSG'' (sv_commands demo) = Some PrivmsgCommand" by (simp add: commands_table [OF demo_inv])
  ultimately show ?thesis
    using spec [OF who_hears [OF demo_inv active_dom [OF demo_active(1)] l t], of 3] t by (auto simp: parsed)
qed

text \<open>
  A line of one client leaves the connections, descriptors and the
  configuration of the server alone.
\<close>

lemma others_only_receive:
  assumes t: "processLine p l s = Some t"
  shows "sv_clients t = sv_clients s \<and> os_fds t = os_fds s \<and> sv_pollFds t = sv_pollFds s \<and>
     sv_password t = sv_password s \<and> sv_next t = sv_next s \<and>
     (\<forall>q. q \<noteq> p \<longrightarrow> rel_option sent_client (sv_heap s q) (sv_heap t q))"
  using handled_fields [OF pcD [OF processLine_frame t]] touched_rel [OF pcD [OF processLine_frame t]] by simp

lemma others_only_receive_witness:
  "\<exists>t d. processLine 0 ''KICK #c bob'' demo = Some t \<and> sv_heap t 1 = Some d \<and> cl_nickname d = ''bob''"
proof -
  have l: "clean ''KICK #c bob''" by simp
  obtain t where t: "processLine 0 ''KICK #c bob'' demo = Some t"
    using processLine_wp [OF demo_inv demo_active(1) l] by (rule wpE)
  from others_only_receive [OF t] have "\<forall>q. q \<noteq> 0 \<longrightarrow> rel_option sent_client (sv_heap demo q) (sv_heap t q)" by blast
  then have "rel_option sent_client (sv_heap demo 1) (sv_heap t 1)" by (metis zero_neq_one)
  then obtain d where "sv_heap t 1 = Some d" "sent_client (demo_client 5 ''bob'') d"
    by (auto elim: option.rel_cases)
  with t show ?thesis using sent_client_fields(4) by fastforce
qed

text \<open>
  C29. After QUIT, with or without a reason, the client is closing: the lines behind it in the
  same read are not run, and later reads of its socket do nothing.
\<close>

theorem quit_stops_reading:
  assumes f: "getClientByFd fd s = Some p" and c: "sv_heap s p = Some c" "\<not> cl_dead c" "\<not> cl_closing c"
    and l: "wire_line l" "cl_recvBuffer c = to_wire l @ rest"
    and quit: "msg_command (parse l) = ''QUIT''"
  shows "\<exists>t d. read_loop p s = Some t \<and> sv_heap t = (sv_heap s)(p \<mapsto> d) \<and> sv_channels t = sv_channels s \<and>
     cl_closing d \<and> cl_recvBuffer d = rest \<and> (\<forall>received. handleClientRead fd received t = Some t)"
proof -
  from quit_ends_read_loop [OF c l quit] obtain r where
    t: "read_loop p s = Some (put_client p (markClosing r (c\<lparr>cl_recvBuffer := rest\<rparr>)) s)" by blast
  let ?d = "markClosing r (c\<lparr>cl_recvBuffer := rest\<rparr>)"
  let ?t = "put_client p ?d s"
  have h: "getClientByFd fd ?t = Some p" "sv_heap ?t p = Some ?d"
    using f by (simp_all add: getClientByFd_def put_client_def)
  moreover have closing: "cl_closing ?d" using c(2) by simp
  ultimately have "handleClientRead fd received ?t = Some ?t" for received
    by (intro read_inactive) auto
  with t closing show ?thesis
    by (intro exI [of _ ?t] exI [of _ ?d]) (simp add: put_client_def)
qed

lemma quit_stops_reading_witness:
  "\<exists>t d. read_loop 2 (put_client 2 ((demo_client 6 [])\<lparr>cl_recvBuffer := to_wire ''QUIT'' @ to_wire ''PASS pw''\<rparr>) demo)
     = Some t \<and> sv_heap t 2 = Some d \<and> cl_closing d \<and> cl_recvBuffer d = to_wire ''PASS pw''"
proof -
  let ?c = "(demo_client 6 [])\<lparr>cl_recvBuffer := to_wire ''QUIT'' @ to_wire ''PASS pw''\<rparr>"
  have "msg_command (parse ''QUIT'') = ''QUIT''" by code_simp
  moreover have "wire_line ''QUIT''" by (simp add: wire_line_def MAX_IRC_MESSAGE_SIZE_def)
  moreover have "getClientByFd 6 (put_client 2 ?c demo) = Some 2" by (simp add: getClientByFd_def put_client_def)
  ultimately show ?thesis
    using quit_stops_reading [of 6 "put_client 2 ?c demo" 2 ?c "''QUIT''" "to_wire ''PASS pw''"]
    by auto
qed

section \<open>Connections\<close>

text \<open>
  C24. A connection is admitted exactly when the server has fewer than 512 clients, the descriptor
  could be made non-blocking, the address is known and has fewer than 128 live clients, and no
  allocation fails: then it gets a fresh unregistered client object under its descriptor, which is watched
  from then on. Otherwise, also when the memory runs out at any point of the registration, its descriptor
  is closed, its object freed and its entry removed, and the server is as before.
\<close>

theorem accept_effect:
  assumes i: "server_inv s" and fd: "0 \<le> fd" "fd \<notin> os_fds s"
  shows "acceptNewClient (Accepted fd nonblocking ipText memory) s = Some
     (case ipText of
        Some ip \<Rightarrow>
          if nonblocking \<and> ip \<noteq> [] \<and> length (sv_clients s) < 512 \<and> ip_load ip s < 128 \<and> memory = Memory_ok
          then s\<lparr>os_fds := insert fd (os_fds s), sv_next := Suc (sv_next s),
                 sv_heap := (sv_heap s)(sv_next s \<mapsto> fresh_client fd ip),
                 sv_clients := om_insert fd (sv_next s) (sv_clients s),
                 sv_pollFds := sv_pollFds s @ [\<lparr>pfd_fd = fd, pfd_events = POLLIN, pfd_revents = 0\<rparr>]\<rparr>
          else s
      | None \<Rightarrow> s)"
proof -
  have new: "new_Client fd ip = (if ip = [] then Inl ''Client requires a non-empty IP address''
      else Inr (fresh_client fd ip))" for ip
    using fd by (simp add: new_Client_def fresh_client_def)
  have "register_client fd c (s\<lparr>os_fds := insert fd (os_fds s)\<rparr>) =
      s\<lparr>os_fds := insert fd (os_fds s), sv_next := Suc (sv_next s),
         sv_heap := (sv_heap s)(sv_next s \<mapsto> c),
         sv_clients := om_insert fd (sv_next s) (sv_clients s),
         sv_pollFds := sv_pollFds s @ [\<lparr>pfd_fd = fd, pfd_events = POLLIN, pfd_revents = 0\<rparr>]\<rparr>" for c
    by (cases s) (simp add: register_client_def)
  then show ?thesis
    using fd
    by (subst accept_eval [OF i])
      (auto simp: admits_def new MAX_TOTAL_CLIENTS_def MAX_CLIENTS_PER_IP_def
        split: option.splits memory.splits bool.splits)
qed

lemma accept_effect_witness:
  "\<exists>t. acceptNewClient (Accepted 9 True (Some ''10.0.0.2'') Memory_ok) demo = Some t \<and>
     sv_heap t 4 = Some (fresh_client 9 ''10.0.0.2'') \<and> os_fds t = {3, 4, 5, 6, 7, 9} \<and>
     acceptNewClient (Accepted 9 True (Some ''10.0.0.2'') Push_throws) demo = Some demo"
proof -
  have "ip_load ''10.0.0.2'' demo = 0" by (simp add: ip_load_def from_ip_def)
  then show ?thesis
    using accept_effect [OF demo_inv, of 9 True "Some ''10.0.0.2''" Memory_ok]
      accept_effect [OF demo_inv, of 9 True "Some ''10.0.0.2''" Push_throws] by auto
qed

text \<open>
  Before each \<open>poll\<close> every client's entry asks for exactly what the client needs: for
  output if it has bytes to send, for input unless it is closing; the events returned by the
  last \<open>poll\<close> are cleared. The refresh never throws.
\<close>

lemma poll_events:
  assumes i: "server_inv s"
  shows "\<exists>t. refreshPollEvents s = Some (Inr t) \<and> map pfd_fd (sv_pollFds t) = map pfd_fd (sv_pollFds s) \<and>
     (\<forall>e p c. e \<in> set (sv_pollFds t) \<longrightarrow> om_find (pfd_fd e) (sv_clients s) = Some p \<longrightarrow> sv_heap s p = Some c \<longrightarrow>
        (has_event (pfd_events e) POLLOUT \<longleftrightarrow> cl_sendBuffer c \<noteq> []) \<and>
        (has_event (pfd_events e) POLLIN \<longleftrightarrow> \<not> cl_closing c) \<and> pfd_revents e = 0)"
proof -
  let ?t = "s\<lparr>sv_pollFds := map (refreshed s) (sv_pollFds s)\<rparr>"
  have listen: "fd \<noteq> sv_listenFd s" if "om_find fd (sv_clients s) = Some p" for fd p
    using invD(4) [OF i] om_find_mem [OF that] by (force simp: poll_inv_def)
  have "(has_event (pfd_events e) POLLOUT \<longleftrightarrow> cl_sendBuffer c \<noteq> []) \<and>
        (has_event (pfd_events e) POLLIN \<longleftrightarrow> \<not> cl_closing c) \<and> pfd_revents e = 0"
    if e: "e \<in> set (sv_pollFds ?t)" and f: "om_find (pfd_fd e) (sv_clients s) = Some p" and c: "sv_heap s p = Some c"
    for e p c
  proof -
    from e obtain e0 where e0: "e = refreshed s e0" by auto
    then have "pfd_events e = or (if cl_closing c then 0 else POLLIN) (if hasPendingOutput c then POLLOUT else 0)"
      using f c listen [OF f] by (simp add: refreshed_def wanted_events_def getClientByFd_def)
    then show ?thesis
      using e0 by (simp add: refreshed_def has_event_def hasPendingOutput_def POLLIN_def POLLOUT_def)
  qed
  moreover have "map pfd_fd (sv_pollFds ?t) = map pfd_fd (sv_pollFds s)" by (simp add: refreshed_def)
  ultimately show ?thesis using refresh_eq [OF i] by blast
qed

lemma poll_events_witness: "\<exists>t. refreshPollEvents demo = Some (Inr t) \<and> map pfd_fd (sv_pollFds t) = [3, 4, 5, 6, 7]"
  using poll_events [OF demo_inv] by (auto simp: demo_poll_def)

text \<open>
  C18. Disconnecting a client destroys its object and closes its descriptor, takes it out of the
  client map and out of the members, operators and invitations of every channel, and sends a
  registered client's QUIT exactly once to everyone who shared a channel with it; the
  invariant holds again, so no pointer to it is left.
\<close>

theorem disconnect_effect:
  assumes i: "server_inv s" and f: "om_find fd (sv_clients s) = Some p" and c: "sv_heap s p = Some c"
  shows "\<exists>t. disconnectClient fd s = Some t \<and> server_inv t \<and> sv_heap t p = None \<and>
     om_find fd (sv_clients t) = None \<and> os_fds t = os_fds s - {fd} \<and>
     (\<forall>n. om_find n (sv_channels t) = map_option (\<lambda>ch. removeInvited p (removeMember p ch)) (om_find n (sv_channels s))) \<and>
     (\<forall>q. q \<noteq> p \<longrightarrow> sv_heap t q =
        (if isRegistered c \<and> q \<in> neighbours p s then map_option (sendMessage (quit_message c)) (sv_heap s q)
         else sv_heap s q))"
proof -
  let ?u = "if isRegistered c then queue (quit_message c) (neighbours p s) s else s"
  have e: "disconnectClient fd s = Some (drop_client fd p c ?u)" by (rule disconnect_eval [OF i f c])
  have it: "server_inv (drop_client fd p c ?u)" using disconnect_wp [OF i, of fd] e by simp
  have fd: "cl_fd c = fd" "0 \<le> fd"
    using getClientByFd_wp [OF i, of fd p] f c inv_client [OF i c]
    by (auto simp: getClientByFd_def client_inv_def client_wf_def)
  have srt: "om_sorted (sv_clients s)" using invD(1) [OF i] by (simp add: heap_inv_def)
  have gone: "om_find fd (om_erase fd (sv_clients s)) = None" by (simp add: om_find_erase [OF srt])
  show ?thesis
    using e it fd gone
    by (intro exI [of _ "drop_client fd p c ?u"]) (simp add: om_find_forget queue_heap)
qed

lemma disconnect_effect_witness:
  "\<exists>t ch. disconnectClient 5 demo = Some t \<and> sv_heap t 1 = None \<and> os_fds t = os_fds demo - {5} \<and>
     om_find ''#c'' (sv_channels t) = Some ch \<and> ch_members ch = [0]"
proof -
  have "om_find 5 (sv_clients demo) = Some 1" "sv_heap demo 1 = Some (demo_client 5 ''bob'')" by simp_all
  from disconnect_effect [OF demo_inv this] show ?thesis
  proof (elim exE conjE)
    fix t
    assume t: "disconnectClient 5 demo = Some t" "sv_heap t 1 = None" "os_fds t = os_fds demo - {5}"
    assume "\<forall>n. om_find n (sv_channels t) = map_option (\<lambda>ch. removeInvited 1 (removeMember 1 ch)) (om_find n (sv_channels demo))"
    then have "om_find ''#c'' (sv_channels t) =
        map_option (\<lambda>ch. removeInvited 1 (removeMember 1 ch)) (om_find ''#c'' (sv_channels demo))"
      by (rule spec)
    then have "om_find ''#c'' (sv_channels t) = Some (removeInvited 1 (removeMember 1 demo_channel))" by simp
    then show ?thesis using t by (intro exI [of _ t] exI [of _ "removeInvited 1 (removeMember 1 demo_channel)"])
        (simp add: removeInvited_def del: demo_fields(9))
  qed
qed

text \<open>
  C20. At the end of a round exactly the clients that are dead, or closing with nothing left to
  send, are disconnected and their descriptors closed; every other client stays under its
  descriptor and has at most been sent messages.
\<close>

theorem reap_exact:
  assumes i: "server_inv s"
  shows "\<exists>t. reapDeadClients s = Some t \<and> server_inv t \<and>
     (\<forall>fd p c. om_find fd (sv_clients s) = Some p \<longrightarrow> sv_heap s p = Some c \<longrightarrow>
        (if cl_dead c \<or> cl_closing c \<and> cl_sendBuffer c = []
         then om_find fd (sv_clients t) = None \<and> fd \<notin> os_fds t
         else om_find fd (sv_clients t) = Some p \<and> (\<exists>d. sv_heap t p = Some d \<and> sent_client c d)))"
proof -
  from reap_wp [OF i] obtain t where t: "reapDeadClients s = Some t" "server_inv t" by (rule wpE) blast
  have "if cl_dead c \<or> cl_closing c \<and> cl_sendBuffer c = []
        then om_find fd (sv_clients t) = None \<and> fd \<notin> os_fds t
        else om_find fd (sv_clients t) = Some p \<and> (\<exists>d. sv_heap t p = Some d \<and> sent_client c d)"
    if "om_find fd (sv_clients s) = Some p" "sv_heap s p = Some c" for fd p c
    using reap_one(2,3) [OF i that t(1)] by (simp add: leaving_def hasPendingOutput_def)
  with t show ?thesis by blast
qed

lemma reap_exact_witness:
  "\<exists>t. reapDeadClients demo = Some t \<and> om_find 4 (sv_clients t) = Some 0"
  using reap_exact [OF demo_inv] by (fastforce dest: spec [of _ 4])

text \<open>
  C28. Liveness: a client that is closing is gone after at most one round more than the bytes
  it has left to send, provided that in each of these rounds the kernel reports its socket
  writable and takes at least a byte, whatever the other clients do in the meantime.
\<close>

theorem closing_leaves:
  assumes "server_inv s" and "om_find fd (sv_clients s) = Some p"
    and "sv_heap s p = Some c" "cl_closing c" "\<not> cl_dead c"
    and "writable_rounds fd envs s" and "length (cl_sendBuffer c) < length envs"
  shows "\<exists>k t. k \<le> Suc (length (cl_sendBuffer c)) \<and> rounds (take k envs) s = Some (Inr t) \<and> sv_heap t p = None"
  using assms by (rule closing_gone)

lemma closing_leaves_witness:
  "\<exists>env k t. rounds (take k [env]) (put_client 2 ((demo_client 6 [])\<lparr>cl_closing := True\<rparr>) demo) = Some (Inr t) \<and>
     sv_heap t 2 = None"
proof -
  let ?c = "(demo_client 6 [])\<lparr>cl_closing := True\<rparr>"
  let ?s = "put_client 2 ?c demo"
  let ?env = "demo_env (\<lambda>fd. if fd = 6 then POLLOUT else 0) (AcceptFailed EAGAIN) (Pending [])"
  have "kept_client (demo_client 6 []) ?c"
    using demo_client_inv [of "[]" 6]
    by (simp add: kept_client_def client_inv_def client_wf_def identity_wf_def attempts_wf_def isRegistered_def)
  then have i: "server_inv ?s"
    unfolding put_client_def using demo_inv by (intro inv_update [of demo 2 "demo_client 6 []" ?c]) simp_all
  have "writable_rounds 6 [?env] ?s"
    by (simp add: kernel_ok_def fatal_def demo_env_def has_event_def POLLOUT_def POLLIN_def put_client_def)
  from closing_leaves [OF i _ put_client_simps(1) _ _ this] show ?thesis
    by (auto simp: put_client_def)
qed

section \<open>The programs\<close>

lemma demo_stop_run: "kernel_ok_run (sconst demo_stop) s"
  by (simp add: kernel_ok_run_def kernel_ok_def demo_stop_def demo_quiet_def demo_env_def)

text \<open>
  C30. If the kernel never fails the loop, the server serves exactly the rounds up to and including the one in
  which SIGINT, SIGTERM or SIGQUIT arrives, and then the loop is over; without such a signal it never ends.
\<close>

theorem signal_ends_loop:
  assumes i: "server_inv s" and k: "kernel_ok_run envs s" and fine: "\<not> failing envs s"
  shows "(\<forall>k. en_signal (envs !! k) \<longrightarrow> (\<forall>i < k. \<not> en_signal (envs !! i)) \<longrightarrow>
       (\<exists>t. rounds (stake (Suc k) envs) s = Some (Inr t) \<and> run_loop envs False s = Some (Inr t) \<and> server_inv t)) \<and>
     ((\<forall>k. \<not> en_signal (envs !! k)) \<longrightarrow> run_loop envs False s = None)"
proof (intro conjI allI impI)
  fix k
  assume "en_signal (envs !! k)" and "\<forall>i < k. \<not> en_signal (envs !! i)"
  then show "\<exists>t. rounds (stake (Suc k) envs) s = Some (Inr t) \<and> run_loop envs False s = Some (Inr t) \<and> server_inv t"
    by (intro run_loop_rounds i assms(2) fine) simp_all
next
  assume "\<forall>k. \<not> en_signal (envs !! k)"
  then show "run_loop envs False s = None"
    using run_loop_ended [of envs False s] i k fine by (cases "run_loop envs False s") blast+
qed

lemma signal_ends_loop_witness:
  "\<exists>t. iteration demo_stop demo_first = Some (Inr t) \<and> run_loop (sconst demo_stop) False demo_first = Some (Inr t) \<and>
     run_loop (sconst demo_quiet) False demo_first = None"
proof -
  have i: "server_inv demo_first" by (rule reachable_inv [OF demo_first_reachable])
  have fine: "\<not> failing (sconst demo_stop) demo_first" "\<not> failing (sconst demo_quiet) demo_first"
    by (simp_all add: failing_def fatal_def demo_stop_def demo_quiet_def demo_env_def)
  have quiet: "kernel_ok_run (sconst demo_quiet) demo_first"
    by (simp add: kernel_ok_run_def kernel_ok_def demo_quiet_def demo_env_def)
  have "\<not> en_signal (sconst demo_quiet !! k)" for k by (simp add: demo_quiet_def demo_env_def)
  with signal_ends_loop [OF i quiet fine(2)] have "run_loop (sconst demo_quiet) False demo_first = None" by blast
  moreover have "\<exists>t. rounds (stake (Suc 0) (sconst demo_stop)) demo_first = Some (Inr t) \<and>
      run_loop (sconst demo_stop) False demo_first = Some (Inr t) \<and> server_inv t"
    using signal_ends_loop [OF i demo_stop_run fine(1)] by (auto simp: demo_stop_def)
  ultimately show ?thesis by (auto split: sum.splits Option.bind_splits)
qed

text \<open>
  C9. Refinement of the whole run: the server starts as the empty network with its password, and serves, round by round
  until the round in which the signal arrives, exactly what an abstract network does on the lines, new
  connections and ends of input that the kernel delivered, as long as no connection fails. Who is gone after a round the
  network says itself: of its users those who are leaving (after a QUIT, the end of the input or three wrong passwords) and
  have nothing left to be written; that their send buffers are empty is the one thing it is told of the server.
\<close>

theorem run_refines:
  assumes new: "new_Server port pw = Inr s0" and sig: "setupSignals calls = None" and sock: "setupSocket calls s0 = Inr s1"
    and fds: "\<And>fd. so_socket calls = Inr fd \<Longrightarrow> 0 \<le> fd" "kernel_ok_run envs (setupCommands s1)"
    and fine: "\<not> failing envs (setupCommands s1)"
    and signal: "\<not> so_signal calls" "en_signal (envs !! k)" "\<And>i. i < k \<Longrightarrow> \<not> en_signal (envs !! i)"
    and steady: "steady_run (stake (Suc k) envs) (setupCommands s1)"
  shows "\<exists>t. run calls envs s0 = Some (Inr t) \<and> server_inv t \<and>
     network_of t = fold network_round (run_events (stake (Suc k) envs) (setupCommands s1)) (empty_network pw)"
proof -
  have i: "server_inv (setupCommands s1)" by (rule start_inv [OF new sock fds(1)])
  from run_loop_rounds [OF i fds(2) fine signal(2,3)] obtain t where
    t: "rounds (stake (Suc k) envs) (setupCommands s1) = Some (Inr t)"
      "run_loop envs False (setupCommands s1) = Some (Inr t)" "server_inv t" by blast
  with rounds_refine [OF i fds(2) steady start_network(2) [OF new sock] t(1)] start_network(1) [OF new sock] run_flag [OF sig sock, of envs] signal(1)
  show ?thesis by simp
qed

lemma run_refines_witness:
  "\<exists>s0 s1 t. new_Server 6667 ''pw'' = Inr s0 \<and> setupSocket demo_calls s0 = Inr s1 \<and>
     run demo_calls (demo_accept ## sconst demo_opening) s0 = Some (Inr t) \<and>
     who (network_of t) ''FT_BOT'' = Some 0 \<and>
     network_of t = fold network_round (run_events [demo_accept, demo_opening] (setupCommands s1)) (empty_network ''pw'')"
proof (rule demo_start_parts)
  fix s0 s1
  assume new: "new_Server 6667 ''pw'' = Inr s0" and sock: "setupSocket demo_calls s0 = Inr s1"
    and start: "setupCommands s1 = demo_start"
  let ?envs = "demo_accept ## sconst demo_opening"
  have first: "kernel_ok demo_accept demo_start"
    by (simp add: kernel_ok_def demo_accept_def demo_env_def demo_start_def setupCommands_def)
  have later: "?envs !! Suc i = demo_opening" for i by simp
  have ok: "kernel_ok_run ?envs demo_start"
    unfolding kernel_ok_run_def
  proof (intro allI impI)
    fix i t
    assume t: "rounds (stake i ?envs) demo_start = Some (Inr t)"
    show "kernel_ok (?envs !! i) t"
    proof (cases i)
      case 0
      then show ?thesis using t first by simp
    next
      case (Suc j)
      show ?thesis unfolding Suc later by (simp add: kernel_ok_def demo_opening_def demo_env_def)
    qed
  qed
  have "\<not> fatal (?envs !! i) t" for i t
    by (cases i) (simp_all add: fatal_def demo_accept_def demo_opening_def demo_env_def has_event_def POLLIN_def)
  then have fine: "\<not> failing ?envs demo_start" unfolding failing_def by blast
  have steady: "steady_run (stake (Suc 1) ?envs) demo_start"
    using demo_first_steady demo_first_round demo_second_round demo_second_steady by simp
  have signals: "\<not> so_signal demo_calls" "en_signal (?envs !! 1)" "\<And>i. i < 1 \<Longrightarrow> \<not> en_signal (?envs !! i)"
    by (simp_all add: demo_calls_def demo_opening_def demo_accept_def demo_env_def)
  have "setupSignals demo_calls = None" by (simp add: setupSignals_def demo_calls_def)
  from run_refines [OF new this sock demo_calls_socket _ _ signals] ok fine steady
  obtain t where t: "run demo_calls ?envs s0 = Some (Inr t)"
    "network_of t = fold network_round (run_events [demo_accept, demo_opening] (setupCommands s1)) (empty_network ''pw'')"
    by (auto simp: start)
  have "rounds (stake (Suc 1) ?envs) demo_start = Some (Inr demo_second)"
    using demo_first_round demo_second_round by simp
  moreover have "run demo_calls ?envs s0 = run_loop ?envs False demo_start"
    using run_flag [of demo_calls s0 s1 ?envs] sock start \<open>setupSignals demo_calls = None\<close> signals(1) by simp
  moreover have "rounds (stake (Suc 1) ?envs) demo_start = run_loop ?envs False demo_start"
    using run_loop_rounds [OF reachable_inv [OF demo_start_reachable] ok fine signals(2,3)] by auto
  ultimately have "Some (Inr t) = Some (Inr demo_second :: server thrown)" using t(1) by metis
  then have "t = demo_second" by simp
  then have "who (network_of t) ''FT_BOT'' = Some 0" using demo_second_who by simp
  with new sock t show ?thesis by blast
qed

text \<open>
  C31. With a valid port and password, signal handlers and a socket that could be set up and a kernel that never fails
  the loop, the server program serves until a SIGINT, SIGTERM or SIGQUIT arrives; then it closes every descriptor and
  exits with status 0, and \<open>main\<close> has reported no error (neither its usage, nor a refused argument, nor a fatal error; the warnings that
  the server writes while it serves are not part of the model).
\<close>

theorem main_runs:
  assumes port: "parsePort (Some arg) = Some port" and pw: "isValidPassword (Some pw)"
    and new: "new_Server port pw = Inr s0" and sig: "setupSignals calls = None" and sock: "setupSocket calls s0 = Inr s1"
    and fds: "\<And>fd. so_socket calls = Inr fd \<Longrightarrow> 0 \<le> fd" "kernel_ok_run envs (setupCommands s1)"
    and fine: "\<not> failing envs (setupCommands s1)" and signal: "so_signal calls \<or> en_signal (envs !! k)"
  shows "main calls envs (Some [Some prog, Some arg, Some pw]) = Some (0, [], {})"
proof -
  have "server_inv (setupCommands s1)" by (rule start_inv [OF new sock fds(1)])
  from run_loop_wp [OF this fds(2) signal] obtain r where r: "run_loop envs (so_signal calls) (setupCommands s1) = Some r"
    and post: "case r of Inl x \<Rightarrow> failing envs (setupCommands s1) \<and> server_inv (snd x) | Inr t \<Rightarrow> server_inv t"
    by (rule wpE)
  then obtain t where t: "r = Inr t" "server_inv t" using fine by (cases r) auto
  obtain u where "destroy_Server t = Some u" "os_fds u = {}" using destroy_closes_all [OF t(2)] by (auto elim: wpE)
  then show ?thesis
    using port pw new r t(1) run_flag [OF sig sock] by (simp add: main_def)
qed

lemma main_runs_witness:
  "main demo_calls (sconst demo_stop) (Some [Some ''./ircserv'', Some ''6667'', Some ''pw'']) = Some (0, [], {})"
proof -
  have "list_all is_digit ''6667''" "decimal ''6667'' = 6667" by code_simp+
  then have port: "parsePort (Some ''6667'') = Some 6667" by (simp add: parsePort_iff)
  have pw: "isValidPassword (Some ''pw'')" by code_simp
  obtain s0 where s0: "new_Server 6667 ''pw'' = Inr s0" by (simp add: new_Server_def)
  obtain s1 where s1: "setupSocket demo_calls s0 = Inr s1" by (simp add: setupSocket_def demo_calls_def)
  show ?thesis
    by (rule main_runs [OF port pw s0 _ s1 _ demo_stop_run])
      (simp_all add: setupSignals_def demo_calls_def failing_def fatal_def demo_stop_def demo_quiet_def demo_env_def)
qed

text \<open>
  C32. Whatever the arguments are and however the system calls fail, the server program ends once a shutdown signal
  arrives, if it did not end before: with exit status 0
  and no error reported by \<open>main\<close>, or with status 1 and the message of \<open>main\<close> that says why. On the way it dereferences no pointer to an
  object that is gone and no loop runs forever, and no descriptor that it opened is left open, also when an exception ends it.
\<close>

theorem main_status:
  assumes "\<And>fd. so_socket calls = Inr fd \<Longrightarrow> 0 \<le> fd"
    and "\<And>port pw s0 s1. new_Server port pw = Inr s0 \<Longrightarrow> setupSocket calls s0 = Inr s1 \<Longrightarrow>
           kernel_ok_run envs (setupCommands s1)"
    and "so_signal calls \<or> en_signal (envs !! k)"
  shows "\<exists>status err. main calls envs argv = Some (status, err, {}) \<and>
     (status = 0 \<and> err = [] \<or> status = 1 \<and> err \<noteq> [])"
proof -
  let ?ended = "\<lambda>r. \<exists>status err. r = (status, err, {}) \<and> (status = 0 \<and> err = [] \<or> status = (1 :: int) \<and> err \<noteq> [])"
  have msg: "cat (m # ms) \<noteq> []" if "m \<noteq> []" for m :: string and ms using that by (simp add: cat_def)
  have body: "wp (do { r \<leftarrow> run calls envs s0;
      (case r of
         Inl x \<Rightarrow> do { u \<leftarrow> destroy_Server (snd x); Some (1, cat [''Fatal error: '', fst x], os_fds u) }
       | Inr t \<Rightarrow> do { u \<leftarrow> destroy_Server t; Some (0, [], os_fds u) }) }) ?ended"
    if new: "new_Server port pw = Inr s0" for port pw s0
  proof (rule wp_bindI [OF run_destroyed [OF new assms(1) assms(2) [OF new] assms(3)]])
    fix r :: "server thrown"
    assume d: "wp (destroy_Server (case r of Inl x \<Rightarrow> snd x | Inr t \<Rightarrow> t)) (\<lambda>u. os_fds u = {})"
    show "wp (case r of
         Inl x \<Rightarrow> do { u \<leftarrow> destroy_Server (snd x); Some (1, cat [''Fatal error: '', fst x], os_fds u) }
       | Inr t \<Rightarrow> do { u \<leftarrow> destroy_Server t; Some (0, [], os_fds u) }) ?ended"
      using d by (cases r) (auto intro: wp_mono simp: msg)
  qed
  have "wp (main calls envs argv) ?ended"
    using body by (auto simp: main_def msg server_usage_def split: option.splits sum.splits)
  then show ?thesis by (auto elim!: wpE)
qed

lemma main_status_witness:
  "\<exists>status err. main demo_calls (sconst demo_stop) (Some [Some ''./ircserv'', Some ''0'', Some ''pw'']) = Some (status, err, {}) \<and>
     (status = 0 \<and> err = [] \<or> status = 1 \<and> err \<noteq> [])"
  by (rule main_status [where k = 0]) (simp_all only: demo_stop_run, simp_all add: demo_calls_def demo_stop_def)

text \<open>
  C34. The two programs together: once connected, with a password that both command lines
  accept, the bot sends its opening before anything else, and a server with that password that reads these
  bytes from a fresh connection registers it under the bot's nickname, if that is free.
\<close>

theorem bot_session_registers:
  assumes connected: "connectToServer resolved b = Some (Inr b1)" "bt_sent b1 = []"
    and takes: "list_all (\<lambda>r. \<exists>n. r = Sent (Suc n)) (bt_sends b1)" "600 \<le> length (bt_sends b1)"
    and pw: "isValidPassword (Some (bt_password b1))" "NUL \<notin> set (bt_password b1)"
    and i: "server_inv s" and same: "sv_password s = bt_password b1"
    and c: "sv_heap s p = Some c" "\<not> cl_dead c" "\<not> cl_closing c" "\<not> cl_passOk c" "\<not> cl_nickSet c" "\<not> cl_userSet c"
    and free: "findClientByNick BOT_NICKNAME s = Some None"
  shows "\<exists>b4 t d. bot_run None resolved received b = receiveMessages received b4 \<and>
     read_loop p (put_client p (c\<lparr>cl_recvBuffer := bt_sent b4\<rparr>) s) = Some t \<and>
     sv_heap t p = Some d \<and> isRegistered d \<and> cl_nickname d = BOT_NICKNAME"
proof -
  let ?bytes = "concat (map to_wire (bot_opening (bt_password b1)))"
  from bot_run_opening [OF connected(1) refl pw takes] connected(2) obtain b4 where
    b4: "bot_run None resolved received b = receiveMessages received b4" "bt_sent b4 = ?bytes" by auto
  let ?x = "c\<lparr>cl_recvBuffer := ?bytes\<rparr>"
  let ?s = "put_client p ?x s"
  have "length (bt_password b1) \<le> 504" using pw(1) by (simp add: isValidPassword_iff)
  then have "length ?bytes \<le> MAX_RECV_BUFFER"
    by (simp add: bot_opening_def pass_line_def to_wire_def MAX_RECV_BUFFER_def)
  then have "kept_client c ?x"
    by (auto simp: kept_client_def client_inv_def client_wf_def identity_wf_def attempts_wf_def isRegistered_def)
  then have ix: "server_inv ?s" unfolding put_client_def by (rule inv_update [OF i c(1)]) simp
  have "findClientByNick BOT_NICKNAME ?s = Some None"
    using findClientByNick_put [OF c(1), of ?x] free by simp
  let ?d = "?x\<lparr>cl_recvBuffer := [], cl_passOk := True, cl_nickname := BOT_NICKNAME, cl_nickSet := True,
      cl_username := ''ftbot'', cl_userSet := True\<rparr>"
  let ?w = "sendMessage (welcome_message ?d) ?d"
  have served: "read_loop p ?s = Some (put_client p ?w ?s)"
    by (rule bot_registers(1) [OF ix]) (use pw c same \<open>findClientByNick BOT_NICKNAME ?s = Some None\<close> in simp_all)
  have reg: "isRegistered ?d" by (simp add: isRegistered_def)
  have "isRegistered ?w" "cl_nickname ?w = BOT_NICKNAME" using reg by simp_all
  with b4 served show ?thesis
    by (intro exI [of _ b4] exI [of _ "put_client p ?w ?s"] exI [of _ ?w]) simp
qed

lemma bot_session_registers_witness:
  "\<exists>b b4 t d. new_Bot ''localhost'' 6667 ''pw'' ''#c'' (replicate 600 (Sent 1)) [] = Inr b \<and>
     bot_run None (Inr [(7, True)]) [] b = receiveMessages [] b4 \<and>
     read_loop 2 (put_client 2 ((demo_client 6 [])\<lparr>cl_recvBuffer := bt_sent b4\<rparr>) demo) = Some t \<and>
     sv_heap t 2 = Some d \<and> isRegistered d"
proof -
  obtain b where b: "new_Bot ''localhost'' 6667 ''pw'' ''#c'' (replicate 600 (Sent 1)) [] = Inr b" by (simp add: new_Bot_def)
  let ?b1 = "b\<lparr>bt_fds := insert 7 (bt_fds b), bt_socketFd := 7\<rparr>"
  have con: "connectToServer (Inr [(7, True)]) b = Some (Inr ?b1)" by (simp add: connectToServer_def Let_def)
  have f: "bt_sent ?b1 = []" "bt_sends ?b1 = replicate 600 (Sent 1)" "bt_password ?b1 = ''pw''"
    using b by (auto simp: new_Bot_def)
  have free: "findClientByNick BOT_NICKNAME demo = Some None"
    by (simp add: findClientByNick_def deref_def toIrcLowerCase_def irc_lower_def is_upper_def BOT_NICKNAME_def)
  have "sv_heap demo 2 = Some (demo_client 6 [])" by simp
  from bot_session_registers [OF con f(1) _ _ _ _ demo_inv _ this _ _ _ _ _ free, of "[]"] f b
  show ?thesis by (auto simp: isValidPassword_iff list_all_iff)
qed

section \<open>What the code does and may not mean to\<close>

text \<open>
  C39. An operator who is the only member can kick itself: the channel is not removed but stays
  without members and operators, otherwise as it was, with its topic, modes, key, limit and invitations; a registered client that
  these let in joins it as an ordinary member, so that nobody operates it any more.
\<close>

theorem kick_empties_channel:
  assumes i: "server_inv s" and c: "sv_heap s p = Some c" and ch: "om_find n (sv_channels s) = Some ch"
    and alone: "ch_members ch = [p]" "isOperator ch p" and q: "findClientByNick nick s = Some (Some p)"
  shows "\<exists>t ch'. kick_one p n nick reason s = Some t \<and> om_find n (sv_channels t) = Some ch' \<and>
     ch' = ch\<lparr>ch_members := [], ch_operators := []\<rparr> \<and>
     (\<forall>q d key. sv_heap t q = Some d \<longrightarrow> isRegistered d \<longrightarrow> may_join q key ch' \<longrightarrow>
        (\<exists>u. join_one q n key t = Some u \<and>
           om_find n (sv_channels u) = Some (removeInvited q (ch'\<lparr>ch_members := [q]\<rparr>))))"
proof -
  let ?ch = "ch\<lparr>ch_members := [], ch_operators := []\<rparr>"
  from kick_one_wp [OF i _ q, of p n reason] c ch obtain t where
    t: "kick_one p n nick reason s = Some t" "server_inv t" "chan_update n (Some (kick_result p (Some p) ch)) s t"
    by (auto elim!: wpE)
  have valid: "isValidChannelName n" "clean n" and ops: "set (ch_operators ch) \<subseteq> {p}" "distinct (ch_operators ch)"
    using inv_channel [OF i ch] alone(1) by (auto simp: chan_wf_def)
  then have "ch_operators ch = [p]" using alone(2) by (cases "ch_operators ch"; cases "tl (ch_operators ch)") (auto simp: isOperator_iff)
  then have "kick_result p (Some p) ch = ?ch"
    using alone by (simp add: kick_result_def isMember_iff isOperator_iff channel_op_defs)
  then have ch': "om_find n (sv_channels t) = Some ?ch" using t(3) by (simp add: chan_update_def)
  have "\<exists>u. join_one q n key t = Some u \<and> om_find n (sv_channels u) = Some (removeInvited q (?ch\<lparr>ch_members := [q]\<rparr>))"
    if "sv_heap t q = Some d" "isRegistered d" "may_join q key ?ch" for q d key
  proof -
    have "q \<in> reg_ptrs t" using that by (auto simp: reg_ptrs_def)
    from join_one_wp [OF t(2) this valid(2)] obtain u where
      u: "join_one q n key t = Some u" "chan_update n (join_result q n key (Some ?ch)) t u"
      using ch' by (auto elim!: wpE)
    moreover have "join_result q n key (Some ?ch) = Some (removeInvited q (?ch\<lparr>ch_members := [q]\<rparr>))"
      using that(3) valid by (simp add: join_result_def isMember_iff addMember_def vec_add_def vec_mem_def)
    ultimately show ?thesis by (simp add: chan_update_def)
  qed
  with t(1) ch' show ?thesis by blast
qed

lemma kick_empties_channel_witness:
  "\<exists>t ch. kick_one 0 ''#c'' ''alice'' ''bye'' (demo\<lparr>sv_channels := [(''#c'', demo_channel\<lparr>ch_members := [0]\<rparr>)]\<rparr>) = Some t \<and>
     om_find ''#c'' (sv_channels t) = Some ch \<and> ch_members ch = []"
proof -
  let ?ch = "demo_channel\<lparr>ch_members := [0]\<rparr>"
  let ?s = "demo\<lparr>sv_channels := [(''#c'', ?ch)]\<rparr>"
  have "server_inv (demo\<lparr>sv_channels := om_insert ''#c'' ?ch (sv_channels demo)\<rparr>)"
    by (rule inv_put_channel [OF demo_inv]) (use demo_names in \<open>auto simp: chan_wf_def demo_reg\<close>)
  then have i: "server_inv ?s" by simp
  have "findClientByNick ''alice'' ?s = Some (Some 0)"
    by (simp add: findClientByNick_def deref_def toIrcLowerCase_def irc_lower_def is_upper_def)
  from kick_empties_channel [OF i, of 0 "demo_client 4 ''alice''" "''#c''" ?ch "''alice''" "''bye''"] this
  show ?thesis by (auto simp: isOperator_iff)
qed

text \<open>
  MODE +l reads its parameter with \<open>atoi\<close> into an \<open>int\<close>: a limit of 4294967297 is accepted and
  becomes 1.
\<close>

lemma limit_wraps:
  assumes i: "server_inv s" and c: "sv_heap s p = Some c" and ch: "om_find n (sv_channels s) = Some ch"
    and may: "isOperator ch p" and new: "ch_userLimit ch \<noteq> 1"
  shows "\<exists>t ch'. mode_execute p [n, ''+l'', ''4294967297''] s = Some t \<and>
     om_find n (sv_channels t) = Some ch' \<and> ch_userLimit ch' = 1"
proof -
  have big: "decimal ''4294967297'' = 4294967297" by (simp add: decimal_def digit_value_def)
  have "sint (of_nat (min 4294967297 LONG_MAX) :: 32 word) = 1" by (simp add: LONG_MAX_def)
  then have atoi: "atoi ''4294967297'' = 1" unfolding atoi_def big .
  have limit: "list_all is_digit ''4294967297''" "\<not> list_ex unknown_mode ''+l''" by code_simp+
  have wf: "isValidChannelName n" "clean n" using inv_channel [OF i ch] by (auto simp: chan_wf_def)
  have name: "first_char n \<in> {CHR ''#'', CHR ''&''}"
    using valid_channel_isChannel [OF wf(1)] by (auto simp: isChannel_def first_char_def split: if_splits)
  have p: "p \<in> dom (sv_heap s)" and cl: "list_all clean [n, ''+l'', ''4294967297'']" using c wf(2) by auto
  have "mode_may p [n, ''+l'', ''4294967297''] ch" using may limit(2) by (simp add: mode_may_def)
  from mode_allowed [OF i p cl refl name ch this] obtain m u d ch' where
    l: "mode_loop p n [n, ''+l'', ''4294967297''] ([n, ''+l'', ''4294967297''] ! 1) mode_start s = Some (m, u)"
    and t: "mode_execute p [n, ''+l'', ''4294967297''] s = Some
           (if ma_appliedModes m = [] then u else queue (mode_message d n m) (set (ch_members ch)) u)"
    by blast
  have "om_find n (sv_channels u) = Some (setUserLimit 1 ch)"
    using l atoi limit(1) ch new
    by (auto simp: mode_letter_def mode_l_def mode_start_def take_param_def channel_at_def invoke_channel_def Let_def
        split: if_splits)
  with t show ?thesis by (auto simp: setUserLimit_def)
qed

lemma limit_wraps_witness:
  "\<exists>t ch. mode_execute 0 [''#c'', ''+l'', ''4294967297''] demo = Some t \<and> om_find ''#c'' (sv_channels t) = Some ch \<and>
     ch_userLimit ch = 1"
  using limit_wraps [OF demo_inv, of 0 "demo_client 4 ''alice''" "''#c''" demo_channel]
  by (simp add: demo_operator)

end
